(* ===== verification/DLT_Prelude.thy ===== *)
theory DLT_Prelude
  imports Complex_Main "HOL-Library.Signed_Division"
begin

section \<open>Shared vocabulary and automation\<close>

text \<open>
  What every component of the development uses: the signed 64-bit arithmetic of Go's
  \<^verbatim>\<open>int64\<close>, SQL-style aggregation over nullable columns, and generic lemmas on
  lists and folds. The collections:
  \<^item> \<open>store_defs\<close>: the definitions of the store's operations, unfolded together;
  \<^item> \<open>row_simps\<close>: how the row updates of the store act on the columns;
  \<^item> \<open>go_simps\<close>: evaluation rules for the modelled part of Go's standard library.
\<close>

named_theorems store_defs "definitions of the store's operations"
named_theorems row_simps "the effect of row updates on columns"
named_theorems go_simps "evaluation of Go library functions"

subsection \<open>Go's int64\<close>

text \<open>
  An \<^verbatim>\<open>int64\<close> is an \<open>int\<close> between the two bounds; every arithmetic result is
  reduced by \<open>wrap64\<close>, two's complement wrap-around as the Go specification prescribes.
  Go's \<^verbatim>\<open>int\<close> has the same width on the platforms the images are built for.
\<close>

definition int64_ok :: "int \<Rightarrow> bool" where
  "int64_ok x \<longleftrightarrow> - (2 ^ 63) \<le> x \<and> x < 2 ^ 63"

definition wrap64 :: "int \<Rightarrow> int" where
  "wrap64 x = (x + 2 ^ 63) mod 2 ^ 64 - 2 ^ 63"

definition add64 :: "int \<Rightarrow> int \<Rightarrow> int" where
  "add64 a b = wrap64 (a + b)"

lemma wrap64_ok: "int64_ok (wrap64 x)"
proof -
  have "0 \<le> (x + 2 ^ 63) mod 2 ^ 64 \<and> (x + 2 ^ 63) mod 2 ^ 64 < (2 ^ 64 :: int)"
    by simp
  then show ?thesis by (simp add: int64_ok_def wrap64_def)
qed

lemma wrap64_id [simp]: "int64_ok x \<Longrightarrow> wrap64 x = x"
  by (simp add: int64_ok_def wrap64_def)

lemma wrap64_add_left: "wrap64 (wrap64 a + b) = wrap64 (a + b)"
proof -
  have "(wrap64 a + b + 2 ^ 63) mod 2 ^ 64 = ((a + 2 ^ 63) mod 2 ^ 64 + b) mod (2 ^ 64 :: int)"
    by (simp add: wrap64_def)
  also have "\<dots> = (a + 2 ^ 63 + b) mod 2 ^ 64"
    by (rule mod_add_left_eq)
  also have "\<dots> = (a + b + 2 ^ 63) mod 2 ^ 64"
    by (simp only: ac_simps)
  finally show ?thesis by (simp only: wrap64_def)
qed

lemma wrap64_0 [simp]: "wrap64 0 = 0"
  by (simp add: wrap64_def)

lemma int64_ok_0 [simp]: "int64_ok 0"
  by (simp add: int64_ok_def)

lemma foldl_add64: "foldl add64 (wrap64 a) xs = wrap64 (a + sum_list xs)"
proof (induction xs arbitrary: a)
  case Nil
  then show ?case by simp
next
  case (Cons x xs)
  have "foldl add64 (wrap64 a) (x # xs) = foldl add64 (wrap64 (a + x)) xs"
    by (simp add: add64_def wrap64_add_left)
  then show ?case by (simp add: Cons.IH add.assoc)
qed

lemma foldl_add64_0: "foldl add64 0 xs = wrap64 (sum_list xs)"
  using foldl_add64 [of 0 xs] by simp

lemma add64_exact: "int64_ok (a + b) \<Longrightarrow> add64 a b = a + b"
  by (simp add: add64_def)

subsection \<open>Lists\<close>

lemma sum_list_nonneg_member:
  fixes xs :: "int list"
  assumes "\<forall>x \<in> set xs. 0 \<le> x" and "x \<in> set xs"
  shows "x \<le> sum_list xs"
  using assms
proof (induction xs)
  case (Cons y ys)
  then have "0 \<le> sum_list ys" by (simp add: sum_list_nonneg)
  with Cons show ?case by auto
qed simp

lemma sum_list_take_le:
  fixes xs :: "int list"
  assumes "\<forall>x \<in> set xs. 0 \<le> x"
  shows "0 \<le> sum_list (take k xs) \<and> sum_list (take k xs) \<le> sum_list xs"
proof -
  have "sum_list xs = sum_list (take k xs) + sum_list (drop k xs)"
    by (metis append_take_drop_id sum_list_append)
  moreover have "0 \<le> sum_list (drop k xs)" "0 \<le> sum_list (take k xs)"
    using assms by (auto intro!: sum_list_nonneg dest: in_set_dropD in_set_takeD)
  ultimately show ?thesis by simp
qed

lemma sum_list_update_int:
  fixes xs :: "int list"
  assumes "k < length xs"
  shows "sum_list (xs[k := v]) = sum_list xs - xs ! k + v"
  using assms by (induction xs arbitrary: k) (auto split: nat.splits)

lemma filter_map_id_on:
  assumes "\<And>x. x \<in> set xs \<Longrightarrow> P (f x) = P x" and "\<And>x. x \<in> set xs \<Longrightarrow> P x \<Longrightarrow> f x = x"
  shows "filter P (map f xs) = filter P xs"
  using assms by (induction xs) auto

end
