(* ===== verification/Go_Float.thy ===== *)
theory Go_Float
  imports DLT_Prelude "HOL-Library.Log_Nat"
begin

section \<open>Go's float64\<close>

text \<open>
  A finite \<^verbatim>\<open>float64\<close> is represented by the rational number it denotes, and every
  arithmetic operation of the code rounds its exact result with \<open>fl64\<close>: to the nearest
  number with a 53-bit significand, ties to the even significand, the rounding mode of
  both Go and PostgreSQL's \<^verbatim>\<open>DOUBLE PRECISION\<close>. The exponent range is not bounded:
  the latencies of this program are millisecond counts between \<open>10\<^sup>-\<^sup>6\<close> and \<open>10\<^sup>13\<close>, far
  from the underflow and overflow thresholds of the format, and Infinity and NaN cannot
  enter through JSON.

  The lemmas give the standard model of floating-point arithmetic: relative error at most
  \<open>2\<^sup>-\<^sup>5\<^sup>3\<close>, monotonicity, and exactness on the integers up to \<open>2\<^sup>5\<^sup>3\<close>.
\<close>

type_synonym float64 = rat

definition pow2 :: "int \<Rightarrow> rat" where
  "pow2 e = 2 powi e"

definition ilog2 :: "rat \<Rightarrow> int" where
  "ilog2 x =
     (case quotient_of x of (a, b) \<Rightarrow>
        let e = int (floorlog 2 (nat a)) - int (floorlog 2 (nat b))
        in if pow2 e \<le> x then e else e - 1)"

definition round_even :: "rat \<Rightarrow> int" where
  "round_even y =
     (let f = \<lfloor>y\<rfloor>; r = y - of_int f
      in if r < 1 / 2 then f else if 1 / 2 < r then f + 1
         else if even f then f else f + 1)"

definition fl64 :: "rat \<Rightarrow> float64" where
  "fl64 x =
     (if x = 0 then 0
      else let u = pow2 (ilog2 \<bar>x\<bar> - 52) in of_int (round_even (x / u)) * u)"

subsection \<open>Powers of two\<close>

lemma pow2_pos [simp]: "0 < pow2 e"
  by (simp add: pow2_def)

lemma pow2_nonzero [simp]: "pow2 e \<noteq> 0"
  using pow2_pos [of e] by linarith

lemma pow2_add: "pow2 (a + b) = pow2 a * pow2 b"
  by (simp add: pow2_def power_int_add)

lemma pow2_Suc: "pow2 (e + 1) = 2 * pow2 e"
  by (simp add: pow2_add) (simp add: pow2_def)

lemma pow2_nat: "pow2 (int n) = 2 ^ n"
  by (simp add: pow2_def)

lemma pow2_mono: "a \<le> b \<Longrightarrow> pow2 a \<le> pow2 b"
  by (simp add: pow2_def power_int_increasing)

lemma pow2_strict_mono: "a < b \<Longrightarrow> pow2 a < pow2 b"
  by (simp add: pow2_def power_int_strict_increasing)

lemma pow2_less_iff: "pow2 a < pow2 b \<longleftrightarrow> a < b"
  by (meson linorder_not_less pow2_mono pow2_strict_mono)

lemma pow2_diff: "pow2 (a - b) = pow2 a / pow2 b"
  by (simp add: pow2_def power_int_diff)

lemma pow2_integer: "0 \<le> e \<Longrightarrow> pow2 e = of_int (2 ^ nat e)"
  using pow2_nat [of "nat e"] by simp

subsection \<open>The binary exponent\<close>

lemma floorlog2_bounds:
  assumes "0 < n"
  shows "pow2 (int (floorlog 2 n) - 1) \<le> of_nat n \<and> of_nat n < pow2 (int (floorlog 2 n))"
proof -
  from assms have b: "2 ^ (floorlog 2 n - 1) \<le> n \<and> n < 2 ^ floorlog 2 n"
    using floorlog_bounds [of n 2] by simp
  have "0 < floorlog 2 n"
    using assms b by (cases "floorlog 2 n") auto
  then have e: "int (floorlog 2 n) - 1 = int (floorlog 2 n - 1)" by simp
  have "(of_nat (2 ^ (floorlog 2 n - 1)) :: rat) \<le> of_nat n" using b by (simp only: of_nat_le_iff)
  moreover have "(of_nat n :: rat) < of_nat (2 ^ floorlog 2 n)" using b by (simp only: of_nat_less_iff)
  ultimately show ?thesis by (simp only: e pow2_nat) simp
qed

lemma ilog2_bounds:
  assumes "0 < x"
  shows "pow2 (ilog2 x) \<le> x \<and> x < pow2 (ilog2 x + 1)"
proof -
  obtain a b where q: "quotient_of x = (a, b)" by (cases "quotient_of x")
  have b: "0 < b" using quotient_of_denom_pos [OF q] .
  have x: "x = of_int a / of_int b" using quotient_of_div [OF q] .
  have a: "0 < a" using assms b by (simp add: x zero_less_divide_iff)
  define ka kb where k: "ka = int (floorlog 2 (nat a))" "kb = int (floorlog 2 (nat b))"
  have A: "pow2 (ka - 1) \<le> of_int a \<and> of_int a < pow2 ka"
    using floorlog2_bounds [of "nat a"] a by (simp add: k)
  have B: "pow2 (kb - 1) \<le> of_int b \<and> of_int b < pow2 kb"
    using floorlog2_bounds [of "nat b"] b by (simp add: k)
  have pos: "(0::rat) < of_int b" "(0::rat) < of_int a" using a b by simp_all
  have "pow2 (ka - kb - 1) \<le> x"
  proof -
    have "pow2 (ka - kb - 1) * of_int b \<le> pow2 (ka - kb - 1) * pow2 kb"
      using B by (simp add: mult_left_mono)
    also have "\<dots> = pow2 (ka - 1)" by (simp flip: pow2_add)
    also have "\<dots> \<le> of_int a" using A by simp
    finally show ?thesis using pos by (simp add: x pos_le_divide_eq)
  qed
  moreover have "x < pow2 (ka - kb + 1)"
  proof -
    have "of_int a < pow2 ka" using A by simp
    also have "\<dots> = pow2 (ka - kb + 1) * pow2 (kb - 1)" by (simp flip: pow2_add)
    also have "\<dots> \<le> pow2 (ka - kb + 1) * of_int b"
      using B by (simp add: mult_left_mono)
    finally show ?thesis using pos by (simp add: x pos_divide_less_eq)
  qed
  moreover have "ilog2 x = (if pow2 (ka - kb) \<le> x then ka - kb else ka - kb - 1)"
    by (simp add: ilog2_def q k)
  ultimately show ?thesis by auto
qed

lemma ilog2_eqI:
  assumes "pow2 e \<le> x" and "x < pow2 (e + 1)"
  shows "ilog2 x = e"
proof -
  have "0 < x" using assms(1) pow2_pos [of e] by linarith
  note b = ilog2_bounds [OF this]
  have "pow2 (ilog2 x) < pow2 (e + 1)" "pow2 e < pow2 (ilog2 x + 1)"
    using assms b by linarith+
  then show ?thesis by (simp add: pow2_less_iff)
qed

subsection \<open>Rounding to the nearest integer\<close>

lemma round_even_err: "\<bar>of_int (round_even y) - y\<bar> \<le> 1 / 2"
proof -
  have "of_int \<lfloor>y\<rfloor> \<le> y" "y < of_int \<lfloor>y\<rfloor> + 1" by linarith+
  then show ?thesis by (auto simp: round_even_def Let_def)
qed

lemma round_even_int [simp]: "round_even (of_int k) = k"
  by (simp add: round_even_def)

lemma round_even_mono:
  assumes "x \<le> y" shows "round_even x \<le> round_even y"
proof (cases "\<lfloor>x\<rfloor> = \<lfloor>y\<rfloor>")
  case True
  with assms show ?thesis by (auto simp: round_even_def Let_def)
next
  case False
  then have "\<lfloor>x\<rfloor> + 1 \<le> \<lfloor>y\<rfloor>" using floor_mono [OF assms] by linarith
  then show ?thesis by (auto simp: round_even_def Let_def)
qed

subsection \<open>The standard model\<close>

lemma fl64_0 [simp]: "fl64 0 = 0"
  by (simp add: fl64_def)

lemma fl64_eq:
  assumes "pow2 e \<le> \<bar>x\<bar>" and "\<bar>x\<bar> < pow2 (e + 1)"
  shows "fl64 x = of_int (round_even (x / pow2 (e - 52))) * pow2 (e - 52)"
proof -
  have "0 < \<bar>x\<bar>" by (rule less_le_trans [OF pow2_pos assms(1)])
  then have "x \<noteq> 0" by simp
  moreover have "ilog2 \<bar>x\<bar> = e" using assms by (rule ilog2_eqI)
  ultimately show ?thesis by (simp add: fl64_def Let_def)
qed

lemma fl64_err: "\<bar>fl64 x - x\<bar> \<le> \<bar>x\<bar> * pow2 (- 53)"
proof (cases "x = 0")
  case False
  define e where "e = ilog2 \<bar>x\<bar>"
  define u where "u = pow2 (e - 52)"
  have u: "0 < u" by (simp add: u_def)
  have e: "pow2 e \<le> \<bar>x\<bar>" using ilog2_bounds [of "\<bar>x\<bar>"] False by (simp add: e_def)
  have "fl64 x - x = (of_int (round_even (x / u)) - x / u) * u"
    using False u by (simp add: fl64_def Let_def e_def u_def field_simps)
  then have "\<bar>fl64 x - x\<bar> \<le> 1 / 2 * u"
    using round_even_err [of "x / u"] u by (simp add: abs_mult)
  also have "\<dots> = pow2 e * pow2 (- 53)"
  proof -
    have "pow2 (e - 52) = 2 * pow2 (e - 53)" using pow2_Suc [of "e - 53"] by simp
    moreover have "pow2 (e - 53) = pow2 e * pow2 (- 53)" using pow2_add [of e "- 53"] by simp
    ultimately show ?thesis by (simp add: u_def)
  qed
  also have "\<dots> \<le> \<bar>x\<bar> * pow2 (- 53)" using e by (simp add: mult_right_mono)
  finally show ?thesis .
qed simp

lemma round_even_ge:
  assumes "of_int k \<le> y" shows "k \<le> round_even y"
  using round_even_mono [OF assms] by simp

lemma round_even_le:
  assumes "y \<le> of_int k" shows "round_even y \<le> k"
  using round_even_mono [OF assms] by simp

lemma fl64_nonneg: "0 \<le> x \<Longrightarrow> 0 \<le> fl64 x"
  using round_even_ge [of 0 "x / pow2 (ilog2 \<bar>x\<bar> - 52)"] less_imp_le [OF pow2_pos]
  by (simp add: fl64_def Let_def)

lemma fl64_between:
  assumes "pow2 e \<le> x" and "x < pow2 (e + 1)"
  shows "pow2 e \<le> fl64 x \<and> fl64 x \<le> pow2 (e + 1)"
proof -
  have x: "\<bar>x\<bar> = x" using assms(1) pow2_pos [of e] by linarith
  let ?u = "pow2 (e - 52)"
  have p: "of_int (2 ^ 52) * ?u = pow2 e" "of_int (2 ^ 53) * ?u = pow2 (e + 1)"
    using pow2_add [of 52 "e - 52"] pow2_add [of 53 "e - 52"] pow2_nat [of 52] pow2_nat [of 53]
    by (simp_all add: add.commute)
  have "of_int (2 ^ 52) \<le> x / ?u" "x / ?u \<le> of_int (2 ^ 53)"
    using assms p pow2_pos [of "e - 52"] by (simp_all add: pos_le_divide_eq pos_divide_le_eq)
  then have r: "2 ^ 52 \<le> round_even (x / ?u)" "round_even (x / ?u) \<le> 2 ^ 53"
    using round_even_ge round_even_le by blast+
  have "fl64 x = of_int (round_even (x / ?u)) * ?u" using assms by (simp add: fl64_eq x)
  moreover have "(of_int (2 ^ 52) :: rat) \<le> of_int (round_even (x / ?u))"
    "of_int (round_even (x / ?u)) \<le> (of_int (2 ^ 53) :: rat)"
    using r by (simp_all only: of_int_le_iff)
  ultimately show ?thesis using p mult_right_mono [of _ _ ?u]
    by (metis less_imp_le pow2_pos)
qed

lemma fl64_mono_pos:
  assumes "0 < x" and "x \<le> y"
  shows "fl64 x \<le> fl64 y"
proof -
  have y: "0 < y" using assms by linarith
  define a b where e: "a = ilog2 x" "b = ilog2 y"
  have ax: "pow2 a \<le> x" "x < pow2 (a + 1)" using ilog2_bounds [OF assms(1)] by (auto simp: e)
  have by': "pow2 b \<le> y" "y < pow2 (b + 1)" using ilog2_bounds [OF y] by (auto simp: e)
  have "pow2 a < pow2 (b + 1)" using ax by' assms by linarith
  then have "a \<le> b" by (simp add: pow2_less_iff)
  show ?thesis
  proof (cases "a = b")
    case True
    have "fl64 x = of_int (round_even (x / pow2 (a - 52))) * pow2 (a - 52)"
      "fl64 y = of_int (round_even (y / pow2 (a - 52))) * pow2 (a - 52)"
      using ax by' True assms y by (auto intro!: fl64_eq)
    moreover have "round_even (x / pow2 (a - 52)) \<le> round_even (y / pow2 (a - 52))"
      using assms less_imp_le [OF pow2_pos] by (intro round_even_mono divide_right_mono)
    ultimately show ?thesis using less_imp_le [OF pow2_pos] by (simp add: mult_right_mono)
  next
    case False
    then have "a + 1 \<le> b" using \<open>a \<le> b\<close> by simp
    then have "pow2 (a + 1) \<le> pow2 b" by (rule pow2_mono)
    with fl64_between [OF ax] fl64_between [OF by'] show ?thesis by linarith
  qed
qed

lemma fl64_mono:
  assumes "0 \<le> x" and "x \<le> y" shows "fl64 x \<le> fl64 y"
  using assms fl64_mono_pos [of x y] fl64_nonneg [of y] by (cases "x = 0") auto

lemma fl64_int:
  assumes "\<bar>k\<bar> \<le> 2 ^ 53" shows "fl64 (of_int k) = of_int k"
proof (cases "k = 0")
  case False
  define e where "e = ilog2 \<bar>of_int k\<bar>"
  have e: "pow2 e \<le> \<bar>of_int k\<bar>" "\<bar>of_int k\<bar> < pow2 (e + 1)"
    using ilog2_bounds [of "\<bar>of_int k\<bar>"] False by (auto simp: e_def)
  have "\<exists>m. of_int k / pow2 (e - 52) = of_int m"
  proof (cases "e \<le> 52")
    case True
    then have "of_int k / pow2 (e - 52) = of_int (k * 2 ^ nat (52 - e))"
      using pow2_integer [of "52 - e"] pow2_diff [of 0 "e - 52"] by (simp add: pow2_def field_simps)
    then show ?thesis by blast
  next
    case False
    have le: "\<bar>of_int k\<bar> \<le> (2 ^ 53 :: rat)"
      using assms by (metis of_int_abs of_int_le_numeral_power_cancel_iff)
    have "pow2 e \<le> pow2 53" using e le pow2_nat [of 53] by simp
    then have e53: "e = 53" using False pow2_less_iff [of 53 e] by linarith
    then have "(2 ^ 53 :: rat) \<le> \<bar>of_int k\<bar>" using e pow2_nat [of 53] by simp
    with le have "\<bar>of_int k\<bar> = (2 ^ 53 :: rat)" by linarith
    then have "\<bar>k\<bar> = 2 ^ 53"
      by (metis of_int_abs of_int_eq_numeral_power_cancel_iff)
    then have "k = 2 * 2 ^ 52 \<or> k = 2 * (- (2 ^ 52))" by auto
    then obtain m where "k = 2 * m" by blast
    moreover have "pow2 (e - 52) = 2" by (simp add: e53 pow2_def)
    ultimately show ?thesis by (intro exI [of _ m]) simp
  qed
  then obtain m where m: "of_int k / pow2 (e - 52) = of_int m" by blast
  have "fl64 (of_int k) = of_int m * pow2 (e - 52)" using fl64_eq [OF e] m by simp
  then show ?thesis using m by (metis nonzero_divide_eq_eq pow2_nonzero)
qed simp

subsection \<open>Nearest-rank thresholds\<close>

text \<open>
  The percentile code computes the rank \<^verbatim>\<open>int64(math.Ceil(p * float64(total)))\<close> with
  \<^verbatim>\<open>p\<close> one of the constants 0.50, 0.95 and 0.99, rounded to \<^verbatim>\<open>float64\<close>. The last
  two are not representable, and the product is rounded once more; the lemma says that the
  rank is the exact one all the same, for every total up to \<open>2\<^sup>4\<^sup>5\<close>.
\<close>

definition ceil_rank :: "float64 \<Rightarrow> int \<Rightarrow> int" where
  "ceil_rank p n = \<lceil>fl64 (p * fl64 (of_int n))\<rceil>"

lemma fl64_rel:
  assumes "0 \<le> x"
  shows "x * (1 - pow2 (- 53)) \<le> fl64 x \<and> fl64 x \<le> x * (1 + pow2 (- 53))"
  using fl64_err [of x] assms by (simp add: algebra_simps abs_le_iff)

lemma floor_rat_numeral [simp]:
  "\<lfloor>numeral a / numeral b :: rat\<rfloor> = numeral a div numeral b"
  using floor_divide_of_int_eq [of "numeral a" "numeral b", where ?'a = rat] by simp

lemma fl64_95: "fl64 (95 / 100) = 8556839292003942 / 2 ^ 53"
proof -
  have "fl64 (95 / 100) = of_int (round_even (95 / 100 / pow2 (- 53))) * pow2 (- 53)"
    using fl64_eq [of "- 1" "95 / 100"] by (simp add: pow2_def)
  then show ?thesis by (simp add: pow2_def round_even_def Let_def power_int_minus)
qed

lemma fl64_99: "fl64 (99 / 100) = 8917127262193582 / 2 ^ 53"
proof -
  have "fl64 (99 / 100) = of_int (round_even (99 / 100 / pow2 (- 53))) * pow2 (- 53)"
    using fl64_eq [of "- 1" "99 / 100"] by (simp add: pow2_def)
  then show ?thesis by (simp add: pow2_def round_even_def Let_def power_int_minus)
qed

lemma fl64_50: "fl64 (50 / 100) = 1 / 2"
proof -
  have "fl64 (50 / 100) = of_int (round_even (50 / 100 / pow2 (- 53))) * pow2 (- 53)"
    using fl64_eq [of "- 1" "50 / 100"] by (simp add: pow2_def)
  then show ?thesis by (simp add: pow2_def round_even_def Let_def power_int_minus)
qed

lemma ceil_rank_exact:
  fixes n c :: int
  assumes n: "0 < n" "n \<le> 2 ^ 45" and c: "0 < c" "c \<le> 100"
    and below: "fl64 (of_int c / 100) \<le> of_int c / 100"
  shows "ceil_rank (fl64 (of_int c / 100)) n = (c * n + 99) div 100"
proof -
  define p where "p = fl64 (of_int c / 100)"
  define k where "k = (c * n + 99) div 100"
  define q where "q = (of_int c / 100 :: rat)"
  define d where "d = pow2 (- 53)"
  have q: "0 < q" "q \<le> 1" using c by (simp_all add: q_def)
  have nn: "(0::rat) < of_int n" "of_int n \<le> (2 ^ 45 :: rat)"
    using n by (simp_all flip: of_int_le_iff)
  have d: "0 < d" "d * 2 ^ 53 = 1" by (simp_all add: d_def pow2_def power_int_minus)
  have fn: "fl64 (of_int n) = of_int n" using n by (intro fl64_int) simp
  have p0: "0 \<le> p" "p \<le> q" using below q fl64_nonneg [of q] by (simp_all add: p_def q_def)
  have p_lo: "q * (1 - d) \<le> p" using fl64_rel [of q] q by (simp add: p_def q_def d_def)
  have k1: "c * n \<le> 100 * k" "100 * k \<le> c * n + 99" "0 < k"
  proof -
    have "0 < c * n" using n c by simp
    then show "c * n \<le> 100 * k" "100 * k \<le> c * n + 99" "0 < k"
      unfolding k_def by (auto simp: pos_imp_zdiv_pos_iff)
  qed
  have kq: "q * of_int n \<le> of_int k"
  proof -
    have "of_int (c * n) \<le> (of_int (100 * k) :: rat)" using k1 by (simp only: of_int_le_iff)
    then show ?thesis by (simp add: q_def)
  qed
  have qk: "of_int k - 1 + 1 / 100 \<le> q * of_int n"
  proof -
    have "of_int (100 * k) \<le> (of_int (c * n + 99) :: rat)" using k1 by (simp only: of_int_le_iff)
    then show ?thesis by (simp add: q_def field_simps)
  qed
  have "k \<le> n"
    using k1(2) c n mult_right_mono [of c 100 n] by linarith
  then have kb: "\<bar>k\<bar> \<le> 2 ^ 53" using k1(3) n by simp
  have pn0: "0 \<le> p * of_int n" using p0 nn by simp
  have up: "fl64 (p * of_int n) \<le> of_int k"
  proof -
    have "p * of_int n \<le> q * of_int n" using p0 nn by (simp add: mult_right_mono)
    then have "fl64 (p * of_int n) \<le> fl64 (of_int k)" using kq pn0 by (intro fl64_mono) auto
    then show ?thesis by (simp only: fl64_int [OF kb])
  qed
  have lo: "of_int k - 1 < fl64 (p * of_int n)"
  proof -
    define t where "t = q * of_int n"
    have t: "0 \<le> t" "t \<le> 2 ^ 45"
      using q nn mult_mono [of q 1 "of_int n" "2 ^ 45"] by (simp_all add: t_def)
    have "t * (1 - d) \<le> p * of_int n"
      using mult_right_mono [OF p_lo, of "of_int n"] nn by (simp add: t_def algebra_simps)
    moreover have "p * of_int n * (1 - d) \<le> fl64 (p * of_int n)"
      using fl64_rel [OF pn0] by (simp add: d_def)
    moreover have "0 \<le> 1 - d" by (simp add: d_def pow2_def power_int_minus)
    ultimately have "t * (1 - d) * (1 - d) \<le> fl64 (p * of_int n)"
      by (meson mult_right_mono order_trans)
    moreover have "t - 2 * (t * d) \<le> t * (1 - d) * (1 - d)"
      using t d by (simp add: algebra_simps)
    moreover have "2 * (t * d) < 1 / 100"
    proof -
      define w where "w = t * d"
      have "w * 2 ^ 53 = t" unfolding w_def by (simp only: mult.assoc d(2) mult_1_right)
      then have "2 * w < 1 / 100" using t(2) by simp
      then show ?thesis by (simp only: w_def)
    qed
    ultimately show ?thesis using qk by (simp add: t_def)
  qed
  have "\<lceil>fl64 (p * of_int n)\<rceil> = k" using up lo by (intro ceiling_unique) auto
  then show ?thesis by (simp add: ceil_rank_def fn p_def k_def)
qed

lemma ceil_rank_50:
  assumes "0 < n" "n \<le> 2 ^ 45" shows "ceil_rank (fl64 (50 / 100)) n = (50 * n + 99) div 100"
proof (rule ceil_rank_exact [OF assms, of 50, simplified of_int_numeral])
  show "fl64 (50 / 100) \<le> (50 / 100 :: rat)" by (simp only: fl64_50)
qed simp_all

lemma ceil_rank_95:
  assumes "0 < n" "n \<le> 2 ^ 45" shows "ceil_rank (fl64 (95 / 100)) n = (95 * n + 99) div 100"
proof (rule ceil_rank_exact [OF assms, of 95, simplified of_int_numeral])
  show "fl64 (95 / 100) \<le> (95 / 100 :: rat)" by (simp only: fl64_95) simp
qed simp_all

lemma ceil_rank_99:
  assumes "0 < n" "n \<le> 2 ^ 45" shows "ceil_rank (fl64 (99 / 100)) n = (99 * n + 99) div 100"
proof (rule ceil_rank_exact [OF assms, of 99, simplified of_int_numeral])
  show "fl64 (99 / 100) \<le> (99 / 100 :: rat)" by (simp only: fl64_99) simp
qed simp_all

end
