(* ===== verification/Models.thy ===== *)
theory Models
  imports DLT_Prelude Go_Float
begin

section \<open>The backend's data types\<close>

text \<open>
  \<^verbatim>\<open>backend/internal/models/test_run.go\<close>. Structs are records whose fields carry a
  prefix (\<open>tr_\<close> for \<^verbatim>\<open>TestRun\<close>, \<open>cr_\<close> for the create request, \<open>sa_\<close> for the shard
  assignment, \<open>cs_\<close> and \<open>cq_\<close> for the two completion requests); nullable pointer fields
  are options. The status strings are a datatype with its text, ordered along the
  lifecycle. Times are microseconds since an epoch.
\<close>

type_synonym time = int

subsection \<open>Status values\<close>

datatype run_status = Queued | Running | Cancelling | Completed | Failed | Cancelled

fun status_text :: "run_status \<Rightarrow> string" where
  "status_text Queued = ''queued''"
| "status_text Running = ''running''"
| "status_text Completed = ''completed''"
| "status_text Failed = ''failed''"
| "status_text Cancelling = ''cancelling''"
| "status_text Cancelled = ''cancelled''"

text \<open>Reading a status column's text back: the CHECK constraint admits these six values.\<close>

definition parse_status :: "string \<Rightarrow> run_status option" where
  "parse_status s =
     (if s = ''queued'' then Some Queued
      else if s = ''running'' then Some Running
      else if s = ''completed'' then Some Completed
      else if s = ''failed'' then Some Failed
      else if s = ''cancelling'' then Some Cancelling
      else if s = ''cancelled'' then Some Cancelled
      else None)"

lemma parse_status_text [simp]: "parse_status (status_text s) = Some s"
  by (cases s) (simp_all add: parse_status_def)

lemma parse_status_Some: "parse_status t = Some s \<Longrightarrow> t = status_text s"
  by (auto simp: parse_status_def split: if_splits)

text \<open>The lifecycle order: every transition of the code goes up in it.\<close>

fun status_rank :: "run_status \<Rightarrow> nat" where
  "status_rank Queued = 0"
| "status_rank Running = 1"
| "status_rank Cancelling = 2"
| "status_rank Completed = 3"
| "status_rank Failed = 4"
| "status_rank Cancelled = 5"

lemma status_rank_inj: "status_rank a = status_rank b \<longleftrightarrow> a = b"
  by (cases a; cases b) simp_all

instantiation run_status :: linorder
begin

definition less_eq_run_status :: "run_status \<Rightarrow> run_status \<Rightarrow> bool" where
  "less_eq_run_status a b \<longleftrightarrow> status_rank a \<le> status_rank b"

definition less_run_status :: "run_status \<Rightarrow> run_status \<Rightarrow> bool" where
  "less_run_status a b \<longleftrightarrow> status_rank a < status_rank b"

instance
  by standard (auto simp: less_eq_run_status_def less_run_status_def status_rank_inj)

end

definition terminal :: "run_status \<Rightarrow> bool" where
  "terminal s \<longleftrightarrow> s \<in> {Completed, Failed, Cancelled}"

definition outstanding_status :: "run_status \<Rightarrow> bool" where
  "outstanding_status s \<longleftrightarrow> s \<in> {Queued, Running}"

lemma terminal_simps [simp]:
  "\<not> terminal Queued" "\<not> terminal Running" "\<not> terminal Cancelling"
  "terminal Completed" "terminal Failed" "terminal Cancelled"
  by (simp_all add: terminal_def)

lemma outstanding_simps [simp]:
  "outstanding_status Queued" "outstanding_status Running" "\<not> outstanding_status Cancelling"
  "\<not> outstanding_status Completed" "\<not> outstanding_status Failed" "\<not> outstanding_status Cancelled"
  by (simp_all add: outstanding_status_def)

lemma outstanding_not_terminal: "outstanding_status s \<Longrightarrow> \<not> terminal s"
  by (cases s) simp_all

lemma status_le_terminal: "\<not> terminal a \<Longrightarrow> terminal b \<Longrightarrow> a \<le> b"
  by (cases a; cases b) (simp_all add: less_eq_run_status_def)

lemma status_le_simps [simp]:
  "Queued \<le> s" "Running \<le> Running" "Running \<le> Cancelling" "s \<le> Cancelled"
  "\<not> Running \<le> Queued" "\<not> Cancelling \<le> Queued" "\<not> Cancelling \<le> Running"
  by (cases s; simp add: less_eq_run_status_def)+

subsection \<open>Structs\<close>

record test_run =
  tr_ID :: int
  tr_Name :: string
  tr_TargetURL :: string
  tr_Method :: string
  tr_VirtualUsers :: int
  tr_DurationSeconds :: int
  tr_ShardCount :: int
  tr_Status :: run_status
  tr_TotalRequests :: "int option"
  tr_SuccessfulRequests :: "int option"
  tr_FailedRequests :: "int option"
  tr_AvgLatencyMs :: "float64 option"
  tr_MinLatencyMs :: "float64 option"
  tr_MaxLatencyMs :: "float64 option"
  tr_P50LatencyMs :: "float64 option"
  tr_P95LatencyMs :: "float64 option"
  tr_P99LatencyMs :: "float64 option"
  tr_ErrorMessage :: "string option"
  tr_CreatedAt :: time
  tr_StartedAt :: "time option"
  tr_CompletedAt :: "time option"

text \<open>A decoded \<^verbatim>\<open>map[string]string\<close> is an association list without repeated keys.\<close>

type_synonym headers = "(string \<times> string) list"

record create_request =
  cr_Name :: string
  cr_TargetURL :: string
  cr_Method :: string
  cr_VirtualUsers :: int
  cr_DurationSeconds :: int
  cr_Shards :: int
  cr_Headers :: headers
  cr_Body :: string
  cr_ThinkTimeMs :: int

record shard_assignment =
  sa_ShardID :: int
  sa_RunID :: int
  sa_ShardIndex :: int
  sa_TargetURL :: string
  sa_Method :: string
  sa_VirtualUsers :: int
  sa_DurationSeconds :: int
  sa_Headers :: headers
  sa_Body :: string
  sa_ThinkTimeMs :: int

record complete_shard_request =
  cs_Status :: string
  cs_TotalRequests :: "int option"
  cs_SuccessfulRequests :: "int option"
  cs_FailedRequests :: "int option"
  cs_LatencyCount :: "int option"
  cs_AvgLatencyMs :: "float64 option"
  cs_MinLatencyMs :: "float64 option"
  cs_MaxLatencyMs :: "float64 option"
  cs_LatencyBuckets :: "int list"
  cs_ErrorMessage :: "string option"

record complete_run_request =
  cq_Status :: string
  cq_TotalRequests :: "int option"
  cq_SuccessfulRequests :: "int option"
  cq_FailedRequests :: "int option"
  cq_AvgLatencyMs :: "float64 option"
  cq_MinLatencyMs :: "float64 option"
  cq_MaxLatencyMs :: "float64 option"
  cq_ErrorMessage :: "string option"

end
