(* ===== verification/Sql_Table.thy ===== *)
theory Sql_Table
  imports Models
begin

section \<open>Tables and guarded updates\<close>

text \<open>
  The store's statements, in the little SQL they use. A table is a list of rows in storage
  order; \<^verbatim>\<open>UPDATE t SET .. WHERE .. RETURNING ..\<close> is \<open>upd_where\<close> for the table and
  \<open>returning\<close> for the rows the driver hands back; aggregates ignore NULL as SQL does.

  Every state change of the program is a guarded \<^verbatim>\<open>UPDATE\<close> of the row with a given id. The
  locale \<open>guarded_update\<close> is the contract those statements share (the id is kept, a
  terminal row is never matched, the status never goes back) and proves once what follows
  for the table: it makes progress row by row.
\<close>

subsection \<open>Statements\<close>

definition upd_where :: "('r \<Rightarrow> bool) \<Rightarrow> ('r \<Rightarrow> 'r) \<Rightarrow> 'r list \<Rightarrow> 'r list" where
  "upd_where P f t = map (\<lambda>r. if P r then f r else r) t"

definition returning :: "('r \<Rightarrow> bool) \<Rightarrow> ('r \<Rightarrow> 'r) \<Rightarrow> 'r list \<Rightarrow> 'r list" where
  "returning P f t = map f (filter P t)"

text \<open>\<^verbatim>\<open>QueryRow(..).Scan\<close>: the first row, or \<^verbatim>\<open>sql.ErrNoRows\<close>.\<close>

definition query_row :: "'r list \<Rightarrow> 'r option" where
  "query_row rs = (case rs of [] \<Rightarrow> None | r # _ \<Rightarrow> Some r)"

text \<open>\<^verbatim>\<open>UPDATE t SET .. WHERE id = k AND .. RETURNING ..\<close>: the row read back and the new table.\<close>

definition update_by_id ::
  "('r \<Rightarrow> int) \<Rightarrow> int \<Rightarrow> ('r \<Rightarrow> bool) \<Rightarrow> ('r \<Rightarrow> 'r) \<Rightarrow> 'r list \<Rightarrow> 'r option \<times> 'r list" where
  "update_by_id key k guard eff t =
     (query_row (returning (\<lambda>r. key r = k \<and> guard r) eff t),
      upd_where (\<lambda>r. key r = k \<and> guard r) eff t)"

definition not_null :: "'a option list \<Rightarrow> 'a list" where
  "not_null xs = map the (filter (\<lambda>x. x \<noteq> None) xs)"

text \<open>\<^verbatim>\<open>COALESCE(SUM(c), 0)\<close> over a BIGINT column: PostgreSQL sums it as an exact NUMERIC.\<close>

definition sql_sum :: "int option list \<Rightarrow> int" where
  "sql_sum xs = sum_list (not_null xs)"

text \<open>\<^verbatim>\<open>MIN\<close> and \<^verbatim>\<open>MAX\<close> over a DOUBLE PRECISION column: NULL on no value.\<close>

definition sql_min :: "float64 option list \<Rightarrow> float64 option" where
  "sql_min xs = (case not_null xs of [] \<Rightarrow> None | y # ys \<Rightarrow> Some (foldl min y ys))"

definition sql_max :: "float64 option list \<Rightarrow> float64 option" where
  "sql_max xs = (case not_null xs of [] \<Rightarrow> None | y # ys \<Rightarrow> Some (foldl max y ys))"

lemma query_row_returning:
  "query_row (returning P f t) = map_option f (List.find P t)"
  by (induction t) (auto simp: query_row_def returning_def)

lemma length_upd_where [simp]: "length (upd_where P f t) = length t"
  by (simp add: upd_where_def)

lemma set_upd_where: "set (upd_where P f t) = {if P r then f r else r |r. r \<in> set t}"
  by (auto simp: upd_where_def)

lemma upd_where_append [simp]: "upd_where P f (s @ t) = upd_where P f s @ upd_where P f t"
  by (simp add: upd_where_def)

lemma upd_where_none: "\<forall>r \<in> set t. \<not> P r \<Longrightarrow> upd_where P f t = t"
  by (simp add: upd_where_def map_idI)

lemma find_None_upd: "List.find P t = None \<Longrightarrow> upd_where P f t = t"
  by (intro upd_where_none) (simp add: find_None_iff)

lemma not_null_simps [simp]:
  "not_null [] = []" "not_null (None # xs) = not_null xs" "not_null (Some x # xs) = x # not_null xs"
  by (simp_all add: not_null_def)

lemma not_null_map_Some [simp]: "not_null (map (\<lambda>x. Some (f x)) xs) = map f xs"
  by (induction xs) auto

lemma not_null_append [simp]: "not_null (xs @ ys) = not_null xs @ not_null ys"
  by (simp add: not_null_def)

lemma foldl_min_Min: "foldl min (y :: 'a :: linorder) ys = Min (set (y # ys))"
proof (induction ys arbitrary: y)
  case (Cons x xs)
  have "Min (set (min y x # xs)) = Min (set (y # x # xs))"
    by (cases "xs = []") (simp_all add: min.assoc)
  then show ?case using Cons by simp
qed simp

lemma foldl_max_Max: "foldl max (y :: 'a :: linorder) ys = Max (set (y # ys))"
proof (induction ys arbitrary: y)
  case (Cons x xs)
  have "Max (set (max y x # xs)) = Max (set (y # x # xs))"
    by (cases "xs = []") (simp_all add: max.assoc)
  then show ?case using Cons by simp
qed simp

subsection \<open>Progress\<close>

text \<open>
  What may happen to a row between two looks at the table: it keeps its id, its status
  does not go back, and once it is terminal it does not change at all.
\<close>

definition row_progress :: "('r \<Rightarrow> int) \<Rightarrow> ('r \<Rightarrow> run_status) \<Rightarrow> 'r \<Rightarrow> 'r \<Rightarrow> bool" where
  "row_progress key st r r' \<longleftrightarrow>
     key r' = key r \<and> st r \<le> st r' \<and> (terminal (st r) \<longrightarrow> r' = r)"

text \<open>The rows of a table stay where they are; inserts append.\<close>

definition table_progress :: "('r \<Rightarrow> int) \<Rightarrow> ('r \<Rightarrow> run_status) \<Rightarrow> 'r list \<Rightarrow> 'r list \<Rightarrow> bool" where
  "table_progress key st t t' \<longleftrightarrow> (\<exists>u v. t' = u @ v \<and> list_all2 (row_progress key st) t u)"

lemma row_progress_refl [simp]: "row_progress key st r r"
  by (simp add: row_progress_def)

lemma row_progress_trans:
  "row_progress key st a b \<Longrightarrow> row_progress key st b c \<Longrightarrow> row_progress key st a c"
  by (auto simp: row_progress_def intro: order_trans)

lemma table_progress_refl [simp]: "table_progress key st t t"
  unfolding table_progress_def
  by (rule exI [of _ t], rule exI [of _ "[]"]) (simp add: list_all2_refl)

lemma table_progress_append: "table_progress key st t (t @ v)"
  unfolding table_progress_def
  by (rule exI [of _ t], rule exI [of _ v]) (simp add: list_all2_refl)

lemma table_progress_trans:
  assumes "table_progress key st a b" and "table_progress key st b c"
  shows "table_progress key st a c"
proof -
  obtain u v where b: "b = u @ v" and u: "list_all2 (row_progress key st) a u"
    using assms(1) by (auto simp: table_progress_def)
  obtain w x where c: "c = w @ x" and w: "list_all2 (row_progress key st) (u @ v) w"
    using assms(2) by (auto simp: table_progress_def b)
  obtain w1 w2 where "w = w1 @ w2" and w1: "list_all2 (row_progress key st) u w1"
    using w by (auto simp: list_all2_append1)
  have "list_all2 (row_progress key st) a w1"
    by (rule list_all2_trans [of "row_progress key st" "row_progress key st", OF _ u w1])
      (rule row_progress_trans)
  with c \<open>w = w1 @ w2\<close> show ?thesis unfolding table_progress_def
    by (intro exI [of _ w1] exI [of _ "w2 @ x"]) simp
qed

lemma table_progress_row:
  assumes "table_progress key st t t'" and "r \<in> set t"
  shows "\<exists>r' \<in> set t'. row_progress key st r r'"
proof -
  obtain u v where t': "t' = u @ v" and u: "list_all2 (row_progress key st) t u"
    using assms(1) by (auto simp: table_progress_def)
  obtain i where i: "i < length t" "r = t ! i" using assms(2) by (auto simp: in_set_conv_nth)
  then have "row_progress key st r (u ! i)" "i < length u"
    using u by (auto simp: list_all2_conv_all_nth)
  then show ?thesis using t' by (intro bexI [of _ "u ! i"]) auto
qed

locale guarded_update =
  fixes key :: "'r \<Rightarrow> int" and st :: "'r \<Rightarrow> run_status"
    and guard :: "'r \<Rightarrow> bool" and eff :: "'r \<Rightarrow> 'r"
  assumes keeps_key: "key (eff r) = key r"
    and not_terminal: "guard r \<Longrightarrow> \<not> terminal (st r)"
    and forward: "guard r \<Longrightarrow> st r \<le> st (eff r)"
begin

lemma row: "row_progress key st r (if key r = k \<and> guard r then eff r else r)"
  using keeps_key not_terminal forward by (auto simp: row_progress_def)

lemma table_step: "table_progress key st t (upd_where (\<lambda>r. key r = k \<and> guard r) eff t)"
proof -
  have "list_all2 (row_progress key st) t (upd_where (\<lambda>r. key r = k \<and> guard r) eff t)"
    unfolding upd_where_def list_all2_map2 by (rule list_all2_refl) (rule row)
  then show ?thesis unfolding table_progress_def by (metis append_Nil2)
qed

lemma keys: "map key (upd_where (\<lambda>r. key r = k \<and> guard r) eff t) = map key t"
  by (simp add: upd_where_def comp_def if_distrib keeps_key cong: if_cong)

end

end
