(* ===== verification/Histogram.thy ===== *)
theory Histogram
  imports Go_Float "HOL-Library.Multiset"
begin

section \<open>Latency histograms\<close>

text \<open>
  The worker's \<^verbatim>\<open>runner/histogram.go\<close> and the backend's \<^verbatim>\<open>store/histogram.go\<close>: the
  bucket boundaries and the nearest-rank percentile (written twice in the code, once per
  module, and so twice here, the backend's with the prefix \<open>store_\<close>), \<^verbatim>\<open>bucketIndex\<close> and
  \<^verbatim>\<open>mergeBuckets\<close>. The loops are recursions over the list they range over.

  The locale \<open>nearest_rank\<close> states what both percentiles promise: the boundary of the
  bucket holding the sample of the requested rank. It is interpreted on both; its lemmas
  are what the rest of the development uses about either.
\<close>

subsection \<open>The runner's side\<close>

definition latencyBoundariesMs :: "float64 list" where
  "latencyBoundariesMs = [1, 2, 5, 10, 25, 50, 100, 250, 500, 1000, 2500, 5000]"

definition numLatencyBuckets :: nat where
  "numLatencyBuckets = length latencyBoundariesMs + 1"

fun bucket_loop :: "nat \<Rightarrow> float64 list \<Rightarrow> float64 \<Rightarrow> nat" where
  "bucket_loop i [] x = numLatencyBuckets - 1"
| "bucket_loop i (bound # bounds) x = (if x \<le> bound then i else bucket_loop (i + 1) bounds x)"

definition bucketIndex :: "float64 \<Rightarrow> nat" where
  "bucketIndex latencyMs = bucket_loop 0 latencyBoundariesMs latencyMs"

fun percentile_loop :: "int \<Rightarrow> int \<Rightarrow> nat \<Rightarrow> int list \<Rightarrow> float64" where
  "percentile_loop threshold cumulative i [] = latencyBoundariesMs ! (length latencyBoundariesMs - 1)"
| "percentile_loop threshold cumulative i (cnt # buckets) =
     (let cumulative' = add64 cumulative cnt
      in if threshold \<le> cumulative'
         then (if i < length latencyBoundariesMs then latencyBoundariesMs ! i
               else latencyBoundariesMs ! (length latencyBoundariesMs - 1))
         else percentile_loop threshold cumulative' (i + 1) buckets)"

definition percentile :: "int list \<Rightarrow> float64 \<Rightarrow> float64" where
  "percentile buckets p =
     (let n = foldl add64 0 buckets
      in if n = 0 then 0 else percentile_loop (ceil_rank p n) 0 0 buckets)"

subsection \<open>The backend's side\<close>

definition store_latencyBoundariesMs :: "float64 list" where
  "store_latencyBoundariesMs = [1, 2, 5, 10, 25, 50, 100, 250, 500, 1000, 2500, 5000]"

text \<open>\<open>merge_one\<close> is the inner loop, over the indices below both lengths.\<close>

fun merge_one :: "int list \<Rightarrow> int list \<Rightarrow> int list" where
  "merge_one [] b = []"
| "merge_one m [] = m"
| "merge_one (x # m) (y # b) = add64 x y # merge_one m b"

definition mergeBuckets :: "int list list \<Rightarrow> int list" where
  "mergeBuckets shards =
     foldl merge_one (replicate (length store_latencyBoundariesMs + 1) 0) shards"

fun store_percentile_loop :: "int \<Rightarrow> int \<Rightarrow> nat \<Rightarrow> int list \<Rightarrow> float64" where
  "store_percentile_loop threshold cumulative i [] =
     store_latencyBoundariesMs ! (length store_latencyBoundariesMs - 1)"
| "store_percentile_loop threshold cumulative i (cnt # buckets) =
     (let cumulative' = add64 cumulative cnt
      in if threshold \<le> cumulative'
         then (if i < length store_latencyBoundariesMs then store_latencyBoundariesMs ! i
               else store_latencyBoundariesMs ! (length store_latencyBoundariesMs - 1))
         else store_percentile_loop threshold cumulative' (i + 1) buckets)"

definition store_percentile :: "int list \<Rightarrow> float64 \<Rightarrow> float64" where
  "store_percentile buckets p =
     (let n = foldl add64 0 buckets
      in if n = 0 then 0 else store_percentile_loop (ceil_rank p n) 0 0 buckets)"

subsection \<open>Histograms of sample lists\<close>

text \<open>
  \<open>hist xs\<close> counts the samples of \<open>xs\<close> per bucket: what the code's counters stand for.
  \<open>counts_ok\<close> says of bucket counts what recording samples guarantees.
\<close>

definition hist :: "float64 list \<Rightarrow> int list" where
  "hist xs =
     map (\<lambda>i. int (length (filter (\<lambda>x. bucketIndex x = i) xs))) [0..<numLatencyBuckets]"

definition counts_ok :: "int list \<Rightarrow> bool" where
  "counts_ok bs \<longleftrightarrow> (\<forall>b \<in> set bs. 0 \<le> b) \<and> sum_list bs < 2 ^ 63"

text \<open>The bucket that holds the sample of rank \<open>k\<close>: the least with enough samples up to it.\<close>

fun rank_bucket :: "int \<Rightarrow> int list \<Rightarrow> nat" where
  "rank_bucket k [] = 0"
| "rank_bucket k (b # bs) = (if k \<le> b then 0 else Suc (rank_bucket (k - b) bs))"

lemma numLatencyBuckets_13 [simp]: "numLatencyBuckets = 13"
  by (simp add: numLatencyBuckets_def latencyBoundariesMs_def)

lemma length_boundaries [simp]:
  "length latencyBoundariesMs = 12" "length store_latencyBoundariesMs = 12"
  by (simp_all add: latencyBoundariesMs_def store_latencyBoundariesMs_def)

lemma boundaries_agree: "store_latencyBoundariesMs = latencyBoundariesMs"
  by (simp add: latencyBoundariesMs_def store_latencyBoundariesMs_def)

lemma counts_ok_sum:
  assumes "counts_ok bs"
  shows "int64_ok (sum_list bs)" and "foldl add64 0 bs = sum_list bs" and "0 \<le> sum_list bs"
proof -
  have "0 \<le> sum_list bs" using assms by (auto simp: counts_ok_def intro: sum_list_nonneg)
  then show "int64_ok (sum_list bs)" "0 \<le> sum_list bs"
    using assms by (simp_all add: counts_ok_def int64_ok_def)
  then show "foldl add64 0 bs = sum_list bs" by (simp add: foldl_add64_0)
qed

lemma rank_bucket_less:
  assumes "\<forall>b \<in> set bs. 0 \<le> b" and "k \<le> sum_list bs" and "0 < k"
  shows "rank_bucket k bs < length bs"
  using assms by (induction bs arbitrary: k) auto

subsection \<open>What a percentile promises\<close>

locale nearest_rank =
  fixes bounds :: "float64 list"
    and pct :: "int list \<Rightarrow> float64 \<Rightarrow> float64"
  assumes bounds_sorted: "sorted bounds"
    and bounds_nonempty: "bounds \<noteq> []"
    and pct_no_samples: "counts_ok bs \<Longrightarrow> sum_list bs = 0 \<Longrightarrow> pct bs p = 0"
    and pct_at_rank: "counts_ok bs \<Longrightarrow> 0 < sum_list bs \<Longrightarrow>
      1 \<le> ceil_rank p (sum_list bs) \<Longrightarrow> ceil_rank p (sum_list bs) \<le> sum_list bs \<Longrightarrow>
      pct bs p = bounds ! min (rank_bucket (ceil_rank p (sum_list bs)) bs) (length bounds - 1)"
begin

lemma min_last_less: "min k (length bounds - 1) < length bounds"
  using bounds_nonempty by (cases bounds) auto

lemma pct_is_bound:
  assumes "counts_ok bs" "0 < sum_list bs"
    "1 \<le> ceil_rank p (sum_list bs)" "ceil_rank p (sum_list bs) \<le> sum_list bs"
  shows "pct bs p \<in> set bounds"
  by (simp only: pct_at_rank [OF assms] nth_mem min_last_less)

lemma rank_bucket_mono:
  assumes "\<forall>b \<in> set bs. 0 \<le> b" "j \<le> k"
  shows "rank_bucket j bs \<le> rank_bucket k bs"
  using assms by (induction bs arbitrary: j k) auto

lemma pct_mono:
  assumes "counts_ok bs" "0 < sum_list bs"
    and "1 \<le> ceil_rank p (sum_list bs)" "ceil_rank p (sum_list bs) \<le> ceil_rank q (sum_list bs)"
    and "ceil_rank q (sum_list bs) \<le> sum_list bs"
  shows "pct bs p \<le> pct bs q"
proof -
  let ?p = "ceil_rank p (sum_list bs)" and ?q = "ceil_rank q (sum_list bs)"
  have "rank_bucket ?p bs \<le> rank_bucket ?q bs"
    using assms by (intro rank_bucket_mono) (auto simp: counts_ok_def)
  moreover have "?p \<le> sum_list bs" "1 \<le> ?q" using assms by linarith+
  ultimately show ?thesis
    using assms min_last_less
    by (auto simp: pct_at_rank simp del: One_nat_def intro!: sorted_nth_mono [OF bounds_sorted])
qed

end

text \<open>Both loops, at any point: the cumulative count so far is below the threshold.\<close>

lemma percentile_loop_rank:
  assumes "\<forall>b \<in> set bs. 0 \<le> b" and "0 \<le> c" and "c + sum_list bs < 2 ^ 63"
    and "t \<le> c + sum_list bs" and "c < t"
  shows "percentile_loop t c i bs = latencyBoundariesMs ! min (i + rank_bucket (t - c) bs) 11"
  using assms
proof (induction bs arbitrary: c i)
  case (Cons b bs)
  have "0 \<le> sum_list bs" using Cons.prems by (auto intro: sum_list_nonneg)
  then have "int64_ok (c + b)" using Cons.prems by (simp add: int64_ok_def)
  then have add: "add64 c b = c + b" by (rule add64_exact)
  show ?case
  proof (cases "t \<le> c + b")
    case True
    then show ?thesis by (simp add: add min_def)
  next
    case False
    then have "percentile_loop t c i (b # bs) = percentile_loop t (c + b) (i + 1) bs"
      by (simp add: add)
    also have "\<dots> = latencyBoundariesMs ! min (i + 1 + rank_bucket (t - (c + b)) bs) 11"
      using Cons.prems False by (intro Cons.IH) auto
    finally show ?thesis using False by (simp add: algebra_simps)
  qed
qed simp

lemma store_percentile_loop_eq: "store_percentile_loop t c i bs = percentile_loop t c i bs"
  by (induction bs arbitrary: c i) (simp_all add: boundaries_agree Let_def)

interpretation runner_pct: nearest_rank latencyBoundariesMs percentile
proof unfold_locales
  show "sorted latencyBoundariesMs" "latencyBoundariesMs \<noteq> []"
    by (simp_all add: latencyBoundariesMs_def)
  fix bs p
  assume ok: "counts_ok bs"
  note s = counts_ok_sum [OF ok]
  show "sum_list bs = 0 \<Longrightarrow> percentile bs p = 0" by (simp add: percentile_def s)
  assume r: "0 < sum_list bs" "1 \<le> ceil_rank p (sum_list bs)" "ceil_rank p (sum_list bs) \<le> sum_list bs"
  have "percentile_loop (ceil_rank p (sum_list bs)) 0 0 bs =
      latencyBoundariesMs ! min (0 + rank_bucket (ceil_rank p (sum_list bs) - 0) bs) 11"
    using ok r by (intro percentile_loop_rank) (auto simp: counts_ok_def)
  then show "percentile bs p = latencyBoundariesMs !
      min (rank_bucket (ceil_rank p (sum_list bs)) bs) (length latencyBoundariesMs - 1)"
    using r by (simp add: percentile_def s)
qed

lemma percentiles_agree: "store_percentile bs p = percentile bs p"
  by (simp add: store_percentile_def percentile_def store_percentile_loop_eq Let_def)

interpretation store_pct: nearest_rank store_latencyBoundariesMs store_percentile
proof unfold_locales
  show "sorted store_latencyBoundariesMs" "store_latencyBoundariesMs \<noteq> []"
    by (simp_all add: store_latencyBoundariesMs_def)
qed (simp_all only: percentiles_agree boundaries_agree runner_pct.pct_no_samples runner_pct.pct_at_rank)

subsection \<open>bucketIndex\<close>

lemma bucketIndex_eq:
  "bucketIndex x =
     (if x \<le> 1 then 0 else if x \<le> 2 then 1 else if x \<le> 5 then 2 else if x \<le> 10 then 3
      else if x \<le> 25 then 4 else if x \<le> 50 then 5 else if x \<le> 100 then 6 else if x \<le> 250 then 7
      else if x \<le> 500 then 8 else if x \<le> 1000 then 9 else if x \<le> 2500 then 10
      else if x \<le> 5000 then 11 else 12)"
  by (simp add: bucketIndex_def latencyBoundariesMs_def)

lemma bucketIndex_less: "bucketIndex x < 13"
  by (simp add: bucketIndex_eq)

lemma bucketIndex_mono: "x \<le> y \<Longrightarrow> bucketIndex x \<le> bucketIndex y"
  by (simp add: bucketIndex_eq)

lemma bucketIndex_upper: "bucketIndex x < 12 \<Longrightarrow> x \<le> latencyBoundariesMs ! bucketIndex x"
  by (simp add: bucketIndex_eq latencyBoundariesMs_def split: if_splits)

lemma bucketIndex_lower: "i < bucketIndex x \<Longrightarrow> latencyBoundariesMs ! i < x"
proof -
  have "i < k \<Longrightarrow> bucketIndex x = k \<Longrightarrow> k < 13 \<Longrightarrow> latencyBoundariesMs ! i < x" for k
    by (auto simp: bucketIndex_eq latencyBoundariesMs_def less_Suc_eq numeral_eq_Suc nth_Cons'
        split: if_splits)
  then show "i < bucketIndex x \<Longrightarrow> latencyBoundariesMs ! i < x" using bucketIndex_less by blast
qed


subsection \<open>Ranks and sorted samples\<close>

lemma rank_bucket_le_iff:
  assumes "\<forall>b \<in> set bs. 0 \<le> b" and "0 < k" and "k \<le> sum_list bs"
  shows "rank_bucket k bs \<le> i \<longleftrightarrow> k \<le> sum_list (take (Suc i) bs)"
  using assms
proof (induction bs arbitrary: k i)
  case (Cons b bs)
  have nn: "0 \<le> sum_list (take i bs)" using Cons.prems(1) sum_list_take_le [of bs i] by simp
  show ?case
  proof (cases "k \<le> b")
    case False
    with Cons show ?thesis by (cases i) (auto simp: algebra_simps)
  qed (use nn in auto)
qed simp

lemma filter_sorted_nth:
  assumes "sorted ys" and "\<And>x y. x \<le> y \<Longrightarrow> P y \<Longrightarrow> P x" and "k < length ys"
  shows "k < length (filter P ys) \<longleftrightarrow> P (ys ! k)"
  using assms
proof (induction ys arbitrary: k)
  case (Cons y ys)
  show ?case
  proof (cases "P y")
    case True
    with Cons show ?thesis by (cases k) auto
  next
    case False
    then have none: "\<not> P x" if "x \<in> set (y # ys)" for x
      using Cons.prems(1,2) that by (cases "x = y") auto
    then have "filter P (y # ys) = []" by (simp add: filter_empty_conv)
    then show ?thesis using none [OF nth_mem [OF Cons.prems(3)]] by simp
  qed
qed simp

lemma length_hist [simp]: "length (hist xs) = 13"
  by (simp add: hist_def)

lemma hist_nth: "i < 13 \<Longrightarrow> hist xs ! i = int (length (filter (\<lambda>x. bucketIndex x = i) xs))"
  by (simp add: hist_def del: upt_Suc)

lemma hist_nonneg: "b \<in> set (hist xs) \<Longrightarrow> 0 \<le> b"
  by (auto simp: hist_def)

lemma length_filter_le_Suc:
  "length (filter (\<lambda>x. f x \<le> Suc i) xs) =
     length (filter (\<lambda>x. f x \<le> i) xs) + length (filter (\<lambda>x. f x = Suc i) xs)"
  for f :: "'a \<Rightarrow> nat"
  by (induction xs) auto

lemma sum_take_hist:
  assumes "i < 13"
  shows "sum_list (take (Suc i) (hist xs)) = int (length (filter (\<lambda>x. bucketIndex x \<le> i) xs))"
  using assms
proof (induction i)
  case 0
  then show ?case
    using hist_nth [of 0 xs] by (simp add: take_Suc_conv_app_nth [of 0 "hist xs"])
next
  case (Suc i)
  then show ?case
    using hist_nth [of "Suc i" xs]
    by (simp add: take_Suc_conv_app_nth [of "Suc i" "hist xs"] length_filter_le_Suc)
qed

lemma sum_hist: "sum_list (hist xs) = int (length xs)"
proof -
  have "filter (\<lambda>x. bucketIndex x \<le> 12) xs = xs"
    using bucketIndex_less by (intro filter_True) (auto simp: less_Suc_eq_le [symmetric])
  then show ?thesis using sum_take_hist [of 12 xs] by simp
qed

lemma hist_counts_ok: "int (length xs) < 2 ^ 63 \<Longrightarrow> counts_ok (hist xs)"
  using hist_nonneg by (auto simp: counts_ok_def sum_hist)

lemma rank_bucket_hist:
  assumes "0 < k" and "k \<le> int (length xs)"
  shows "rank_bucket k (hist xs) = bucketIndex (sort xs ! (nat k - 1))"
proof -
  let ?b = "bucketIndex (sort xs ! (nat k - 1))"
  have same: "length (filter P (sort xs)) = length (filter P xs)" for P
    by (metis filter_sort length_sort)
  have iff: "rank_bucket k (hist xs) \<le> i \<longleftrightarrow> ?b \<le> i" if "i < 13" for i
  proof -
    have "rank_bucket k (hist xs) \<le> i \<longleftrightarrow> k \<le> int (length (filter (\<lambda>x. bucketIndex x \<le> i) xs))"
      using rank_bucket_le_iff [of "hist xs" k i] hist_nonneg assms sum_hist [of xs]
        sum_take_hist [OF that] by auto
    also have "\<dots> \<longleftrightarrow> nat k - 1 < length (filter (\<lambda>x. bucketIndex x \<le> i) (sort xs))"
      using assms(1) by (simp only: same) linarith
    also have "\<dots> \<longleftrightarrow> ?b \<le> i"
      using assms by (intro filter_sorted_nth) (auto dest: bucketIndex_mono)
    finally show ?thesis .
  qed
  have "rank_bucket k (hist xs) < 13"
    using rank_bucket_less [of "hist xs" k] hist_nonneg assms sum_hist [of xs] by auto
  then show ?thesis using iff bucketIndex_less by (metis le_antisym order_refl)
qed

text \<open>The value both percentiles return on the histogram of a sample list.\<close>

lemma percentile_hist:
  assumes "int (length xs) < 2 ^ 63" and "1 \<le> ceil_rank p (int (length xs))"
    and "ceil_rank p (int (length xs)) \<le> int (length xs)"
  shows "percentile (hist xs) p =
    latencyBoundariesMs !
      min (bucketIndex (sort xs ! (nat (ceil_rank p (int (length xs))) - 1))) 11"
proof -
  have "xs \<noteq> []" using assms(2,3) by auto
  then show ?thesis
    using runner_pct.pct_at_rank [OF hist_counts_ok [OF assms(1)], of p] assms(2,3)
      rank_bucket_hist [of "ceil_rank p (int (length xs))" xs]
    by (simp add: sum_hist)
qed

subsection \<open>Merging\<close>

lemma length_merge_one [simp]: "length (merge_one m b) = length m"
  by (induction m b rule: merge_one.induct) auto

lemma merge_one_nth:
  "i < length m \<Longrightarrow> merge_one m b ! i = (if i < length b then add64 (m ! i) (b ! i) else m ! i)"
  by (induction m b arbitrary: i rule: merge_one.induct) (auto simp: nth_Cons split: nat.splits)

lemma length_foldl_merge [simp]: "length (foldl merge_one m bss) = length m"
  by (induction bss arbitrary: m) auto

lemma foldl_merge_nth:
  assumes "i < length m" and "m ! i = wrap64 a"
  shows "foldl merge_one m bss ! i = wrap64 (a + (\<Sum>b\<leftarrow>bss. if i < length b then b ! i else 0))"
  using assms
proof (induction bss arbitrary: m a)
  case (Cons b bss)
  let ?v = "if i < length b then b ! i else 0"
  have "merge_one m b ! i = wrap64 (a + ?v)"
    using Cons.prems by (simp add: merge_one_nth add64_def wrap64_add_left)
  then show ?case using Cons.IH [of "merge_one m b" "a + ?v"] Cons.prems
    by (simp add: add.assoc)
qed simp

lemma length_mergeBuckets [simp]: "length (mergeBuckets bss) = 13"
  by (simp add: mergeBuckets_def)

lemma mergeBuckets_nth:
  "i < 13 \<Longrightarrow>
     mergeBuckets bss ! i = wrap64 (\<Sum>b\<leftarrow>bss. if i < length b then b ! i else 0)"
  using foldl_merge_nth [of i "replicate 13 0" 0 bss] by (simp add: mergeBuckets_def)

lemma length_filter_concat:
  "int (length (filter P (concat xss))) = (\<Sum>xs\<leftarrow>xss. int (length (filter P xs)))"
  by (induction xss) auto

lemma mergeBuckets_hist:
  assumes "int (length (concat xss)) < 2 ^ 63"
  shows "mergeBuckets (map hist xss) = hist (concat xss)"
proof (rule nth_equalityI)
  fix i assume "i < length (mergeBuckets (map hist xss))"
  then have i: "i < 13" by simp
  let ?P = "\<lambda>x. bucketIndex x = i"
  have "(\<Sum>b\<leftarrow>map hist xss. if i < length b then b ! i else 0)
      = (\<Sum>xs\<leftarrow>xss. int (length (filter ?P xs)))"
    using i by (simp add: hist_nth comp_def)
  also have "\<dots> = int (length (filter ?P (concat xss)))" by (simp only: length_filter_concat)
  finally have s: "(\<Sum>b\<leftarrow>map hist xss. if i < length b then b ! i else 0)
      = int (length (filter ?P (concat xss)))" .
  have "length (filter ?P (concat xss)) \<le> length (concat xss)" by (rule length_filter_le)
  then have "int64_ok (int (length (filter ?P (concat xss))))"
    using assms unfolding int64_ok_def by linarith
  then show "mergeBuckets (map hist xss) ! i = hist (concat xss) ! i"
    using i by (simp only: mergeBuckets_nth s wrap64_id hist_nth)
qed simp

text \<open>The shards' rows come back in no particular order; it does not matter.\<close>

lemma mergeBuckets_perm:
  assumes "mset bss = mset bss'"
  shows "mergeBuckets bss = mergeBuckets bss'"
proof (rule nth_equalityI)
  fix i assume "i < length (mergeBuckets bss)"
  then have i: "i < 13" by simp
  let ?f = "\<lambda>b. if i < length b then b ! i else (0::int)"
  have "sum_mset (mset (map ?f bss)) = sum_mset (mset (map ?f bss'))"
    using assms by simp
  then have "sum_list (map ?f bss) = sum_list (map ?f bss')"
    by (simp only: sum_mset_sum_list)
  then show "mergeBuckets bss ! i = mergeBuckets bss' ! i"
    using i by (simp only: mergeBuckets_nth)
qed simp

end
