(* ===== verification/Go_Text.thy ===== *)
theory Go_Text
  imports DLT_Prelude
begin

section \<open>Go's strings and strconv\<close>

text \<open>
  The functions of Go's standard library that the program's own logic goes through. A Go
  string is its bytes, so \<open>length\<close> is \<^verbatim>\<open>len\<close>.
  \<^item> \<open>ParseInt\<close> is \<^verbatim>\<open>strconv.ParseInt(s, 10, 64)\<close>: the value and the error, since one caller
    uses the value and drops the error; \<^verbatim>\<open>strconv.Atoi\<close> is the same function on a 64-bit
    \<^verbatim>\<open>int\<close>.
  \<^item> \<open>FormatInt\<close> is \<^verbatim>\<open>strconv.FormatInt(k, 10)\<close> and what \<^verbatim>\<open>%d\<close> prints.
  \<^item> \<open>TrimSpace\<close> knows the UTF-8 encodings of Unicode's white space.
  \<^item> \<open>ToLower\<close> and \<open>ToUpper\<close> map ASCII strings byte by byte; on other strings they go
    through the Unicode tables, which are a parameter \<open>u\<close>.
\<close>

subsection \<open>Decimal numbers\<close>

definition digit_char :: "nat \<Rightarrow> char" where
  "digit_char d = char_of (48 + d)"

definition is_digit :: "char \<Rightarrow> bool" where
  "is_digit c \<longleftrightarrow> 48 \<le> (of_char c :: nat) \<and> (of_char c :: nat) \<le> 57"

definition digit_val :: "char \<Rightarrow> nat" where
  "digit_val c = of_char c - 48"

fun format_nat :: "nat \<Rightarrow> string" where
  "format_nat n =
     (if n < 10 then [digit_char n] else format_nat (n div 10) @ [digit_char (n mod 10)])"

declare format_nat.simps [simp del]

definition FormatInt :: "int \<Rightarrow> string" where
  "FormatInt k = (if k < 0 then CHR ''-'' # format_nat (nat (- k)) else format_nat (nat k))"

datatype num_error = ErrSyntax | ErrRange

fun parse_uint_loop :: "nat \<Rightarrow> string \<Rightarrow> num_error + nat" where
  "parse_uint_loop n [] = Inr n"
| "parse_uint_loop n (c # cs) =
     (if \<not> is_digit c then Inl ErrSyntax
      else if 2 ^ 64 \<le> 10 * n + digit_val c then Inl ErrRange
      else parse_uint_loop (10 * n + digit_val c) cs)"

definition ParseUint :: "string \<Rightarrow> num_error + nat" where
  "ParseUint s = (if s = [] then Inl ErrSyntax else parse_uint_loop 0 s)"

definition ParseInt :: "string \<Rightarrow> int \<times> num_error option" where
  "ParseInt s =
     (if s = [] then (0, Some ErrSyntax)
      else
        let neg = (hd s = CHR ''-'');
            body = (if hd s = CHR ''+'' \<or> hd s = CHR ''-'' then tl s else s)
        in case ParseUint body of
             Inl ErrSyntax \<Rightarrow> (0, Some ErrSyntax)
           | Inl ErrRange \<Rightarrow>
               if neg then (- (2 ^ 63), Some ErrRange) else (2 ^ 63 - 1, Some ErrRange)
           | Inr un \<Rightarrow>
               if \<not> neg \<and> 2 ^ 63 \<le> un then (2 ^ 63 - 1, Some ErrRange)
               else if neg \<and> 2 ^ 63 < un then (- (2 ^ 63), Some ErrRange)
               else (if neg then - int un else int un, None))"

lemma digit_char_props [simp]:
  assumes "d < 10"
  shows "is_digit (digit_char d)" and "digit_val (digit_char d) = d"
  using assms by (simp_all add: is_digit_def digit_char_def digit_val_def)

lemma parse_uint_append:
  "parse_uint_loop n (xs @ ys) =
     (case parse_uint_loop n xs of Inl e \<Rightarrow> Inl e | Inr m \<Rightarrow> parse_uint_loop m ys)"
  by (induction n xs rule: parse_uint_loop.induct) auto

lemma parse_format_nat:
  assumes "n < 2 ^ 64" shows "parse_uint_loop 0 (format_nat n) = Inr n"
  using assms
proof (induction n rule: format_nat.induct)
  case (1 n)
  show ?case
  proof (cases "n < 10")
    case True
    then show ?thesis by (simp add: format_nat.simps [of n])
  next
    case False
    then have "parse_uint_loop 0 (format_nat (n div 10)) = Inr (n div 10)"
      using "1.prems" by (intro "1.IH") auto
    moreover have "10 * (n div 10) + n mod 10 = n" by simp
    ultimately show ?thesis
      using False "1.prems" by (simp add: format_nat.simps [of n] parse_uint_append)
  qed
qed

lemma format_nat_digits: "c \<in> set (format_nat n) \<Longrightarrow> is_digit c"
proof (induction n rule: format_nat.induct)
  case (1 n)
  then show ?case
    by (cases "n < 10") (auto simp: format_nat.simps [of n])
qed

lemma format_nat_nonempty [simp]: "format_nat n \<noteq> []"
  by (subst format_nat.simps) simp

lemma sign_not_digit: "\<not> is_digit CHR ''-''" "\<not> is_digit CHR ''+''" "\<not> is_digit CHR ''/''"
  by (simp_all add: is_digit_def)

lemma hd_format_nat: "is_digit (hd (format_nat n))"
  by (rule format_nat_digits [of _ n]) simp

lemma ParseInt_FormatInt:
  assumes "int64_ok k" shows "ParseInt (FormatInt k) = (k, None)"
proof (cases "k < 0")
  case True
  then have b: "nat (- k) < 2 ^ 64" "\<not> 9223372036854775808 < nat (- k)" using assms by (auto simp: int64_ok_def)
  show ?thesis
    using True by (simp add: FormatInt_def ParseInt_def ParseUint_def parse_format_nat [OF b(1)] b(2) Let_def)
next
  case False
  then have b: "nat k < 2 ^ 64" "\<not> 9223372036854775808 \<le> nat k" using assms by (auto simp: int64_ok_def)
  have "hd (format_nat (nat k)) \<noteq> CHR ''-''" "hd (format_nat (nat k)) \<noteq> CHR ''+''"
    using hd_format_nat [of "nat k"] sign_not_digit by metis+
  then show ?thesis
    using False by (simp add: FormatInt_def ParseInt_def ParseUint_def parse_format_nat [OF b(1)] b(2) Let_def)
qed

lemma FormatInt_chars: "c \<in> set (FormatInt k) \<Longrightarrow> is_digit c \<or> c = CHR ''-''"
  by (auto simp: FormatInt_def dest: format_nat_digits split: if_splits)

text \<open>Whatever the string, the value is an int64.\<close>

lemma ParseInt_ok: "int64_ok (fst (ParseInt s))"
  by (auto simp: ParseInt_def int64_ok_def Let_def split: sum.splits num_error.splits)

subsection \<open>Trimming and case mapping\<close>

text \<open>The encodings of the code points for which \<^verbatim>\<open>unicode.IsSpace\<close> holds.\<close>

definition space_encodings :: "string list" where
  "space_encodings =
     [[CHR 0x09], [CHR 0x0A], [CHR 0x0B], [CHR 0x0C], [CHR 0x0D], [CHR 0x20],
      [CHR 0xC2, CHR 0x85], [CHR 0xC2, CHR 0xA0], [CHR 0xE1, CHR 0x9A, CHR 0x80],
      [CHR 0xE2, CHR 0x80, CHR 0x80], [CHR 0xE2, CHR 0x80, CHR 0x81],
      [CHR 0xE2, CHR 0x80, CHR 0x82], [CHR 0xE2, CHR 0x80, CHR 0x83],
      [CHR 0xE2, CHR 0x80, CHR 0x84], [CHR 0xE2, CHR 0x80, CHR 0x85],
      [CHR 0xE2, CHR 0x80, CHR 0x86], [CHR 0xE2, CHR 0x80, CHR 0x87],
      [CHR 0xE2, CHR 0x80, CHR 0x88], [CHR 0xE2, CHR 0x80, CHR 0x89],
      [CHR 0xE2, CHR 0x80, CHR 0x8A], [CHR 0xE2, CHR 0x80, CHR 0xA8],
      [CHR 0xE2, CHR 0x80, CHR 0xA9], [CHR 0xE2, CHR 0x80, CHR 0xAF],
      [CHR 0xE2, CHR 0x81, CHR 0x9F], [CHR 0xE3, CHR 0x80, CHR 0x80]]"

fun strip_prefix :: "string \<Rightarrow> string \<Rightarrow> string option" where
  "strip_prefix [] s = Some s"
| "strip_prefix (p # ps) [] = None"
| "strip_prefix (p # ps) (c # cs) = (if p = c then strip_prefix ps cs else None)"

definition HasPrefix :: "string \<Rightarrow> string \<Rightarrow> bool" where
  "HasPrefix s p \<longleftrightarrow> strip_prefix p s \<noteq> None"

fun strip_first :: "string list \<Rightarrow> string \<Rightarrow> string option" where
  "strip_first [] s = None"
| "strip_first (p # ps) s =
     (case strip_prefix p s of Some r \<Rightarrow> Some r | None \<Rightarrow> strip_first ps s)"

lemma strip_prefix_Some: "strip_prefix p s = Some r \<longleftrightarrow> s = p @ r"
  by (induction p s rule: strip_prefix.induct) auto

lemma strip_prefix_append: "strip_prefix p (p @ r) = Some r"
  by (simp add: strip_prefix_Some)

lemma HasPrefix_iff: "HasPrefix s p \<longleftrightarrow> (\<exists>r. s = p @ r)"
  by (auto simp: HasPrefix_def strip_prefix_Some [symmetric])

lemma strip_first_Some: "strip_first ps s = Some r \<Longrightarrow> \<exists>p \<in> set ps. s = p @ r"
  by (induction ps) (auto simp: strip_prefix_Some split: option.splits)

lemma strip_first_None: "strip_first ps s = None \<Longrightarrow> p \<in> set ps \<Longrightarrow> s \<noteq> p @ r"
  by (induction ps) (auto simp: strip_prefix_append split: option.splits)

lemma space_encodings_nonempty: "p \<in> set space_encodings \<Longrightarrow> p \<noteq> []"
  by (auto simp: space_encodings_def)

text \<open>Removing one of the strings \<open>ps\<close> from the front as long as one is there.\<close>

function trim_front :: "string list \<Rightarrow> string \<Rightarrow> string" where
  "trim_front ps s =
     (if [] \<in> set ps then s
      else case strip_first ps s of None \<Rightarrow> s | Some r \<Rightarrow> trim_front ps r)"
  by pat_completeness auto
termination
proof (relation "measure (\<lambda>(ps, s). length s)")
  fix ps s r
  assume "[] \<notin> set ps" and "strip_first ps s = Some r"
  then obtain p where "p \<in> set ps" "s = p @ r" "p \<noteq> []" using strip_first_Some by blast
  then show "((ps, r), (ps, s)) \<in> measure (\<lambda>(ps, s). length s)" by simp
qed simp

declare trim_front.simps [simp del]

definition TrimSpace :: "string \<Rightarrow> string" where
  "TrimSpace s =
     rev (trim_front (map rev space_encodings) (rev (trim_front space_encodings s)))"

lemma trim_front_fixed: "strip_first ps s = None \<Longrightarrow> trim_front ps s = s"
  by (subst trim_front.simps) simp

lemma trim_front_stops: "[] \<notin> set ps \<Longrightarrow> strip_first ps (trim_front ps s) = None"
proof (induction ps s rule: trim_front.induct)
  case (1 ps s)
  then show ?case
    by (cases "strip_first ps s") (simp_all add: trim_front.simps [of ps s])
qed

lemma trim_front_suffix: "\<exists>p. s = p @ trim_front ps s"
proof (induction ps s rule: trim_front.induct)
  case (1 ps s)
  show ?case
  proof (cases "[] \<in> set ps \<or> strip_first ps s = None")
    case True
    then show ?thesis by (auto simp: trim_front.simps [of ps s])
  next
    case False
    then obtain r where r: "strip_first ps s = Some r" "[] \<notin> set ps" by auto
    then obtain p where "s = p @ r" using strip_first_Some by blast
    moreover obtain q where "r = q @ trim_front ps r" using 1 r by auto
    ultimately have "s = (p @ q) @ trim_front ps r" by simp
    moreover have "trim_front ps s = trim_front ps r" using r by (simp add: trim_front.simps [of ps s])
    ultimately show ?thesis by (intro exI [of _ "p @ q"]) simp
  qed
qed

text \<open>What is left is a contiguous piece of the input and ends in no white space.\<close>

lemma TrimSpace_infix: "\<exists>p q. s = p @ TrimSpace s @ q"
proof -
  obtain p where p: "s = p @ trim_front space_encodings s" using trim_front_suffix by blast
  obtain q where "rev (trim_front space_encodings s) =
      q @ trim_front (map rev space_encodings) (rev (trim_front space_encodings s))"
    using trim_front_suffix by blast
  then have "trim_front space_encodings s = TrimSpace s @ rev q"
    by (metis TrimSpace_def rev_append rev_rev_ident)
  with p show ?thesis by metis
qed

lemma TrimSpace_no_trailing: "p \<in> set space_encodings \<Longrightarrow> TrimSpace s \<noteq> r @ p"
proof -
  assume p: "p \<in> set space_encodings"
  have "[] \<notin> set (map rev space_encodings)" using space_encodings_nonempty by force
  from trim_front_stops [OF this]
  have "strip_first (map rev space_encodings) (rev (TrimSpace s)) = None"
    by (simp add: TrimSpace_def)
  then have "rev (TrimSpace s) \<noteq> rev p @ rev r" using p by (intro strip_first_None) auto
  then show ?thesis by (metis rev_append)
qed

record unicode_tables =
  u_upper :: "string \<Rightarrow> string"
  u_lower :: "string \<Rightarrow> string"

definition is_ascii :: "string \<Rightarrow> bool" where
  "is_ascii s \<longleftrightarrow> (\<forall>c \<in> set s. (of_char c :: nat) < 128)"

definition ascii_upper :: "char \<Rightarrow> char" where
  "ascii_upper c =
     (if 97 \<le> (of_char c :: nat) \<and> (of_char c :: nat) \<le> 122 then char_of (of_char c - 32 :: nat) else c)"

definition ascii_lower :: "char \<Rightarrow> char" where
  "ascii_lower c =
     (if 65 \<le> (of_char c :: nat) \<and> (of_char c :: nat) \<le> 90 then char_of (of_char c + 32 :: nat) else c)"

definition ToUpper :: "unicode_tables \<Rightarrow> string \<Rightarrow> string" where
  "ToUpper u s = (if is_ascii s then map ascii_upper s else u_upper u s)"

definition ToLower :: "unicode_tables \<Rightarrow> string \<Rightarrow> string" where
  "ToLower u s = (if is_ascii s then map ascii_lower s else u_lower u s)"

text \<open>\<^verbatim>\<open>strings.Split(s, ",")\<close> for a one-byte separator.\<close>

fun split_on :: "char \<Rightarrow> string \<Rightarrow> string list" where
  "split_on sep [] = [[]]"
| "split_on sep (c # cs) =
     (if c = sep then [] # split_on sep cs
      else case split_on sep cs of [] \<Rightarrow> [[c]] | w # ws \<Rightarrow> (c # w) # ws)"

end
