(* ===== verification/Run_Store.thy ===== *)
theory Run_Store
  imports Sql_Table Histogram Go_Text
begin

section \<open>The data-access layer\<close>

text \<open>
  \<^verbatim>\<open>backend/internal/store/test_run_store.go\<close> over the schema of \<^verbatim>\<open>migrations/\<close>. The
  state \<open>db\<close> is the two tables and their id sequences; an operation takes the time of
  its transaction (SQL's \<^verbatim>\<open>now()\<close>) and returns its result, an error of the code or a
  value, with the new state. A failed transaction leaves the tables as they were; its
  sequence values are lost, as in PostgreSQL. \<open>DbError\<close> stands for every error the
  database reports: a value out of a column's range, a NUL byte in a text, a violated
  CHECK constraint, a sum that does not fit the \<^verbatim>\<open>int64\<close> it is scanned into. Lost
  connections are not modelled here; the worker's side accounts for failing calls.

  Each operation is one atomic step, except \<open>startShard\<close>, whose two statements are two
  definitions; the interleaving of the statements inside \<open>finishShard\<close> is the subject of
  another theory.
\<close>

subsection \<open>State\<close>

datatype store_error =
  ErrNotFound | ErrNoQueuedRuns | ErrNotRunning | ErrNotQueued | ErrAlreadyDone | DbError string

text \<open>A row of \<^verbatim>\<open>test_runs\<close>: the columns of \<^verbatim>\<open>TestRun\<close> and the three it does not select.\<close>

record run_row = test_run +
  rr_headers :: "headers option"
  rr_body :: "string option"
  rr_think_time_ms :: int

record shard_row =
  sh_id :: int
  sh_run_id :: int
  sh_shard_index :: int
  sh_virtual_users :: int
  sh_status :: run_status
  sh_error_message :: "string option"
  sh_total_requests :: "int option"
  sh_successful_requests :: "int option"
  sh_failed_requests :: "int option"
  sh_latency_count :: "int option"
  sh_avg_latency_ms :: "float64 option"
  sh_min_latency_ms :: "float64 option"
  sh_max_latency_ms :: "float64 option"
  sh_latency_buckets :: "int list option"
  sh_started_at :: "time option"
  sh_completed_at :: "time option"
  sh_created_at :: time

record db =
  db_runs :: "run_row list"
  db_shards :: "shard_row list"
  db_next_run :: int
  db_next_shard :: int

definition empty_db :: db where
  "empty_db = \<lparr>db_runs = [], db_shards = [], db_next_run = 1, db_next_shard = 1\<rparr>"

definition scanRow :: "run_row \<Rightarrow> test_run" where
  "scanRow r = test_run.truncate r"

definition find_run :: "int \<Rightarrow> db \<Rightarrow> run_row option" where
  "find_run i d = List.find (\<lambda>r. tr_ID r = i) (db_runs d)"

definition find_shard :: "int \<Rightarrow> db \<Rightarrow> shard_row option" where
  "find_shard i d = List.find (\<lambda>s. sh_id s = i) (db_shards d)"

definition shards_of :: "int \<Rightarrow> db \<Rightarrow> shard_row list" where
  "shards_of i d = filter (\<lambda>s. sh_run_id s = i) (db_shards d)"

definition int4_ok :: "int \<Rightarrow> bool" where
  "int4_ok x \<longleftrightarrow> - (2 ^ 31) \<le> x \<and> x < 2 ^ 31"

definition text_ok :: "string \<Rightarrow> bool" where
  "text_ok s \<longleftrightarrow> CHR 0x00 \<notin> set s"

definition opt_ok :: "string option \<Rightarrow> bool" where
  "opt_ok s = (case s of None \<Rightarrow> True | Some t \<Rightarrow> text_ok t)"

subsection \<open>Creating runs\<close>

definition new_run_row ::
  "int \<Rightarrow> time \<Rightarrow> create_request \<Rightarrow> int \<Rightarrow> headers option \<Rightarrow> string option \<Rightarrow> int \<Rightarrow> run_row" where
  "new_run_row i now req shard_count hs body think =
     \<lparr>tr_ID = i, tr_Name = cr_Name req, tr_TargetURL = cr_TargetURL req,
      tr_Method = cr_Method req, tr_VirtualUsers = cr_VirtualUsers req,
      tr_DurationSeconds = cr_DurationSeconds req, tr_ShardCount = shard_count,
      tr_Status = Queued, tr_TotalRequests = None, tr_SuccessfulRequests = None,
      tr_FailedRequests = None, tr_AvgLatencyMs = None, tr_MinLatencyMs = None,
      tr_MaxLatencyMs = None, tr_P50LatencyMs = None, tr_P95LatencyMs = None,
      tr_P99LatencyMs = None, tr_ErrorMessage = None, tr_CreatedAt = now,
      tr_StartedAt = None, tr_CompletedAt = None,
      rr_headers = hs, rr_body = body, rr_think_time_ms = think\<rparr>"

text \<open>The column types and CHECK constraints of \<^verbatim>\<open>test_runs\<close> on an inserted row.\<close>

definition run_row_ok :: "run_row \<Rightarrow> bool" where
  "run_row_ok r \<longleftrightarrow>
     text_ok (tr_Name r) \<and> text_ok (tr_TargetURL r) \<and> text_ok (tr_Method r) \<and>
     int4_ok (tr_VirtualUsers r) \<and> 0 < tr_VirtualUsers r \<and>
     int4_ok (tr_DurationSeconds r) \<and> 0 < tr_DurationSeconds r \<and>
     int4_ok (tr_ShardCount r) \<and> int4_ok (rr_think_time_ms r) \<and> opt_ok (rr_body r) \<and>
     (case rr_headers r of None \<Rightarrow> True
      | Some hs \<Rightarrow> list_all (\<lambda>(k, v). text_ok k \<and> text_ok v) hs)"

definition insert_run :: "run_row \<Rightarrow> db \<Rightarrow> (store_error + run_row) \<times> db" where
  "insert_run r d =
     (let d' = d\<lparr>db_next_run := db_next_run d + 1\<rparr>
      in if run_row_ok r then (Inr r, d'\<lparr>db_runs := db_runs d @ [r]\<rparr>)
         else (Inl (DbError ''insert run''), d'))"

definition Create :: "time \<Rightarrow> create_request \<Rightarrow> db \<Rightarrow> (store_error + test_run) \<times> db" where
  "Create now req d =
     (case insert_run (new_run_row (db_next_run d) now req 1 None None 0) d of
        (Inl e, d') \<Rightarrow> (Inl e, d')
      | (Inr r, d') \<Rightarrow> (Inr (scanRow r), d'))"

definition new_shard_row :: "int \<Rightarrow> time \<Rightarrow> int \<Rightarrow> int \<Rightarrow> int \<Rightarrow> shard_row" where
  "new_shard_row i now run_id index vus =
     \<lparr>sh_id = i, sh_run_id = run_id, sh_shard_index = index, sh_virtual_users = vus,
      sh_status = Queued, sh_error_message = None, sh_total_requests = None,
      sh_successful_requests = None, sh_failed_requests = None, sh_latency_count = None,
      sh_avg_latency_ms = None, sh_min_latency_ms = None, sh_max_latency_ms = None,
      sh_latency_buckets = None, sh_started_at = None, sh_completed_at = None,
      sh_created_at = now\<rparr>"

text \<open>The loop over the shards: one insert each, the first failure ends it.\<close>

fun insert_shards :: "time \<Rightarrow> int \<Rightarrow> int \<Rightarrow> int list \<Rightarrow> db \<Rightarrow> (store_error + int list) \<times> db" where
  "insert_shards now run_id i [] d = (Inr [], d)"
| "insert_shards now run_id i (vus # rest) d =
     (let sid = db_next_shard d;
          d' = d\<lparr>db_next_shard := sid + 1\<rparr>
      in if int4_ok i \<and> int4_ok vus \<and> 0 < vus
         then (case insert_shards now run_id (i + 1) rest
                      (d'\<lparr>db_shards := db_shards d @ [new_shard_row sid now run_id i vus]\<rparr>) of
                 (Inl e, d'') \<Rightarrow> (Inl e, d'')
               | (Inr ids, d'') \<Rightarrow> (Inr (sid # ids), d''))
         else (Inl (DbError ''insert shard''), d'))"

text \<open>Rolling a transaction back: the tables return to \<open>d\<close>, the sequences keep their values.\<close>

definition rollback :: "db \<Rightarrow> db \<Rightarrow> db" where
  "rollback d d' = d'\<lparr>db_runs := db_runs d, db_shards := db_shards d\<rparr>"

definition CreateWithShards ::
  "time \<Rightarrow> create_request \<Rightarrow> int list \<Rightarrow> db \<Rightarrow> (store_error + test_run \<times> int list) \<times> db" where
  "CreateWithShards now req shardVUs d =
     (let hs = (if cr_Headers req = [] then None else Some (cr_Headers req));
          body = (if cr_Body req = '''' then None else Some (cr_Body req));
          row = new_run_row (db_next_run d) now req (int (length shardVUs)) hs body
                  (cr_ThinkTimeMs req)
      in case insert_run row d of
           (Inl e, d1) \<Rightarrow> (Inl e, rollback d d1)
         | (Inr r, d1) \<Rightarrow>
             (case insert_shards now (tr_ID r) 0 shardVUs d1 of
                (Inl e, d2) \<Rightarrow> (Inl e, rollback d d2)
              | (Inr ids, d2) \<Rightarrow> (Inr (scanRow r, ids), d2)))"

subsection \<open>Reading runs\<close>

definition GetByID :: "int \<Rightarrow> db \<Rightarrow> store_error + test_run" where
  "GetByID i d = (case find_run i d of None \<Rightarrow> Inl ErrNotFound | Some r \<Rightarrow> Inr (scanRow r))"

text \<open>
  \<^verbatim>\<open>ORDER BY created_at DESC, id DESC\<close>: two stable ascending sorts, reversed.
\<close>

definition newest_first :: "run_row list \<Rightarrow> run_row list" where
  "newest_first rs = rev (sort_key tr_CreatedAt (sort_key tr_ID rs))"

definition List_runs :: "int \<Rightarrow> db \<Rightarrow> store_error + test_run list" where
  "List_runs limit d =
     (if limit < 0 then Inl (DbError ''LIMIT must not be negative'')
      else Inr (map scanRow (take (nat limit) (newest_first (db_runs d)))))"

definition CountActiveRuns :: "db \<Rightarrow> int" where
  "CountActiveRuns d =
     int (length (filter (\<lambda>r. tr_Status r \<in> {Queued, Running, Cancelling}) (db_runs d)))"

subsection \<open>Run transitions\<close>

text \<open>
  The row updates, one per \<^verbatim>\<open>SET\<close> clause.
\<close>

definition set_running :: "time \<Rightarrow> run_row \<Rightarrow> run_row" where
  "set_running now r = r\<lparr>tr_Status := Running, tr_StartedAt := Some now\<rparr>"

definition set_failed :: "time \<Rightarrow> string \<Rightarrow> run_row \<Rightarrow> run_row" where
  "set_failed now reason r =
     r\<lparr>tr_Status := Failed, tr_ErrorMessage := Some reason, tr_CompletedAt := Some now\<rparr>"

definition set_outcome :: "time \<Rightarrow> run_status \<Rightarrow> complete_run_request \<Rightarrow> run_row \<Rightarrow> run_row" where
  "set_outcome now s req r =
     r\<lparr>tr_Status := s, tr_TotalRequests := cq_TotalRequests req,
       tr_SuccessfulRequests := cq_SuccessfulRequests req,
       tr_FailedRequests := cq_FailedRequests req, tr_AvgLatencyMs := cq_AvgLatencyMs req,
       tr_MinLatencyMs := cq_MinLatencyMs req, tr_MaxLatencyMs := cq_MaxLatencyMs req,
       tr_ErrorMessage := cq_ErrorMessage req, tr_CompletedAt := Some now\<rparr>"

definition set_cancelling :: "run_row \<Rightarrow> run_row" where
  "set_cancelling r = r\<lparr>tr_Status := Cancelling\<rparr>"

definition oldest_queued :: "db \<Rightarrow> run_row option" where
  "oldest_queued d =
     query_row (sort_key tr_CreatedAt (filter (\<lambda>r. tr_Status r = Queued) (db_runs d)))"

definition ClaimNext :: "time \<Rightarrow> db \<Rightarrow> (store_error + test_run) \<times> db" where
  "ClaimNext now d =
     (case oldest_queued d of
        None \<Rightarrow> (Inl ErrNoQueuedRuns, d)
      | Some q \<Rightarrow>
          (case update_by_id tr_ID (tr_ID q) (\<lambda>_. True) (set_running now) (db_runs d) of
             (None, _) \<Rightarrow> (Inl ErrNoQueuedRuns, d)
           | (Some r, rs) \<Rightarrow> (Inr (scanRow r), d\<lparr>db_runs := rs\<rparr>)))"

definition StartByID :: "time \<Rightarrow> int \<Rightarrow> db \<Rightarrow> (store_error + test_run) \<times> db" where
  "StartByID now i d =
     (case update_by_id tr_ID i (\<lambda>r. tr_Status r = Queued) (set_running now) (db_runs d) of
        (None, _) \<Rightarrow>
          (case GetByID i d of Inl ErrNotFound \<Rightarrow> (Inl ErrNotFound, d) | _ \<Rightarrow> (Inl ErrNotQueued, d))
      | (Some r, rs) \<Rightarrow> (Inr (scanRow r), d\<lparr>db_runs := rs\<rparr>))"

definition TakeOver :: "time \<Rightarrow> int \<Rightarrow> db \<Rightarrow> (store_error + test_run) \<times> db" where
  "TakeOver now i d =
     (case update_by_id tr_ID i (\<lambda>r. tr_Status r \<in> {Queued, Running}) (set_running now)
             (db_runs d) of
        (None, _) \<Rightarrow>
          (case GetByID i d of Inl ErrNotFound \<Rightarrow> (Inl ErrNotFound, d) | _ \<Rightarrow> (Inl ErrAlreadyDone, d))
      | (Some r, rs) \<Rightarrow> (Inr (scanRow r), d\<lparr>db_runs := rs\<rparr>))"

definition Fail :: "time \<Rightarrow> int \<Rightarrow> string \<Rightarrow> db \<Rightarrow> (store_error + test_run) \<times> db" where
  "Fail now i reason d =
     (if \<not> text_ok reason then (Inl (DbError ''fail test run''), d)
      else case update_by_id tr_ID i (\<lambda>r. tr_Status r \<in> {Queued, Running})
                  (set_failed now reason) (db_runs d) of
        (None, _) \<Rightarrow> (GetByID i d, d)
      | (Some r, rs) \<Rightarrow> (Inr (scanRow r), d\<lparr>db_runs := rs\<rparr>))"

text \<open>A status outside the CHECK constraint is an error once a row matches.\<close>

definition Complete ::
  "time \<Rightarrow> int \<Rightarrow> complete_run_request \<Rightarrow> db \<Rightarrow> (store_error + test_run) \<times> db" where
  "Complete now i req d =
     (if \<not> (text_ok (cq_Status req) \<and> opt_ok (cq_ErrorMessage req))
      then (Inl (DbError ''complete test run''), d)
      else case List.find (\<lambda>r. tr_ID r = i \<and> tr_Status r = Running) (db_runs d) of
        None \<Rightarrow>
          (case GetByID i d of Inl ErrNotFound \<Rightarrow> (Inl ErrNotFound, d) | _ \<Rightarrow> (Inl ErrNotRunning, d))
      | Some _ \<Rightarrow>
          (case parse_status (cq_Status req) of
             None \<Rightarrow> (Inl (DbError ''complete test run''), d)
           | Some s \<Rightarrow>
               (case update_by_id tr_ID i (\<lambda>r. tr_Status r = Running) (set_outcome now s req)
                       (db_runs d) of
                  (None, _) \<Rightarrow> (Inl ErrNotRunning, d)
                | (Some r, rs) \<Rightarrow> (Inr (scanRow r), d\<lparr>db_runs := rs\<rparr>))))"

definition CancelRun :: "int \<Rightarrow> db \<Rightarrow> (store_error + test_run) \<times> db" where
  "CancelRun i d =
     (case update_by_id tr_ID i (\<lambda>r. tr_Status r \<in> {Queued, Running}) set_cancelling (db_runs d) of
        (None, _) \<Rightarrow> (GetByID i d, d)
      | (Some r, rs) \<Rightarrow> (Inr (scanRow r), d\<lparr>db_runs := rs\<rparr>))"

subsection \<open>Starting shards\<close>

definition shardMiss :: "int \<Rightarrow> store_error option \<Rightarrow> db \<Rightarrow> store_error option" where
  "shardMiss i notThisState d =
     (if find_shard i d = None then Some ErrNotFound else notThisState)"

definition set_shard_running :: "time \<Rightarrow> shard_row \<Rightarrow> shard_row" where
  "set_shard_running now s = s\<lparr>sh_status := Running, sh_started_at := Some now\<rparr>"

definition shard_guard :: "bool \<Rightarrow> shard_row \<Rightarrow> bool" where
  "shard_guard allowRunning s =
     (if allowRunning then sh_status s \<in> {Queued, Running} else sh_status s = Queued)"

text \<open>The first statement: claim the shard, join its run for the configuration.\<close>

definition claim_shard ::
  "time \<Rightarrow> int \<Rightarrow> bool \<Rightarrow> store_error \<Rightarrow> db \<Rightarrow> (store_error + shard_assignment) \<times> db" where
  "claim_shard now i allowRunning miss d =
     (case update_by_id sh_id i (\<lambda>s. shard_guard allowRunning s \<and> find_run (sh_run_id s) d \<noteq> None)
             (set_shard_running now) (db_shards d) of
        (None, _) \<Rightarrow>
          (case shardMiss i (Some miss) d of
             Some e \<Rightarrow> (Inl e, d) | None \<Rightarrow> (Inl miss, d))
      | (Some s, ss) \<Rightarrow>
          (let r = the (find_run (sh_run_id s) d)
           in (Inr \<lparr>sa_ShardID = i, sa_RunID = sh_run_id s, sa_ShardIndex = sh_shard_index s,
                    sa_TargetURL = tr_TargetURL r, sa_Method = tr_Method r,
                    sa_VirtualUsers = sh_virtual_users s,
                    sa_DurationSeconds = tr_DurationSeconds r,
                    sa_Headers = (case rr_headers r of None \<Rightarrow> [] | Some hs \<Rightarrow> hs),
                    sa_Body = (case rr_body r of None \<Rightarrow> '''' | Some b \<Rightarrow> b),
                    sa_ThinkTimeMs = rr_think_time_ms r\<rparr>,
               d\<lparr>db_shards := ss\<rparr>)))"

text \<open>The second statement: the first shard to start flips the run to running.\<close>

definition mark_run_running :: "time \<Rightarrow> int \<Rightarrow> db \<Rightarrow> db" where
  "mark_run_running now i d =
     d\<lparr>db_runs := upd_where (\<lambda>r. tr_ID r = i \<and> tr_Status r = Queued) (set_running now) (db_runs d)\<rparr>"

definition startShard ::
  "time \<Rightarrow> int \<Rightarrow> bool \<Rightarrow> store_error \<Rightarrow> db \<Rightarrow> (store_error + shard_assignment) \<times> db" where
  "startShard now i allowRunning miss d =
     (case claim_shard now i allowRunning miss d of
        (Inl e, d') \<Rightarrow> (Inl e, d')
      | (Inr a, d') \<Rightarrow> (Inr a, mark_run_running now (sa_RunID a) d'))"

definition StartShard :: "time \<Rightarrow> int \<Rightarrow> db \<Rightarrow> (store_error + shard_assignment) \<times> db" where
  "StartShard now i d = startShard now i False ErrNotQueued d"

definition TakeOverShard :: "time \<Rightarrow> int \<Rightarrow> db \<Rightarrow> (store_error + shard_assignment) \<times> db" where
  "TakeOverShard now i d = startShard now i True ErrAlreadyDone d"

subsection \<open>Finishing shards\<close>

text \<open>The select list of the aggregation, over the run's shards.\<close>

definition weighted_latency :: "shard_row \<Rightarrow> float64 option" where
  "weighted_latency s =
     (case (sh_avg_latency_ms s, sh_latency_count s) of
        (Some a, Some c) \<Rightarrow> Some (fl64 (a * fl64 (of_int c)))
      | _ \<Rightarrow> None)"

definition sum_float :: "float64 option list \<Rightarrow> float64" where
  "sum_float xs = foldl (\<lambda>s x. fl64 (s + x)) 0 (not_null xs)"

definition has_samples :: "shard_row \<Rightarrow> bool" where
  "has_samples s = (case sh_latency_count s of None \<Rightarrow> False | Some c \<Rightarrow> 0 < c)"

definition runPercentiles :: "shard_row list \<Rightarrow> float64 \<times> float64 \<times> float64" where
  "runPercentiles ss =
     (let merged = mergeBuckets (not_null (map sh_latency_buckets ss))
      in (store_percentile merged (fl64 (50 / 100)),
          store_percentile merged (fl64 (95 / 100)),
          store_percentile merged (fl64 (99 / 100))))"

definition null_float :: "float64 option \<Rightarrow> float64" where
  "null_float x = (case x of None \<Rightarrow> 0 | Some y \<Rightarrow> y)"

definition final_status :: "run_status \<Rightarrow> int \<Rightarrow> run_status" where
  "final_status current failedShards =
     (if current = Cancelling then Cancelled else if 0 < failedShards then Failed else Completed)"

definition final_message :: "run_status \<Rightarrow> int \<Rightarrow> string option" where
  "final_message current failedShards =
     (if current = Cancelling then Some ''run cancelled by user''
      else if 0 < failedShards then Some (FormatInt failedShards @ '' shard(s) failed'')
      else None)"

definition set_aggregate :: "time \<Rightarrow> run_status \<Rightarrow> shard_row list \<Rightarrow> run_row \<Rightarrow> run_row" where
  "set_aggregate now current ss r =
     (let latCount = sql_sum (map sh_latency_count ss);
          sumLat = sum_float (map weighted_latency ss);
          avg = (if 0 < latCount then fl64 (sumLat / fl64 (of_int latCount)) else 0);
          failedShards = int (length (filter (\<lambda>s. sh_status s = Failed) ss));
          (p50, p95, p99) = runPercentiles ss
      in r\<lparr>tr_Status := final_status current failedShards,
           tr_TotalRequests := Some (sql_sum (map sh_total_requests ss)),
           tr_SuccessfulRequests := Some (sql_sum (map sh_successful_requests ss)),
           tr_FailedRequests := Some (sql_sum (map sh_failed_requests ss)),
           tr_AvgLatencyMs := Some avg,
           tr_MinLatencyMs := Some (null_float (sql_min (map sh_min_latency_ms (filter has_samples ss)))),
           tr_MaxLatencyMs := Some (null_float (sql_max (map sh_max_latency_ms (filter has_samples ss)))),
           tr_P50LatencyMs := Some p50, tr_P95LatencyMs := Some p95, tr_P99LatencyMs := Some p99,
           tr_ErrorMessage := final_message current failedShards,
           tr_CompletedAt := Some now\<rparr>)"

definition sums_fit :: "shard_row list \<Rightarrow> bool" where
  "sums_fit ss \<longleftrightarrow>
     int64_ok (sql_sum (map sh_total_requests ss)) \<and>
     int64_ok (sql_sum (map sh_successful_requests ss)) \<and>
     int64_ok (sql_sum (map sh_failed_requests ss)) \<and>
     int64_ok (sql_sum (map sh_latency_count ss))"

definition aggregateRun :: "time \<Rightarrow> int \<Rightarrow> db \<Rightarrow> store_error + db" where
  "aggregateRun now i d =
     (let ss = shards_of i d
      in if \<not> sums_fit ss then Inl (DbError ''aggregate shards'')
         else case find_run i d of
                None \<Rightarrow> Inl (DbError ''read run status'')
              | Some run \<Rightarrow>
                  Inr (d\<lparr>db_runs :=
                    upd_where (\<lambda>r. tr_ID r = i \<and> tr_Status r \<in> {Running, Cancelling})
                      (set_aggregate now (tr_Status run) ss) (db_runs d)\<rparr>))"

definition remaining :: "int \<Rightarrow> db \<Rightarrow> int" where
  "remaining i d =
     int (length (filter (\<lambda>s. sh_status s \<in> {Queued, Running}) (shards_of i d)))"

text \<open>
  The barrier: count the run's unfinished shards, aggregate when there is none left.
\<close>

definition barrier :: "time \<Rightarrow> int \<Rightarrow> db \<Rightarrow> store_error + db" where
  "barrier now i d = (if remaining i d = 0 then aggregateRun now i d else Inr d)"

definition finishShard ::
  "time \<Rightarrow> int \<Rightarrow> (shard_row \<Rightarrow> bool) \<Rightarrow> (shard_row \<Rightarrow> shard_row) \<Rightarrow> store_error option \<Rightarrow> db
    \<Rightarrow> (store_error + unit) \<times> db" where
  "finishShard now i guard eff miss d =
     (case update_by_id sh_id i guard eff (db_shards d) of
        (None, _) \<Rightarrow>
          (case shardMiss i miss d of Some e \<Rightarrow> (Inl e, d) | None \<Rightarrow> (Inr (), d))
      | (Some s, ss) \<Rightarrow>
          (case barrier now (sh_run_id s) (d\<lparr>db_shards := ss\<rparr>) of
             Inl e \<Rightarrow> (Inl e, d)
           | Inr d' \<Rightarrow> (Inr (), d')))"

definition set_shard_outcome ::
  "time \<Rightarrow> run_status \<Rightarrow> complete_shard_request \<Rightarrow> shard_row \<Rightarrow> shard_row" where
  "set_shard_outcome now st req s =
     s\<lparr>sh_status := st, sh_error_message := cs_ErrorMessage req,
       sh_total_requests := cs_TotalRequests req,
       sh_successful_requests := cs_SuccessfulRequests req,
       sh_failed_requests := cs_FailedRequests req,
       sh_latency_count := cs_LatencyCount req,
       sh_avg_latency_ms := cs_AvgLatencyMs req,
       sh_min_latency_ms := cs_MinLatencyMs req,
       sh_max_latency_ms := cs_MaxLatencyMs req,
       sh_latency_buckets := (if cs_LatencyBuckets req = [] then None else Some (cs_LatencyBuckets req)),
       sh_completed_at := Some now\<rparr>"

text \<open>The CHECK constraint of \<^verbatim>\<open>test_run_shards\<close> on a status text.\<close>

definition shard_status_of :: "string \<Rightarrow> run_status option" where
  "shard_status_of t =
     (case parse_status t of
        None \<Rightarrow> None
      | Some s \<Rightarrow> if s \<in> {Queued, Running, Completed, Failed} then Some s else None)"

definition CompleteShard ::
  "time \<Rightarrow> int \<Rightarrow> complete_shard_request \<Rightarrow> db \<Rightarrow> (store_error + unit) \<times> db" where
  "CompleteShard now i req d =
     (if \<not> (text_ok (cs_Status req) \<and> opt_ok (cs_ErrorMessage req))
      then (Inl (DbError ''finish shard''), d)
      else case shard_status_of (cs_Status req) of
        Some st \<Rightarrow>
          finishShard now i (\<lambda>s. sh_status s = Running) (set_shard_outcome now st req)
            (Some ErrNotRunning) d
      | None \<Rightarrow>
          (case List.find (\<lambda>s. sh_id s = i \<and> sh_status s = Running) (db_shards d) of
             Some _ \<Rightarrow> (Inl (DbError ''finish shard''), d)
           | None \<Rightarrow> (Inl (if find_shard i d = None then ErrNotFound else ErrNotRunning), d)))"

definition set_shard_failed :: "time \<Rightarrow> string \<Rightarrow> shard_row \<Rightarrow> shard_row" where
  "set_shard_failed now reason s =
     s\<lparr>sh_status := Failed, sh_error_message := Some reason, sh_completed_at := Some now\<rparr>"

definition FailShard :: "time \<Rightarrow> int \<Rightarrow> string \<Rightarrow> db \<Rightarrow> (store_error + unit) \<times> db" where
  "FailShard now i reason d =
     (if \<not> text_ok reason then (Inl (DbError ''finish shard''), d)
      else finishShard now i (\<lambda>s. sh_status s \<in> {Queued, Running}) (set_shard_failed now reason)
             None d)"

end
