(* ===== verification/Run_Lifecycle.thy ===== *)
theory Run_Lifecycle
  imports Run_Store
begin

section \<open>The lifecycle of runs and shards\<close>

text \<open>
  Every statement of the store that changes a row is a guarded update: here each one is an
  interpretation of \<open>guarded_update\<close>. From them: every store operation makes progress on
  both tables (no status goes back, a terminal row never changes, ids stay), and keeps
  the tables well formed. \<open>store_call\<close> lists the operations that change state and
  \<open>store_reach\<close> the states they can lead to.
\<close>

lemmas set_defs = set_running_def set_failed_def set_outcome_def set_cancelling_def
  set_shard_running_def set_shard_outcome_def set_shard_failed_def

lemma set_aggregate_simps [row_simps]:
  "tr_ID (set_aggregate now current ss r) = tr_ID r"
  "tr_Status (set_aggregate now current ss r) =
     final_status current (int (length (filter (\<lambda>s. sh_status s = Failed) ss)))"
  "tr_CreatedAt (set_aggregate now current ss r) = tr_CreatedAt r"
  "tr_ShardCount (set_aggregate now current ss r) = tr_ShardCount r"
  by (simp_all add: set_aggregate_def Let_def split: prod.splits)

lemma final_status_terminal: "terminal (final_status c n)"
  by (simp add: final_status_def)

subsection \<open>The guarded updates\<close>

interpretation run_start: guarded_update tr_ID tr_Status "\<lambda>r. tr_Status r = Queued" "set_running now"
  for now
  by unfold_locales (simp_all add: set_defs)

interpretation run_takeover:
  guarded_update tr_ID tr_Status "\<lambda>r. tr_Status r \<in> {Queued, Running}" "set_running now"
  for now
  by unfold_locales (auto simp: set_defs)

interpretation run_fail:
  guarded_update tr_ID tr_Status "\<lambda>r. tr_Status r \<in> {Queued, Running}" "set_failed now reason"
  for now reason
  by unfold_locales (auto simp: set_defs intro: status_le_terminal)

interpretation run_complete:
  guarded_update tr_ID tr_Status "\<lambda>r. tr_Status r = Running \<and> terminal s" "set_outcome now s req"
  for now s req
  by unfold_locales (auto simp: set_defs intro: status_le_terminal)

interpretation run_cancel:
  guarded_update tr_ID tr_Status "\<lambda>r. tr_Status r \<in> {Queued, Running}" set_cancelling
  by unfold_locales (auto simp: set_defs)

interpretation run_aggregate:
  guarded_update tr_ID tr_Status "\<lambda>r. tr_Status r \<in> {Running, Cancelling}"
    "set_aggregate now current ss"
  for now current ss
  by unfold_locales (auto simp: row_simps intro: status_le_terminal final_status_terminal)

interpretation shard_claim:
  guarded_update sh_id sh_status "\<lambda>s. shard_guard allowRunning s \<and> Q s" "set_shard_running now"
  for allowRunning Q now
  by unfold_locales (auto simp: set_defs shard_guard_def split: if_splits)

interpretation shard_complete:
  guarded_update sh_id sh_status "\<lambda>s. sh_status s = Running \<and> terminal st"
    "set_shard_outcome now st req"
  for st now req
  by unfold_locales (auto simp: set_defs intro: status_le_terminal)

interpretation shard_fail:
  guarded_update sh_id sh_status "\<lambda>s. sh_status s \<in> {Queued, Running}" "set_shard_failed now reason"
  for now reason
  by unfold_locales (auto simp: set_defs intro: status_le_terminal)

subsection \<open>Operations as calls\<close>

datatype store_call =
    CallCreate create_request
  | CallCreateWithShards create_request "int list"
  | CallClaimNext
  | CallStartByID int
  | CallTakeOver int
  | CallFail int string
  | CallComplete int complete_run_request
  | CallCancelRun int
  | CallStartShard int
  | CallTakeOverShard int
  | CallStartShardHalf bool int \<comment> \<open>the first statement of \<open>startShard\<close> alone: the second failed\<close>
  | CallMarkRun int \<comment> \<open>its second statement alone\<close>
  | CallCompleteShard int complete_shard_request
  | CallFailShard int string

fun run_call :: "time \<Rightarrow> store_call \<Rightarrow> db \<Rightarrow> db" where
  "run_call now (CallCreate req) d = snd (Create now req d)"
| "run_call now (CallCreateWithShards req vus) d = snd (CreateWithShards now req vus d)"
| "run_call now CallClaimNext d = snd (ClaimNext now d)"
| "run_call now (CallStartByID i) d = snd (StartByID now i d)"
| "run_call now (CallTakeOver i) d = snd (TakeOver now i d)"
| "run_call now (CallFail i reason) d = snd (Fail now i reason d)"
| "run_call now (CallComplete i req) d = snd (Complete now i req d)"
| "run_call now (CallCancelRun i) d = snd (CancelRun i d)"
| "run_call now (CallStartShard i) d = snd (StartShard now i d)"
| "run_call now (CallTakeOverShard i) d = snd (TakeOverShard now i d)"
| "run_call now (CallStartShardHalf again i) d = snd (claim_shard now i again ErrNotQueued d)"
| "run_call now (CallMarkRun i) d = mark_run_running now i d"
| "run_call now (CallCompleteShard i req) d = snd (CompleteShard now i req d)"
| "run_call now (CallFailShard i reason) d = snd (FailShard now i reason d)"

text \<open>
  The HTTP handlers let a completion through only with the status "completed" or "failed".
\<close>

definition outcome_text :: "string \<Rightarrow> bool" where
  "outcome_text t \<longleftrightarrow> t = ''completed'' \<or> t = ''failed''"

fun valid_call :: "store_call \<Rightarrow> bool" where
  "valid_call (CallComplete i req) = outcome_text (cq_Status req)"
| "valid_call (CallCompleteShard i req) = outcome_text (cs_Status req)"
| "valid_call _ = True"

fun creates :: "store_call \<Rightarrow> bool" where
  "creates (CallCreate req) = True"
| "creates (CallCreateWithShards req vus) = True"
| "creates _ = False"

inductive store_reach :: "db \<Rightarrow> bool" where
  empty: "store_reach empty_db"
| call: "store_reach d \<Longrightarrow> valid_call c \<Longrightarrow> store_reach (run_call now c d)"

lemma outcome_status:
  assumes "outcome_text t"
  shows "\<exists>s. parse_status t = Some s \<and> shard_status_of t = Some s \<and> terminal s"
  using assms by (auto simp: outcome_text_def parse_status_def shard_status_of_def)

subsection \<open>Progress\<close>

definition db_progress :: "db \<Rightarrow> db \<Rightarrow> bool" where
  "db_progress d d' \<longleftrightarrow>
     table_progress tr_ID tr_Status (db_runs d) (db_runs d') \<and>
     table_progress sh_id sh_status (db_shards d) (db_shards d')"

lemma db_progress_refl [simp]: "db_progress d d"
  by (simp add: db_progress_def)

lemma db_progress_trans: "db_progress a b \<Longrightarrow> db_progress b c \<Longrightarrow> db_progress a c"
  by (auto simp: db_progress_def intro: table_progress_trans)

lemma upd_where_cong:
  "(\<And>r. r \<in> set t \<Longrightarrow> P r = Q r) \<Longrightarrow> upd_where P f t = upd_where Q f t"
  by (simp add: upd_where_def)

lemma update_by_id_None: "update_by_id key k g f t = (None, t') \<Longrightarrow> t' = t"
  by (auto simp: update_by_id_def query_row_returning find_None_upd)

lemma update_by_id_snd: "update_by_id key k g f t = (x, t') \<Longrightarrow> t' = upd_where (\<lambda>r. key r = k \<and> g r) f t"
  by (simp add: update_by_id_def)

lemma insert_shards_progress:
  "insert_shards now i k vus d = (x, d') \<Longrightarrow>
     db_runs d' = db_runs d \<and> table_progress sh_id sh_status (db_shards d) (db_shards d')"
proof (induction now i k vus d arbitrary: x d' rule: insert_shards.induct)
  case (2 now i k v rest d)
  show ?case
  proof (cases "int4_ok k \<and> int4_ok v \<and> 0 < v")
    case True
    let ?d = "d\<lparr>db_next_shard := db_next_shard d + 1,
      db_shards := db_shards d @ [new_shard_row (db_next_shard d) now i k v]\<rparr>"
    obtain y d'' where y: "insert_shards now i (k + 1) rest ?d = (y, d'')" by fastforce
    have "d' = d''" using 2(2) True y by (auto simp: Let_def split: sum.splits)
    moreover have "db_runs d'' = db_runs d \<and>
        table_progress sh_id sh_status (db_shards ?d) (db_shards d'')"
      using "2.IH" [OF refl refl True] y by auto
    ultimately show ?thesis
      by (auto intro: table_progress_trans table_progress_append)
  qed (use 2(2) in \<open>auto simp: Let_def\<close>)
qed simp

lemma Create_progress: "db_progress d (snd (Create now req d))"
  by (auto simp: Create_def insert_run_def Let_def db_progress_def table_progress_append
      split: sum.splits prod.splits if_splits)

lemma CreateWithShards_progress: "db_progress d (snd (CreateWithShards now req vus d))"
proof -
  let ?row = "new_run_row (db_next_run d) now req (int (length vus))
    (if cr_Headers req = [] then None else Some (cr_Headers req))
    (if cr_Body req = [] then None else Some (cr_Body req)) (cr_ThinkTimeMs req)"
  obtain x d1 where ins: "insert_run ?row d = (x, d1)" by fastforce
  show ?thesis
  proof (cases x)
    case (Inl e)
    then show ?thesis using ins by (simp add: CreateWithShards_def rollback_def db_progress_def)
  next
    case (Inr r)
    obtain y d2 where sh: "insert_shards now (tr_ID r) 0 vus d1 = (y, d2)" by fastforce
    have d1: "db_runs d1 = db_runs d @ [?row]" "db_shards d1 = db_shards d"
      using ins Inr by (auto simp: insert_run_def Let_def split: if_splits)
    have "db_progress d d2"
      using insert_shards_progress [OF sh] d1 by (simp add: db_progress_def table_progress_append)
    then show ?thesis using ins Inr sh
      by (cases y) (auto simp: CreateWithShards_def rollback_def db_progress_def)
  qed
qed

lemmas split_result = option.splits sum.splits store_error.splits prod.splits if_splits

lemma StartByID_progress: "db_progress d (snd (StartByID now i d))"
  by (simp add: StartByID_def update_by_id_def db_progress_def run_start.table_step
      split: split_result)

lemma TakeOver_progress: "db_progress d (snd (TakeOver now i d))"
  using run_takeover.table_step [of "db_runs d" i now]
  by (simp add: TakeOver_def update_by_id_def db_progress_def split: split_result)

lemma Fail_progress: "db_progress d (snd (Fail now i reason d))"
  using run_fail.table_step [of "db_runs d" i now reason]
  by (simp add: Fail_def update_by_id_def db_progress_def split: split_result)

lemma CancelRun_progress: "db_progress d (snd (CancelRun i d))"
  using run_cancel.table_step [of "db_runs d" i]
  by (simp add: CancelRun_def update_by_id_def db_progress_def split: split_result)

lemma Complete_progress:
  assumes "outcome_text (cq_Status req)"
  shows "db_progress d (snd (Complete now i req d))"
proof -
  obtain s where s: "parse_status (cq_Status req) = Some s" "terminal s"
    using outcome_status [OF assms] by blast
  have "table_progress tr_ID tr_Status (db_runs d)
      (upd_where (\<lambda>r. tr_ID r = i \<and> tr_Status r = Running) (set_outcome now s req) (db_runs d))"
    using run_complete.table_step [of "db_runs d" i s now req] s(2) by simp
  with s(1) show ?thesis
    by (simp add: Complete_def update_by_id_def db_progress_def split: split_result)
qed

lemma mark_run_running_progress: "db_progress d (mark_run_running now i d)"
  by (simp add: mark_run_running_def db_progress_def run_start.table_step)

lemma claim_shard_progress: "db_progress d (snd (claim_shard now i again miss d))"
  by (simp add: claim_shard_def update_by_id_def db_progress_def shard_claim.table_step Let_def
      split: split_result)

lemma startShard_progress: "db_progress d (snd (startShard now i again miss d))"
proof -
  obtain x d1 where c: "claim_shard now i again miss d = (x, d1)" by fastforce
  then have "db_progress d d1" using claim_shard_progress [of d now i again miss] by simp
  with c show ?thesis
    by (cases x) (auto simp: startShard_def intro: db_progress_trans mark_run_running_progress)
qed

lemma aggregateRun_progress:
  assumes "aggregateRun now i d = Inr d'"
  shows "db_progress d d'"
  using assms run_aggregate.table_step [of "db_runs d" i now _ "shards_of i d"]
  by (auto simp add: aggregateRun_def Let_def db_progress_def split: split_result)

lemma barrier_progress: "barrier now i d = Inr d' \<Longrightarrow> db_progress d d'"
  by (auto simp: barrier_def intro: aggregateRun_progress split: if_splits)

lemma finishShard_progress:
  assumes "table_progress sh_id sh_status (db_shards d)
      (upd_where (\<lambda>s. sh_id s = i \<and> g s) f (db_shards d))"
  shows "db_progress d (snd (finishShard now i g f miss d))"
proof -
  let ?d = "d\<lparr>db_shards := upd_where (\<lambda>s. sh_id s = i \<and> g s) f (db_shards d)\<rparr>"
  have p: "db_progress d ?d" using assms by (simp add: db_progress_def)
  have "db_progress d d'" if "barrier now k ?d = Inr d'" for k d'
    using p barrier_progress [OF that] by (rule db_progress_trans)
  then show ?thesis
    by (simp add: finishShard_def update_by_id_def split: option.split sum.split)
qed

lemma CompleteShard_progress:
  assumes "outcome_text (cs_Status req)"
  shows "db_progress d (snd (CompleteShard now i req d))"
proof -
  obtain st where st: "shard_status_of (cs_Status req) = Some st" "terminal st"
    using outcome_status [OF assms] by blast
  have "table_progress sh_id sh_status (db_shards d)
      (upd_where (\<lambda>s. sh_id s = i \<and> sh_status s = Running) (set_shard_outcome now st req) (db_shards d))"
    using shard_complete.table_step [of "db_shards d" i st now req] st(2) by simp
  from finishShard_progress [OF this] show ?thesis
    using st(1) by (simp add: CompleteShard_def)
qed

lemma FailShard_progress: "db_progress d (snd (FailShard now i reason d))"
  unfolding FailShard_def using finishShard_progress [OF shard_fail.table_step] by simp

lemma oldest_queued_in:
  "oldest_queued d = Some q \<Longrightarrow> q \<in> set (db_runs d) \<and> tr_Status q = Queued"
proof -
  assume "oldest_queued d = Some q"
  then have "q \<in> set (sort_key tr_CreatedAt (filter (\<lambda>r. tr_Status r = Queued) (db_runs d)))"
    unfolding oldest_queued_def query_row_def by (auto split: list.splits simp del: set_sort)
  then show ?thesis by auto
qed

lemma ClaimNext_progress:
  assumes "distinct (map tr_ID (db_runs d))"
  shows "db_progress d (snd (ClaimNext now d))"
proof (cases "oldest_queued d")
  case (Some q)
  have "upd_where (\<lambda>r. tr_ID r = tr_ID q) (set_running now) (db_runs d) =
      upd_where (\<lambda>r. tr_ID r = tr_ID q \<and> tr_Status r = Queued) (set_running now) (db_runs d)"
    by (rule upd_where_cong)
      (use oldest_queued_in [OF Some] assms in \<open>auto simp: distinct_map dest: inj_onD\<close>)
  then show ?thesis using Some run_start.table_step [of "db_runs d" "tr_ID q" now]
    by (simp add: ClaimNext_def update_by_id_def db_progress_def split: split_result)
qed (simp add: ClaimNext_def)

text \<open>Every call of the store that the handlers let through makes progress.\<close>

lemma run_call_progress:
  assumes "distinct (map tr_ID (db_runs d))" and "valid_call c"
  shows "db_progress d (run_call now c d)"
  using assms
  by (cases c)
    (simp_all add: Create_progress CreateWithShards_progress ClaimNext_progress StartByID_progress
      TakeOver_progress Fail_progress Complete_progress CancelRun_progress StartShard_def
      TakeOverShard_def startShard_progress claim_shard_progress mark_run_running_progress
      CompleteShard_progress
      FailShard_progress)

end
