(* ===== verification/Store_Invariant.thy ===== *)
theory Store_Invariant
  imports Run_Lifecycle
begin

section \<open>Well-formed tables\<close>

text \<open>
  What the schema and the code together keep of the two tables: primary keys are unique and
  below their sequences, a shard belongs to a run (the foreign key), a shard's status is one
  its CHECK constraint admits, and a run's shards are numbered from 0 to its shard count.
  Every operation of the store keeps it, so it holds in every reachable state; and in
  every reachable state a finished run or shard is frozen.
\<close>

definition shard_status_ok :: "run_status \<Rightarrow> bool" where
  "shard_status_ok s \<longleftrightarrow> s \<in> {Queued, Running, Completed, Failed}"

definition wf_db :: "db \<Rightarrow> bool" where
  "wf_db d \<longleftrightarrow>
     distinct (map tr_ID (db_runs d)) \<and> (\<forall>r \<in> set (db_runs d). tr_ID r < db_next_run d) \<and>
     distinct (map sh_id (db_shards d)) \<and> (\<forall>s \<in> set (db_shards d). sh_id s < db_next_shard d) \<and>
     (\<forall>s \<in> set (db_shards d). sh_run_id s \<in> set (map tr_ID (db_runs d))) \<and>
     (\<forall>s \<in> set (db_shards d). shard_status_ok (sh_status s)) \<and>
     (\<forall>r \<in> set (db_runs d). shards_of (tr_ID r) d = [] \<or>
        map sh_shard_index (shards_of (tr_ID r) d) = map int [0..<nat (tr_ShardCount r)])"

subsection \<open>Updates keep the shape of the tables\<close>

definition run_ident :: "run_row \<Rightarrow> int \<times> int" where
  "run_ident r = (tr_ID r, tr_ShardCount r)"

definition shard_ident :: "shard_row \<Rightarrow> int \<times> int \<times> int \<times> int" where
  "shard_ident s = (sh_id s, sh_run_id s, sh_shard_index s, sh_virtual_users s)"

definition same_shape :: "db \<Rightarrow> db \<Rightarrow> bool" where
  "same_shape d d' \<longleftrightarrow>
     map run_ident (db_runs d') = map run_ident (db_runs d) \<and>
     map shard_ident (db_shards d') = map shard_ident (db_shards d) \<and>
     db_next_run d' = db_next_run d \<and> db_next_shard d' = db_next_shard d \<and>
     ((\<forall>s \<in> set (db_shards d). shard_status_ok (sh_status s)) \<longrightarrow>
      (\<forall>s \<in> set (db_shards d'). shard_status_ok (sh_status s)))"

lemma same_shape_refl [simp]: "same_shape d d"
  by (simp add: same_shape_def)

lemma same_shape_trans: "same_shape a b \<Longrightarrow> same_shape b c \<Longrightarrow> same_shape a c"
  by (simp add: same_shape_def)

lemma map_ident:
  "map run_ident rs' = map run_ident rs \<Longrightarrow> map tr_ID rs' = map tr_ID rs"
  "map shard_ident ss' = map shard_ident ss \<Longrightarrow> map sh_id ss' = map sh_id ss"
  "map shard_ident ss' = map shard_ident ss \<Longrightarrow> map sh_run_id ss' = map sh_run_id ss"
proof -
  show "map tr_ID rs' = map tr_ID rs" if "map run_ident rs' = map run_ident rs"
    using arg_cong [OF that, of "map fst"] by (simp add: comp_def run_ident_def)
  show "map sh_id ss' = map sh_id ss" if "map shard_ident ss' = map shard_ident ss"
    using arg_cong [OF that, of "map fst"] by (simp add: comp_def shard_ident_def)
  show "map sh_run_id ss' = map sh_run_id ss" if "map shard_ident ss' = map shard_ident ss"
    using arg_cong [OF that, of "map (\<lambda>(_, r, _). r)"] by (simp add: comp_def shard_ident_def)
qed

lemma indices_of_idents:
  "map sh_shard_index (shards_of i d) =
     map (\<lambda>(_, _, x, _). x) (filter (\<lambda>(_, r, _). r = i) (map shard_ident (db_shards d)))"
  by (simp add: shards_of_def filter_map comp_def shard_ident_def)

lemma same_shape_shards_of:
  assumes "same_shape d d'"
  shows "map sh_shard_index (shards_of i d') = map sh_shard_index (shards_of i d)"
    and "shards_of i d' = [] \<longleftrightarrow> shards_of i d = []"
proof -
  show e: "map sh_shard_index (shards_of i d') = map sh_shard_index (shards_of i d)"
    using assms by (simp add: indices_of_idents same_shape_def)
  show "shards_of i d' = [] \<longleftrightarrow> shards_of i d = []"
    using arg_cong [OF e, of "\<lambda>xs. xs = []"] by simp
qed

lemma wf_same_shape:
  assumes wf: "wf_db d" and same: "same_shape d d'"
  shows "wf_db d'"
proof -
  have ids: "map tr_ID (db_runs d') = map tr_ID (db_runs d)"
    "map sh_id (db_shards d') = map sh_id (db_shards d)"
    "map sh_run_id (db_shards d') = map sh_run_id (db_shards d)"
    using same unfolding same_shape_def by (intro map_ident; blast)+
  have sets: "(\<forall>s \<in> set (db_shards e). sh_run_id s \<in> A) = (set (map sh_run_id (db_shards e)) \<subseteq> A)"
    "(\<forall>s \<in> set (db_shards e). sh_id s < n) = (\<forall>x \<in> set (map sh_id (db_shards e)). x < n)"
    "(\<forall>r \<in> set (db_runs e). tr_ID r < n) = (\<forall>x \<in> set (map tr_ID (db_runs e)). x < n)" for e A n
    by auto
  have idx: "(\<forall>r \<in> set (db_runs e). shards_of (tr_ID r) f = [] \<or>
        map sh_shard_index (shards_of (tr_ID r) f) = map int [0..<nat (tr_ShardCount r)]) =
      (\<forall>(i, n) \<in> set (map run_ident (db_runs e)). shards_of i f = [] \<or>
        map sh_shard_index (shards_of i f) = map int [0..<nat n])" for e f
    by (auto simp: run_ident_def)
  have st: "\<forall>s \<in> set (db_shards d'). shard_status_ok (sh_status s)"
    using wf same by (simp add: wf_db_def same_shape_def)
  have nx: "db_next_run d' = db_next_run d" "db_next_shard d' = db_next_shard d"
    "map run_ident (db_runs d') = map run_ident (db_runs d)"
    using same by (simp_all add: same_shape_def)
  show ?thesis
    using wf unfolding wf_db_def sets idx
    by (simp only: ids nx same_shape_shards_of [OF same]) (use st in blast)
qed

lemma map_upd_where:
  "(\<And>r. P r \<Longrightarrow> g (f r) = g r) \<Longrightarrow> map g (upd_where P f t) = map g t"
  by (simp add: upd_where_def)

lemma same_shape_runs:
  assumes "\<And>r. P r \<Longrightarrow> run_ident (f r) = run_ident r"
  shows "same_shape d (d\<lparr>db_runs := upd_where P f (db_runs d)\<rparr>)"
  using map_upd_where [of P run_ident f, OF assms] by (simp add: same_shape_def)

lemma same_shape_shards:
  assumes "\<And>s. P s \<Longrightarrow> shard_ident (f s) = shard_ident s \<and> shard_status_ok (sh_status (f s))"
  shows "same_shape d (d\<lparr>db_shards := upd_where P f (db_shards d)\<rparr>)"
  using map_upd_where [of P shard_ident f] assms by (auto simp: same_shape_def set_upd_where)

lemma ident_simps [simp]:
  "run_ident (set_running now r) = run_ident r"
  "run_ident (set_failed now m r) = run_ident r"
  "run_ident (set_outcome now st req r) = run_ident r"
  "run_ident (set_cancelling r) = run_ident r"
  "run_ident (set_aggregate now c ss r) = run_ident r"
  "shard_ident (set_shard_running now s) = shard_ident s"
  "shard_ident (set_shard_outcome now st sreq s) = shard_ident s"
  "shard_ident (set_shard_failed now m s) = shard_ident s"
  by (simp_all add: set_defs run_ident_def shard_ident_def row_simps)

lemma status_ok_simps [simp]:
  "shard_status_ok (sh_status (set_shard_running now s))"
  "sh_status (set_shard_outcome now st sreq s) = st"
  "shard_status_ok (sh_status (set_shard_failed now m s))"
  by (simp_all add: set_defs shard_status_ok_def)

subsection \<open>Which operations keep it\<close>

lemma shape_run_ops:
  "same_shape d (snd (ClaimNext now d))"
  "same_shape d (snd (StartByID now i d))"
  "same_shape d (snd (TakeOver now i d))"
  "same_shape d (snd (Fail now i reason d))"
  "same_shape d (snd (Complete now i req d))"
  "same_shape d (snd (CancelRun i d))"
  "same_shape d (mark_run_running now i d)"
  by (simp_all add: ClaimNext_def StartByID_def TakeOver_def Fail_def Complete_def CancelRun_def
      mark_run_running_def update_by_id_def same_shape_runs split: split_result)

lemma shape_claim_shard: "same_shape d (snd (claim_shard now i again miss d))"
  by (simp add: claim_shard_def update_by_id_def same_shape_shards Let_def split: split_result)

lemma shape_startShard: "same_shape d (snd (startShard now i again miss d))"
proof -
  obtain x d1 where c: "claim_shard now i again miss d = (x, d1)" by fastforce
  then have "same_shape d d1" using shape_claim_shard [of d now i again miss] by simp
  with c show ?thesis
    by (cases x) (auto simp: startShard_def intro: same_shape_trans shape_run_ops(7))
qed

lemma shape_barrier: "barrier now i d = Inr d' \<Longrightarrow> same_shape d d'"
  by (auto simp: barrier_def aggregateRun_def Let_def same_shape_runs split: split_result)

lemma shape_finishShard:
  assumes "\<And>s. shard_ident (f s) = shard_ident s \<and> shard_status_ok (sh_status (f s))"
  shows "same_shape d (snd (finishShard now i g f miss d))"
proof -
  let ?d = "d\<lparr>db_shards := upd_where (\<lambda>s. sh_id s = i \<and> g s) f (db_shards d)\<rparr>"
  have p: "same_shape d ?d" using assms by (intro same_shape_shards) simp
  have "same_shape d d'" if "barrier now k ?d = Inr d'" for k d'
    using p shape_barrier [OF that] by (rule same_shape_trans)
  then show ?thesis
    by (simp add: finishShard_def update_by_id_def split: option.split sum.split)
qed

lemma shard_status_of_ok: "shard_status_of t = Some st \<Longrightarrow> shard_status_ok st"
  by (auto simp: shard_status_of_def shard_status_ok_def split: option.splits if_splits)

lemma shape_CompleteShard: "same_shape d (snd (CompleteShard now i req d))"
  using shape_finishShard [of "set_shard_outcome now _ req" d now i]
  by (simp add: CompleteShard_def shard_status_of_ok split: option.split)

lemma shape_FailShard: "same_shape d (snd (FailShard now i reason d))"
  unfolding FailShard_def by (simp add: shape_finishShard)

subsection \<open>Creating runs keeps it\<close>

lemma wf_new_run:
  assumes wf: "wf_db d" and r: "tr_ID r = db_next_run d"
  shows "wf_db (d\<lparr>db_next_run := db_next_run d + 1, db_runs := db_runs d @ [r]\<rparr>)"
proof -
  have fresh: "sh_run_id s \<noteq> tr_ID r" if s: "s \<in> set (db_shards d)" for s
  proof -
    obtain r' where "r' \<in> set (db_runs d)" "sh_run_id s = tr_ID r'"
      using wf s by (auto simp: wf_db_def)
    moreover from this have "tr_ID r' < db_next_run d" using wf by (simp add: wf_db_def)
    ultimately show ?thesis using r by simp
  qed
  then have "shards_of (tr_ID r) d = []" by (simp add: shards_of_def filter_empty_conv)
  then show ?thesis using wf r unfolding wf_db_def shards_of_def
    by (auto simp: less_le_not_le intro: add_increasing2)
qed

lemma wf_fresh_run: "wf_db d \<Longrightarrow> shards_of (db_next_run d) d = []"
  by (force simp: wf_db_def shards_of_def filter_empty_conv)

text \<open>What the insert loop appends: one queued row per entry, numbered from \<open>k\<close>.\<close>

fun shard_rows :: "time \<Rightarrow> int \<Rightarrow> int \<Rightarrow> int \<Rightarrow> int list \<Rightarrow> shard_row list" where
  "shard_rows now run_id sid k [] = []"
| "shard_rows now run_id sid k (v # vs) =
     new_shard_row sid now run_id k v # shard_rows now run_id (sid + 1) (k + 1) vs"

lemma insert_shards_Inr:
  assumes "insert_shards now i k vus d = (Inr ids, d')"
  shows "d' = d\<lparr>db_next_shard := db_next_shard d + int (length vus),
                db_shards := db_shards d @ shard_rows now i (db_next_shard d) k vus\<rparr> \<and>
         ids = map sh_id (shard_rows now i (db_next_shard d) k vus) \<and> (\<forall>v \<in> set vus. 0 < v)"
  using assms
proof (induction now i k vus d arbitrary: ids d' rule: insert_shards.induct)
  case (2 now i k v rest d)
  have ok: "int4_ok k \<and> int4_ok v \<and> 0 < v"
    using "2.prems" by (auto simp: Let_def split: if_splits)
  let ?d = "d\<lparr>db_next_shard := db_next_shard d + 1,
      db_shards := db_shards d @ [new_shard_row (db_next_shard d) now i k v]\<rparr>"
  obtain ids1 where r: "insert_shards now i (k + 1) rest ?d = (Inr ids1, d')"
    and ids: "ids = db_next_shard d # ids1"
    using "2.prems" ok by (auto simp: Let_def split: sum.splits prod.splits)
  show ?case
    using "2.IH" [OF refl refl ok r] ok ids
    by (simp add: new_shard_row_def algebra_simps)
qed simp

lemma shard_rows_nth:
  "n < length vs \<Longrightarrow> shard_rows now i sid k vs ! n = new_shard_row (sid + int n) now i (k + int n) (vs ! n)"
  by (induction now i sid k vs arbitrary: n rule: shard_rows.induct)
    (auto simp: nth_Cons algebra_simps split: nat.splits)

lemma length_shard_rows [simp]: "length (shard_rows now i sid k vs) = length vs"
  by (induction now i sid k vs rule: shard_rows.induct) auto

lemma shard_rows_conv:
  "shard_rows now i sid k vs =
     map (\<lambda>n. new_shard_row (sid + int n) now i (k + int n) (vs ! n)) [0..<length vs]"
  by (rule nth_equalityI) (simp_all add: shard_rows_nth)

lemma wf_new_shards:
  assumes wf: "wf_db d" and run: "r \<in> set (db_runs d)"
    and none: "shards_of (tr_ID r) d = []" and n: "tr_ShardCount r = int (length vus)"
  shows "wf_db (d\<lparr>db_next_shard := db_next_shard d + int (length vus),
      db_shards := db_shards d @ shard_rows now (tr_ID r) (db_next_shard d) 0 vus\<rparr>)"
    (is "wf_db ?d")
proof -
  let ?new = "shard_rows now (tr_ID r) (db_next_shard d) 0 vus"
  have new: "sh_run_id s = tr_ID r \<and> db_next_shard d \<le> sh_id s \<and>
      sh_id s < db_next_shard d + int (length vus) \<and> sh_status s = Queued"
    if "s \<in> set ?new" for s
    using that by (auto simp: shard_rows_conv new_shard_row_def)
  have dist: "distinct (map sh_id ?new)"
    by (auto simp: shard_rows_conv new_shard_row_def comp_def distinct_map inj_on_def)
  have idx: "map sh_shard_index ?new = map int [0..<length vus]"
    by (simp add: shard_rows_conv new_shard_row_def comp_def)
  have here: "shards_of (tr_ID r) ?d = ?new"
    using none new by (simp add: shards_of_def filter_empty_conv)
  have there: "shards_of i ?d = shards_of i d" if "i \<noteq> tr_ID r" for i
    using new that by (auto simp: shards_of_def filter_empty_conv)
  have count: "tr_ShardCount r' = int (length vus)"
    if "r' \<in> set (db_runs d)" "tr_ID r' = tr_ID r" for r'
    using wf run that n by (auto simp: wf_db_def distinct_map dest: inj_onD)
  have "shards_of (tr_ID r') ?d = [] \<or>
      map sh_shard_index (shards_of (tr_ID r') ?d) = map int [0..<nat (tr_ShardCount r')]"
    if "r' \<in> set (db_runs d)" for r'
  proof (cases "tr_ID r' = tr_ID r")
    case True
    then show ?thesis using here idx count [OF that True] by simp
  next
    case False
    then show ?thesis using there [OF False] wf that unfolding wf_db_def by simp
  qed
  moreover have "sh_id s < db_next_shard d + int (length vus)" if "s \<in> set (db_shards d)" for s
    using wf that by (force simp: wf_db_def)
  moreover have "sh_id s \<noteq> sh_id s'" if "s \<in> set (db_shards d)" "s' \<in> set ?new" for s s'
    using wf that(1) new [OF that(2)] by (force simp: wf_db_def)
  ultimately show ?thesis
    using wf run new dist by (auto simp: wf_db_def shard_status_ok_def)
qed

lemma wf_rollback:
  assumes "wf_db d" and "db_next_run d \<le> db_next_run d'" and "db_next_shard d \<le> db_next_shard d'"
  shows "wf_db (rollback d d')"
proof -
  have "\<forall>r \<in> set (db_runs d). tr_ID r < db_next_run d'"
    "\<forall>s \<in> set (db_shards d). sh_id s < db_next_shard d'"
    using assms by (force simp: wf_db_def)+
  then show ?thesis using assms(1) by (simp add: wf_db_def rollback_def shards_of_def)
qed

lemma insert_shards_seq:
  "insert_shards now i k vus d = (x, d') \<Longrightarrow>
     db_next_shard d \<le> db_next_shard d' \<and> db_next_run d' = db_next_run d"
proof (induction now i k vus d arbitrary: x d' rule: insert_shards.induct)
  case (2 now i k v rest d)
  let ?d = "d\<lparr>db_next_shard := db_next_shard d + 1,
      db_shards := db_shards d @ [new_shard_row (db_next_shard d) now i k v]\<rparr>"
  obtain y d'' where y: "insert_shards now i (k + 1) rest ?d = (y, d'')" by fastforce
  show ?case
  proof (cases "int4_ok k \<and> int4_ok v \<and> 0 < v")
    case True
    have "d' = d''" using 2(2) True y by (auto simp: Let_def split: sum.splits)
    then show ?thesis using "2.IH" [OF refl refl True y] by simp
  qed (use 2(2) in \<open>auto simp: Let_def\<close>)
qed simp

lemma wf_Create:
  assumes "wf_db d"
  shows "wf_db (snd (Create now req d))"
proof -
  let ?row = "new_run_row (db_next_run d) now req 1 None None 0"
  have "wf_db (d\<lparr>db_next_run := db_next_run d + 1, db_runs := db_runs d @ [?row]\<rparr>)"
    by (rule wf_new_run [OF assms]) (simp add: new_run_row_def)
  moreover have "wf_db (d\<lparr>db_next_run := db_next_run d + 1\<rparr>)"
    using wf_rollback [OF assms, of "d\<lparr>db_next_run := db_next_run d + 1\<rparr>"]
    by (simp add: rollback_def)
  ultimately show ?thesis
    by (simp add: Create_def insert_run_def Let_def)
qed

lemma insert_run_cases:
  assumes "insert_run r d = (x, d1)"
  shows "x = Inr r \<and> run_row_ok r \<and>
      d1 = d\<lparr>db_next_run := db_next_run d + 1, db_runs := db_runs d @ [r]\<rparr> \<or>
    x = Inl (DbError ''insert run'') \<and> d1 = d\<lparr>db_next_run := db_next_run d + 1\<rparr>"
  using assms by (auto simp: insert_run_def Let_def split: if_splits)

text \<open>The row a sharded run starts as.\<close>

definition sharded_row :: "time \<Rightarrow> create_request \<Rightarrow> int list \<Rightarrow> int \<Rightarrow> run_row" where
  "sharded_row now req vus i =
     new_run_row i now req (int (length vus)) (if cr_Headers req = [] then None else Some (cr_Headers req))
       (if cr_Body req = [] then None else Some (cr_Body req)) (cr_ThinkTimeMs req)"

text \<open>The transaction either fails and leaves the tables, or appends the run with its shards.\<close>

lemma CreateWithShards_cases:
  assumes "CreateWithShards now req vus d = (x, d')"
  obtains (failed) e d1 where "x = Inl e" "d' = rollback d d1"
      "db_next_run d \<le> db_next_run d1" "db_next_shard d \<le> db_next_shard d1"
  | (created) "x = Inr (scanRow (sharded_row now req vus (db_next_run d)),
        map sh_id (shard_rows now (db_next_run d) (db_next_shard d) 0 vus))"
      "\<forall>v \<in> set vus. 0 < v" "run_row_ok (sharded_row now req vus (db_next_run d))"
      "d' = d\<lparr>db_next_run := db_next_run d + 1,
         db_runs := db_runs d @ [sharded_row now req vus (db_next_run d)],
         db_next_shard := db_next_shard d + int (length vus),
         db_shards := db_shards d @ shard_rows now (db_next_run d) (db_next_shard d) 0 vus\<rparr>"
proof -
  let ?row = "sharded_row now req vus (db_next_run d)"
  obtain y d1 where ins: "insert_run ?row d = (y, d1)" by fastforce
  have id: "tr_ID ?row = db_next_run d" by (simp add: sharded_row_def new_run_row_def)
  note C = assms [unfolded CreateWithShards_def Let_def sharded_row_def [symmetric]]
  from insert_run_cases [OF ins] show thesis
  proof (elim disjE conjE)
    assume y: "y = Inr ?row" and ok: "run_row_ok ?row"
      and d1: "d1 = d\<lparr>db_next_run := db_next_run d + 1, db_runs := db_runs d @ [?row]\<rparr>"
    obtain z d2 where sh: "insert_shards now (db_next_run d) 0 vus d1 = (z, d2)" by fastforce
    show thesis
    proof (cases z)
      case (Inl e)
      then show thesis using C ins y id sh insert_shards_seq [OF sh] d1
        by (intro failed [of e d2]) simp_all
    next
      case (Inr ids)
      from insert_shards_Inr [OF sh [unfolded Inr]] show thesis
        using C ins y id sh d1 Inr ok by (intro created) simp_all
    qed
  next
    assume "y = Inl (DbError ''insert run'')" and "d1 = d\<lparr>db_next_run := db_next_run d + 1\<rparr>"
    then show thesis using C ins by (intro failed [of "DbError ''insert run''" d1]) simp_all
  qed
qed

lemma sharded_row_simps [simp]:
  "tr_ID (sharded_row now req vus i) = i"
  "tr_ShardCount (sharded_row now req vus i) = int (length vus)"
  "tr_Status (sharded_row now req vus i) = Queued"
  by (simp_all add: sharded_row_def new_run_row_def)

lemma wf_CreateWithShards:
  assumes wf: "wf_db d"
  shows "wf_db (snd (CreateWithShards now req vus d))"
proof -
  obtain x d' where C: "CreateWithShards now req vus d = (x, d')" by fastforce
  then show ?thesis
  proof (cases rule: CreateWithShards_cases)
    case (failed e d1)
    then show ?thesis using C wf_rollback [OF wf] by simp
  next
    case created
    let ?row = "sharded_row now req vus (db_next_run d)"
    let ?d = "d\<lparr>db_next_run := db_next_run d + 1, db_runs := db_runs d @ [?row]\<rparr>"
    have "wf_db ?d" by (rule wf_new_run [OF wf]) simp
    moreover have "shards_of (tr_ID ?row) ?d = []"
      using wf_fresh_run [OF wf] by (simp add: shards_of_def)
    ultimately show ?thesis
      using C created wf_new_shards [of ?d ?row vus now] by simp
  qed
qed

lemma run_call_wf: "wf_db d \<Longrightarrow> wf_db (run_call now c d)"
  by (cases c)
    (auto simp: StartShard_def TakeOverShard_def
      intro: wf_Create wf_CreateWithShards wf_same_shape shape_run_ops shape_startShard
        shape_claim_shard shape_CompleteShard shape_FailShard)

lemma shape_call: "\<not> creates c \<Longrightarrow> same_shape d (run_call now c d)"
  by (cases c)
    (simp_all add: StartShard_def TakeOverShard_def shape_run_ops shape_startShard shape_claim_shard
      shape_CompleteShard shape_FailShard)

lemma wf_empty: "wf_db empty_db"
  by (simp add: wf_db_def empty_db_def)

lemma store_reach_wf: "store_reach d \<Longrightarrow> wf_db d"
  by (induction rule: store_reach.induct) (simp_all add: wf_empty run_call_wf)

lemma store_reach_progress:
  "store_reach d \<Longrightarrow> valid_call c \<Longrightarrow> db_progress d (run_call now c d)"
  using store_reach_wf [of d] by (intro run_call_progress) (simp_all add: wf_db_def)

end
