(* ===== verification/Shard_Barrier.thy ===== *)
theory Shard_Barrier
  imports Store_Invariant
begin

section \<open>The completion barrier\<close>

text \<open>
  A sharded run ends when its last shard ends: \<open>finishShard\<close> counts the run's unfinished
  shards and aggregates when none is left. This theory proves that the barrier works for
  every sequence of store operations: as long as a run is not terminal, one of its shards is
  still outstanding. The one sequence that breaks it is made explicit as well: a dead-letter
  that fails the last outstanding shard of a run nobody has started.
\<close>

subsection \<open>The invariant\<close>

definition settled :: "db \<Rightarrow> bool" where
  "settled d \<longleftrightarrow>
     (\<forall>r \<in> set (db_runs d).
        shards_of (tr_ID r) d \<noteq> [] \<and> remaining (tr_ID r) d = 0 \<longrightarrow> terminal (tr_Status r))"

definition started :: "db \<Rightarrow> bool" where
  "started d \<longleftrightarrow>
     (\<forall>r \<in> set (db_runs d). tr_Status r = Queued \<longrightarrow>
        (\<forall>s \<in> set (shards_of (tr_ID r) d). sh_status s \<noteq> Running))"

definition barrier_inv :: "db \<Rightarrow> bool" where
  "barrier_inv d \<longleftrightarrow> wf_db d \<and> started d \<and> settled d"

text \<open>
  A dead-letter strands a run when it hits the last outstanding shard of a run that is
  still queued: \<open>aggregateRun\<close> updates only a running or cancelling run.
\<close>

fun strands :: "store_call \<Rightarrow> db \<Rightarrow> bool" where
  "strands (CallFailShard i reason) d =
     (case find_shard i d of
        None \<Rightarrow> False
      | Some s \<Rightarrow>
          (case find_run (sh_run_id s) d of
             None \<Rightarrow> False
           | Some r \<Rightarrow> tr_Status r = Queued \<and>
               list_all (\<lambda>s'. sh_id s' = i \<or> \<not> outstanding_status (sh_status s'))
                 (shards_of (sh_run_id s) d)))"
| "strands (CallStartShardHalf again i) d = True"
| "strands _ d = False"

inductive clean_reach :: "db \<Rightarrow> bool" where
  empty: "clean_reach empty_db"
| call: "clean_reach d \<Longrightarrow> valid_call c \<Longrightarrow> \<not> strands c d \<Longrightarrow> clean_reach (run_call now c d)"

subsection \<open>Rows and counts\<close>

lemma remaining_0: "remaining i d = 0 \<longleftrightarrow> (\<forall>s \<in> set (shards_of i d). \<not> outstanding_status (sh_status s))"
  by (auto simp: remaining_def filter_empty_conv outstanding_status_def)

lemma shards_of_cong: "db_shards d' = db_shards d \<Longrightarrow> shards_of i d' = shards_of i d"
  by (simp add: shards_of_def)

lemma remaining_cong: "db_shards d' = db_shards d \<Longrightarrow> remaining i d' = remaining i d"
  by (simp add: remaining_def shards_of_def)

lemma set_shards_of: "s \<in> set (shards_of k d) \<longleftrightarrow> s \<in> set (db_shards d) \<and> sh_run_id s = k"
  by (auto simp: shards_of_def)

lemma find_run_mem: "find_run i d = Some r \<Longrightarrow> r \<in> set (db_runs d) \<and> tr_ID r = i"
  by (auto simp: find_run_def find_Some_iff)

lemma find_shard_mem: "find_shard i d = Some s \<Longrightarrow> s \<in> set (db_shards d) \<and> sh_id s = i"
  by (auto simp: find_shard_def find_Some_iff)

lemma find_unique:
  assumes "distinct (map key t)" and "x \<in> set t"
  shows "List.find (\<lambda>y. key y = key x) t = Some x"
proof -
  have "List.find (\<lambda>y. key y = key x) t \<noteq> None" using assms(2) by (auto simp: find_None_iff)
  then obtain y where y: "List.find (\<lambda>y. key y = key x) t = Some y" by blast
  then have "y \<in> set t" "key y = key x" by (auto simp: find_Some_iff)
  then have "y = x" using assms by (auto simp: distinct_map dest: inj_onD)
  with y show ?thesis by simp
qed

lemma wf_find_run: "wf_db d \<Longrightarrow> r \<in> set (db_runs d) \<Longrightarrow> find_run (tr_ID r) d = Some r"
  by (simp add: wf_db_def find_run_def find_unique)

lemma wf_find_shard: "wf_db d \<Longrightarrow> s \<in> set (db_shards d) \<Longrightarrow> find_shard (sh_id s) d = Some s"
  by (simp add: wf_db_def find_shard_def find_unique)

lemma wf_shard_run:
  "wf_db d \<Longrightarrow> s \<in> set (db_shards d) \<Longrightarrow> \<exists>r. find_run (sh_run_id s) d = Some r"
proof -
  assume wf: "wf_db d" and s: "s \<in> set (db_shards d)"
  then obtain r where "r \<in> set (db_runs d)" "tr_ID r = sh_run_id s"
    unfolding wf_db_def by (metis imageE list.set_map)
  then show ?thesis using wf_find_run [OF wf] by metis
qed

definition rows_from :: "db \<Rightarrow> db \<Rightarrow> bool" where
  "rows_from d d' \<longleftrightarrow>
     (\<forall>r' \<in> set (db_runs d'). \<exists>r \<in> set (db_runs d). row_progress tr_ID tr_Status r r')"

lemma progress_rows_from:
  assumes "db_progress d d'" and "same_shape d d'"
  shows "rows_from d d'"
proof -
  obtain u v where uv: "db_runs d' = u @ v" "list_all2 (row_progress tr_ID tr_Status) (db_runs d) u"
    using assms(1) by (auto simp: db_progress_def table_progress_def)
  have "length (db_runs d') = length (db_runs d)"
    using assms(2) unfolding same_shape_def by (metis length_map)
  with uv have "v = []" by (auto dest: list_all2_lengthD)
  with uv have *: "list_all2 (row_progress tr_ID tr_Status) (db_runs d) (db_runs d')" by simp
  show ?thesis unfolding rows_from_def
    by (metis * in_set_conv_nth list_all2_conv_all_nth)
qed

lemma settled_step:
  assumes "settled d" and "rows_from d d'"
    and "\<And>r'. r' \<in> set (db_runs d') \<Longrightarrow> shards_of (tr_ID r') d' \<noteq> [] \<Longrightarrow> remaining (tr_ID r') d' = 0 \<Longrightarrow>
      terminal (tr_Status r') \<or> (shards_of (tr_ID r') d \<noteq> [] \<and> remaining (tr_ID r') d = 0)"
  shows "settled d'"
  unfolding settled_def
proof (intro ballI impI, elim conjE)
  fix r' assume r': "r' \<in> set (db_runs d')" "shards_of (tr_ID r') d' \<noteq> []" "remaining (tr_ID r') d' = 0"
  obtain r where r: "r \<in> set (db_runs d)" "row_progress tr_ID tr_Status r r'"
    using assms(2) r'(1) by (auto simp: rows_from_def)
  from assms(3) [OF r'] show "terminal (tr_Status r')"
    using assms(1) r by (auto simp: settled_def row_progress_def)
qed

lemma started_step:
  assumes "started d" and "rows_from d d'"
    and "\<And>r' s'. r' \<in> set (db_runs d') \<Longrightarrow> s' \<in> set (shards_of (tr_ID r') d') \<Longrightarrow>
      sh_status s' = Running \<Longrightarrow>
      tr_Status r' \<noteq> Queued \<or> (\<exists>s \<in> set (shards_of (tr_ID r') d). sh_status s = Running)"
  shows "started d'"
  unfolding started_def
proof (intro ballI impI)
  fix r' s' assume r': "r' \<in> set (db_runs d')" "tr_Status r' = Queued" "s' \<in> set (shards_of (tr_ID r') d')"
  obtain r where r: "r \<in> set (db_runs d)" "row_progress tr_ID tr_Status r r'"
    using assms(2) r'(1) by (auto simp: rows_from_def)
  then have "tr_Status r = Queued" "tr_ID r = tr_ID r'"
    using r'(2) by (cases "tr_Status r"; auto simp: row_progress_def less_eq_run_status_def)+
  with assms(1) r(1) show "sh_status s' \<noteq> Running"
    using assms(3) [OF r'(1,3)] r'(2) by (auto simp: started_def)
qed

lemma barrier_inv_runs:
  assumes inv: "barrier_inv d" and p: "db_progress d d'" and sh: "same_shape d d'"
    and same: "db_shards d' = db_shards d"
  shows "barrier_inv d'"
proof -
  have rf: "rows_from d d'" using p sh by (rule progress_rows_from)
  note cong = shards_of_cong [OF same] remaining_cong [OF same]
  have "settled d'" using inv
    by (intro settled_step [OF _ rf]) (auto simp: barrier_inv_def cong)
  moreover have "started d'" using inv
    by (intro started_step [OF _ rf]) (auto simp: barrier_inv_def cong)
  ultimately show ?thesis using inv wf_same_shape [OF _ sh] by (simp add: barrier_inv_def)
qed

subsection \<open>Creating runs\<close>

lemma barrier_inv_new:
  assumes inv: "barrier_inv d" and wf: "wf_db d'"
    and runs: "db_runs d' = db_runs d @ rs" and shards: "db_shards d' = db_shards d @ ss"
    and new: "\<And>r. r \<in> set rs \<Longrightarrow> tr_ID r = db_next_run d"
    and own: "\<And>s. s \<in> set ss \<Longrightarrow> sh_run_id s = db_next_run d \<and> sh_status s = Queued"
  shows "barrier_inv d'"
proof -
  have old: "shards_of (tr_ID r) d' = shards_of (tr_ID r) d" if "r \<in> set (db_runs d)" for r
  proof -
    have "tr_ID r < db_next_run d" using inv that by (simp add: barrier_inv_def wf_db_def)
    then show ?thesis using own by (auto simp: shards_of_def shards filter_empty_conv)
  qed
  have "shards_of (db_next_run d) d = []"
    using inv by (intro wf_fresh_run) (simp add: barrier_inv_def)
  then have fresh: "shards_of (db_next_run d) d' = ss"
    using own by (simp add: shards_of_def shards filter_id_conv)
  have cases: "r \<in> set (db_runs d) \<and> shards_of (tr_ID r) d' = shards_of (tr_ID r) d \<or>
      shards_of (tr_ID r) d' = ss" if "r \<in> set (db_runs d')" for r
    using that old new fresh by (cases "r \<in> set (db_runs d)") (auto simp: runs)
  have "started d'" unfolding started_def
  proof (intro ballI impI)
    fix r s assume r: "r \<in> set (db_runs d')" "tr_Status r = Queued" "s \<in> set (shards_of (tr_ID r) d')"
    from cases [OF r(1)] show "sh_status s \<noteq> Running"
      using inv r(2,3) own by (elim disjE) (auto simp: barrier_inv_def started_def)
  qed
  moreover have "settled d'" unfolding settled_def
  proof (intro ballI impI, elim conjE)
    fix r assume r: "r \<in> set (db_runs d')" "shards_of (tr_ID r) d' \<noteq> []" "remaining (tr_ID r) d' = 0"
    have "shards_of (tr_ID r) d' \<noteq> ss"
    proof
      assume "shards_of (tr_ID r) d' = ss"
      with r(2) obtain s where "s \<in> set ss" "s \<in> set (shards_of (tr_ID r) d')"
        by (metis list.set_intros(1) neq_Nil_conv)
      with own r(3) show False by (auto simp: remaining_0)
    qed
    with cases [OF r(1)] inv r(2,3) show "terminal (tr_Status r)"
      by (auto simp: barrier_inv_def settled_def remaining_def)
  qed
  ultimately show ?thesis using wf by (simp add: barrier_inv_def)
qed

lemma barrier_inv_Create:
  assumes inv: "barrier_inv d"
  shows "barrier_inv (snd (Create now req d))"
proof -
  let ?row = "new_run_row (db_next_run d) now req 1 None None 0"
  have wf: "wf_db (snd (Create now req d))" using inv wf_Create by (simp add: barrier_inv_def)
  obtain x d1 where ins: "insert_run ?row d = (x, d1)" by fastforce
  with wf have wf1: "wf_db d1" by (cases x) (simp_all add: Create_def)
  have "barrier_inv d1"
    using insert_run_cases [OF ins]
    by (intro barrier_inv_new [OF inv wf1, of "if x = Inr ?row then [?row] else []" "[]"])
      (auto simp: new_run_row_def)
  with ins show ?thesis by (cases x) (simp_all add: Create_def)
qed

lemma barrier_inv_CreateWithShards:
  assumes inv: "barrier_inv d"
  shows "barrier_inv (snd (CreateWithShards now req vus d))"
proof -
  obtain x d' where C: "CreateWithShards now req vus d = (x, d')" by fastforce
  have wf: "wf_db d'"
    using inv wf_CreateWithShards [of d now req vus] C by (simp add: barrier_inv_def)
  from C show ?thesis
  proof (cases rule: CreateWithShards_cases)
    case (failed e d1)
    have "barrier_inv d'"
      by (rule barrier_inv_new [OF inv wf, of "[]" "[]"]) (simp_all add: failed rollback_def)
    with C show ?thesis by simp
  next
    case created
    have "barrier_inv d'"
      by (rule barrier_inv_new [OF inv wf, of "[sharded_row now req vus (db_next_run d)]"
            "shard_rows now (db_next_run d) (db_next_shard d) 0 vus"])
        (auto simp: created shard_rows_conv new_shard_row_def)
    with C show ?thesis by simp
  qed
qed

subsection \<open>Starting and finishing shards\<close>

lemma shards_of_upd:
  assumes "\<And>s. P s \<Longrightarrow> sh_run_id (f s) = sh_run_id s"
  shows "shards_of k (d\<lparr>db_shards := upd_where P f (db_shards d)\<rparr>) = upd_where P f (shards_of k d)"
proof -
  have "(\<lambda>s. sh_run_id (if P s then f s else s) = k) = (\<lambda>s. sh_run_id s = k)"
    using assms by auto
  then show ?thesis by (simp add: shards_of_def upd_where_def filter_map comp_def)
qed

lemma claim_shard_Inl: "claim_shard now i again miss d = (Inl e, d') \<Longrightarrow> d' = d"
  by (auto simp: claim_shard_def Let_def split: option.splits prod.splits)

lemma find_set_run_id:
  "query_row (returning P f t) = Some y \<Longrightarrow> \<exists>x \<in> set t. P x \<and> y = f x"
  by (auto simp: query_row_returning find_Some_iff)

lemma claim_shard_Inr:
  assumes "claim_shard now i again miss d = (Inr a, d')"
  obtains s where "s \<in> set (db_shards d)" "sh_id s = i" "shard_guard again s"
    "sa_RunID a = sh_run_id s" "sa_ShardID a = i"
    "d' = d\<lparr>db_shards := upd_where (\<lambda>s. sh_id s = i \<and> shard_guard again s \<and>
       find_run (sh_run_id s) d \<noteq> None) (set_shard_running now) (db_shards d)\<rparr>"
  using assms
  by (auto simp: claim_shard_def update_by_id_def Let_def set_shard_running_def
      split: option.splits dest!: find_set_run_id)

lemma mark_run_running_shards [simp]: "db_shards (mark_run_running now k d) = db_shards d"
  by (simp add: mark_run_running_def)

lemma barrier_inv_startShard:
  assumes inv: "barrier_inv d"
  shows "barrier_inv (snd (startShard now i again miss d))"
proof -
  let ?d' = "snd (startShard now i again miss d)"
  have rf: "rows_from d ?d'" by (rule progress_rows_from [OF startShard_progress shape_startShard])
  have wf: "wf_db d" using inv by (simp add: barrier_inv_def)
  obtain x d1 where c: "claim_shard now i again miss d = (x, d1)" by fastforce
  show ?thesis
  proof (cases x)
    case (Inl e)
    then show ?thesis using c claim_shard_Inl [of now i again miss d e d1] inv
      by (simp add: startShard_def)
  next
    case (Inr a)
    let ?P = "\<lambda>s. sh_id s = i \<and> shard_guard again s \<and> find_run (sh_run_id s) d \<noteq> None"
    from c Inr obtain s where s: "s \<in> set (db_shards d)" "sh_id s = i" "sa_RunID a = sh_run_id s"
      and d1: "d1 = d\<lparr>db_shards := upd_where ?P (set_shard_running now) (db_shards d)\<rparr>"
      by (auto elim: claim_shard_Inr)
    have d': "?d' = mark_run_running now (sa_RunID a) d1" using c Inr by (simp add: startShard_def)
    have sh: "shards_of k ?d' = upd_where ?P (set_shard_running now) (shards_of k d)" for k
      unfolding d' shards_of_cong [OF mark_run_running_shards] d1
      by (rule shards_of_upd) (simp add: set_shard_running_def)
    have "settled ?d'"
    proof (rule settled_step [OF _ rf])
      show "settled d" using inv by (simp add: barrier_inv_def)
      fix r' assume r': "shards_of (tr_ID r') ?d' \<noteq> []" "remaining (tr_ID r') ?d' = 0"
      have "\<not> outstanding_status (sh_status s)" if s: "s \<in> set (shards_of (tr_ID r') d)" for s
      proof -
        have "(if ?P s then set_shard_running now s else s) \<in> set (shards_of (tr_ID r') ?d')"
          unfolding sh set_upd_where using s by blast
        with r'(2) show ?thesis
          by (cases "?P s") (force simp: remaining_0 set_shard_running_def)+
      qed
      with r'(1) show "terminal (tr_Status r') \<or> shards_of (tr_ID r') d \<noteq> [] \<and> remaining (tr_ID r') d = 0"
        by (auto simp: sh remaining_0 upd_where_def)
    qed
    moreover have "started ?d'"
    proof (rule started_step [OF _ rf])
      show "started d" using inv by (simp add: barrier_inv_def)
      fix r' s' assume r': "r' \<in> set (db_runs ?d')" "s' \<in> set (shards_of (tr_ID r') ?d')"
        "sh_status s' = Running"
      show "tr_Status r' \<noteq> Queued \<or> (\<exists>s \<in> set (shards_of (tr_ID r') d). sh_status s = Running)"
      proof (cases "tr_ID r' = sa_RunID a")
        case True
        from r'(1) obtain r where "r' = (if tr_ID r = sa_RunID a \<and> tr_Status r = Queued
            then set_running now r else r)"
          by (auto simp: d' mark_run_running_def set_upd_where)
        with True have "tr_Status r' \<noteq> Queued" by (auto simp: set_running_def split: if_splits)
        then show ?thesis by simp
      next
        case False
        obtain s0 where s0: "s0 \<in> set (shards_of (tr_ID r') d)"
          "s' = (if ?P s0 then set_shard_running now s0 else s0)"
          using r'(2) by (auto simp: sh set_upd_where)
        have "\<not> ?P s0"
          using False s s0(1) wf by (auto simp: wf_db_def set_shards_of distinct_map dest: inj_onD)
        with s0 r'(3) show ?thesis by auto
      qed
    qed
    ultimately show ?thesis
      using wf_same_shape [OF wf shape_startShard] by (simp add: barrier_inv_def)
  qed
qed

lemma barrier_shards: "barrier now k d = Inr d' \<Longrightarrow> db_shards d' = db_shards d"
  by (auto simp: barrier_def aggregateRun_def Let_def split: split_result)

lemma finishShard_cases:
  assumes "finishShard now i g f miss d = (x, d')"
    and "\<And>s. sh_run_id (f s) = sh_run_id s"
  obtains (same) "d' = d"
  | (finished) s where "s \<in> set (db_shards d)" "sh_id s = i" "g s" "x = Inr ()"
    "barrier now (sh_run_id s) (d\<lparr>db_shards := upd_where (\<lambda>s. sh_id s = i \<and> g s) f (db_shards d)\<rparr>)
       = Inr d'"
  using assms
  by (auto simp: finishShard_def update_by_id_def split: option.splits sum.splits
      dest!: find_set_run_id)

text \<open>
  What the barrier does to the run: nothing while a shard is outstanding, the aggregate over
  a running or cancelling run otherwise.
\<close>

lemma barrier_run:
  assumes "barrier now k d = Inr d'" and "r' \<in> set (db_runs d')" and "distinct (map tr_ID (db_runs d))"
  obtains r where "r \<in> set (db_runs d)" "tr_ID r = tr_ID r'"
    "r' = (if tr_ID r = k \<and> remaining k d = 0 \<and> tr_Status r \<in> {Running, Cancelling}
           then set_aggregate now (tr_Status r) (shards_of k d) r else r)"
proof (cases "remaining k d = 0")
  case False
  then show ?thesis using assms that [of r'] by (simp add: barrier_def)
next
  case True
  then obtain run where run: "find_run k d = Some run" and d': "d' = d\<lparr>db_runs :=
      upd_where (\<lambda>r. tr_ID r = k \<and> tr_Status r \<in> {Running, Cancelling})
        (set_aggregate now (tr_Status run) (shards_of k d)) (db_runs d)\<rparr>"
    using assms(1) by (auto simp: barrier_def aggregateRun_def Let_def split: split_result)
  from d' assms(2) obtain r where r: "r \<in> set (db_runs d)"
    "r' = (if tr_ID r = k \<and> tr_Status r \<in> {Running, Cancelling}
       then set_aggregate now (tr_Status run) (shards_of k d) r else r)"
    by (auto simp: set_upd_where)
  have "run = r" if "tr_ID r = k"
    using find_run_mem [OF run] r(1) that assms(3) by (auto simp: distinct_map dest: inj_onD)
  with r True show ?thesis by (intro that [of r]) (auto simp: row_simps)
qed

lemma barrier_inv_finish:
  assumes inv: "barrier_inv d" and fin: "finishShard now i g f miss d = (x, d')"
    and eff: "\<And>s. sh_run_id (f s) = sh_run_id s" "\<And>s. terminal (sh_status (f s))"
    and rf: "rows_from d d'" and shape: "same_shape d d'"
    and live: "\<And>s r. s \<in> set (db_shards d) \<Longrightarrow> sh_id s = i \<Longrightarrow> g s \<Longrightarrow> r \<in> set (db_runs d) \<Longrightarrow>
      tr_ID r = sh_run_id s \<Longrightarrow> tr_Status r = Queued \<Longrightarrow>
      \<exists>s' \<in> set (shards_of (sh_run_id s) d). sh_id s' \<noteq> i \<and> outstanding_status (sh_status s')"
  shows "barrier_inv d'"
  using fin eff(1)
proof (cases rule: finishShard_cases)
  case (finished s)
  let ?P = "\<lambda>s. sh_id s = i \<and> g s"
  let ?d = "d\<lparr>db_shards := upd_where ?P f (db_shards d)\<rparr>"
  have wf: "wf_db d" using inv by (simp add: barrier_inv_def)
  have sh: "shards_of k d' = upd_where ?P f (shards_of k d)" for k
    unfolding shards_of_cong [OF barrier_shards [OF finished(5)]]
    by (rule shards_of_upd) (simp add: eff)
  have rem: "remaining k d' = remaining k ?d" for k
    by (rule remaining_cong [OF barrier_shards [OF finished(5)]])
  have "settled d'"
  proof (rule settled_step [OF _ rf])
    show "settled d" using inv by (simp add: barrier_inv_def)
    fix r' assume r': "r' \<in> set (db_runs d')" "shards_of (tr_ID r') d' \<noteq> []"
      "remaining (tr_ID r') d' = 0"
    obtain r where r: "r \<in> set (db_runs d)" "tr_ID r = tr_ID r'"
      "r' = (if tr_ID r = sh_run_id s \<and> remaining (sh_run_id s) ?d = 0 \<and>
             tr_Status r \<in> {Running, Cancelling}
           then set_aggregate now (tr_Status r) (shards_of (sh_run_id s) ?d) r else r)"
      using wf by (auto intro: barrier_run [OF finished(5) r'(1)] simp: wf_db_def)
    show "terminal (tr_Status r') \<or> shards_of (tr_ID r') d \<noteq> [] \<and> remaining (tr_ID r') d = 0"
    proof (cases "tr_ID r = sh_run_id s")
      case True
      have z: "remaining (sh_run_id s) ?d = 0" using r'(3) r(2) True rem by simp
      have "tr_Status r \<noteq> Queued"
      proof
        assume "tr_Status r = Queued"
        from live [OF finished(1-3) r(1) True this] obtain s' where
          s': "s' \<in> set (shards_of (sh_run_id s) d)" "sh_id s' \<noteq> i" "outstanding_status (sh_status s')"
          by blast
        then have "s' \<in> set (shards_of (sh_run_id s) d')"
          by (auto simp: sh set_upd_where)
        with s'(3) r'(3) r(2) True show False by (auto simp: remaining_0)
      qed
      then show ?thesis using r(3) True z
        by (cases "tr_Status r") (auto simp: row_simps final_status_terminal)
    next
      case False
      have "upd_where ?P f (shards_of (tr_ID r') d) = shards_of (tr_ID r') d"
      proof (rule upd_where_none, rule ballI, rule notI)
        fix s' assume "s' \<in> set (shards_of (tr_ID r') d)" "?P s'"
        then have "s' = s" "sh_run_id s' = tr_ID r'"
          using finished(1,2) wf by (auto simp: wf_db_def set_shards_of distinct_map dest: inj_onD)
        with False r(2) show False by simp
      qed
      then show ?thesis using r'(2,3) by (simp add: sh remaining_0)
    qed
  qed
  moreover have "started d'"
  proof (rule started_step [OF _ rf])
    show "started d" using inv by (simp add: barrier_inv_def)
    fix r' s' assume r': "s' \<in> set (shards_of (tr_ID r') d')" "sh_status s' = Running"
    then obtain s0 where "s0 \<in> set (shards_of (tr_ID r') d)" "s' = (if ?P s0 then f s0 else s0)"
      by (auto simp: sh set_upd_where)
    moreover have "sh_status (f s0) \<noteq> Running" for s0 using eff(2) [of s0] by auto
    ultimately show "tr_Status r' \<noteq> Queued \<or> (\<exists>s \<in> set (shards_of (tr_ID r') d). sh_status s = Running)"
      using r'(2) by (cases "?P s0") auto
  qed
  ultimately show ?thesis using wf_same_shape [OF wf shape] by (simp add: barrier_inv_def)
qed (use inv in simp)

lemma barrier_inv_CompleteShard:
  assumes inv: "barrier_inv d" and ok: "outcome_text (cs_Status req)"
  shows "barrier_inv (snd (CompleteShard now i req d))"
proof -
  let ?d' = "snd (CompleteShard now i req d)"
  obtain st where st: "shard_status_of (cs_Status req) = Some st" "terminal st"
    using outcome_status [OF ok] by blast
  have rf: "rows_from d ?d'"
    by (rule progress_rows_from [OF CompleteShard_progress [OF ok] shape_CompleteShard])
  show ?thesis
  proof (cases "text_ok (cs_Status req) \<and> opt_ok (cs_ErrorMessage req)")
    case True
    then have C: "CompleteShard now i req d = finishShard now i (\<lambda>s. sh_status s = Running)
        (set_shard_outcome now st req) (Some ErrNotRunning) d"
      using st(1) by (simp add: CompleteShard_def)
    show ?thesis
    proof (rule barrier_inv_finish [OF inv _ _ _ rf shape_CompleteShard])
      show "finishShard now i (\<lambda>s. sh_status s = Running) (set_shard_outcome now st req)
          (Some ErrNotRunning) d = (fst (CompleteShard now i req d), ?d')" using C by simp
    qed (use inv st in \<open>auto simp: set_shard_outcome_def barrier_inv_def started_def set_shards_of\<close>)
  qed (use inv in \<open>simp add: CompleteShard_def\<close>)
qed

lemma barrier_inv_FailShard:
  assumes inv: "barrier_inv d" and ok: "\<not> strands (CallFailShard i reason) d"
  shows "barrier_inv (snd (FailShard now i reason d))"
proof (cases "text_ok reason")
  case True
  let ?d' = "snd (FailShard now i reason d)"
  have rf: "rows_from d ?d'" by (rule progress_rows_from [OF FailShard_progress shape_FailShard])
  have wf: "wf_db d" using inv by (simp add: barrier_inv_def)
  show ?thesis
  proof (rule barrier_inv_finish [OF inv _ _ _ rf shape_FailShard])
    show "finishShard now i (\<lambda>s. sh_status s \<in> {Queued, Running}) (set_shard_failed now reason) None d
        = (fst (FailShard now i reason d), ?d')" using True by (simp add: FailShard_def)
    fix s r assume s: "s \<in> set (db_shards d)" "sh_id s = i"
      and r: "r \<in> set (db_runs d)" "tr_ID r = sh_run_id s" "tr_Status r = Queued"
    from wf_find_shard [OF wf s(1)] wf_find_run [OF wf r(1)]
    show "\<exists>s' \<in> set (shards_of (sh_run_id s) d). sh_id s' \<noteq> i \<and> outstanding_status (sh_status s')"
      using ok s(2) r by (auto simp: list_all_iff)
  qed (simp_all add: set_shard_failed_def)
qed (use inv in \<open>simp add: FailShard_def\<close>)

lemma shards_untouched:
  "db_shards (snd (ClaimNext now d)) = db_shards d"
  "db_shards (snd (StartByID now i d)) = db_shards d"
  "db_shards (snd (TakeOver now i d)) = db_shards d"
  "db_shards (snd (Fail now i reason d)) = db_shards d"
  "db_shards (snd (Complete now i req d)) = db_shards d"
  "db_shards (snd (CancelRun i d)) = db_shards d"
  by (simp_all add: ClaimNext_def StartByID_def TakeOver_def Fail_def Complete_def CancelRun_def
      split: split_result)

lemma clean_reach_inv: "clean_reach d \<Longrightarrow> barrier_inv d"
proof (induction rule: clean_reach.induct)
  case empty
  show ?case by (simp add: barrier_inv_def wf_empty started_def settled_def) (simp add: empty_db_def)
next
  case (call d c now)
  then have inv: "barrier_inv d" and wf: "wf_db d" by (simp_all add: barrier_inv_def)
  have p: "db_progress d (run_call now c d)"
    using wf call.hyps by (intro run_call_progress) (simp_all add: wf_db_def)
  show ?case
  proof (cases c)
    case (CallStartShard i) then show ?thesis using inv by (simp add: StartShard_def barrier_inv_startShard)
  next
    case (CallTakeOverShard i) then show ?thesis using inv by (simp add: TakeOverShard_def barrier_inv_startShard)
  qed (use call.hyps inv p in \<open>auto intro: barrier_inv_Create barrier_inv_CreateWithShards
      barrier_inv_CompleteShard barrier_inv_FailShard barrier_inv_runs shape_run_ops shards_untouched\<close>)
qed

subsection \<open>Started runs\<close>

text \<open>
  A run that is running or cancelling needs no assumption on what happened before: no call
  takes its last outstanding shard away without ending it.
\<close>

definition has_work :: "int \<Rightarrow> db \<Rightarrow> bool" where
  "has_work k d \<longleftrightarrow> (\<exists>s \<in> set (db_shards d). sh_run_id s = k \<and> outstanding_status (sh_status s))"

lemma has_work_remaining: "has_work k d \<longleftrightarrow> remaining k d \<noteq> 0"
  by (auto simp: has_work_def remaining_0 set_shards_of)

lemma has_work_shards: "has_work k d \<longleftrightarrow> (\<exists>s \<in> set (shards_of k d). sh_status s \<in> {Queued, Running})"
  by (auto simp: has_work_def set_shards_of outstanding_status_def)

lemma has_work_more: "has_work k d \<Longrightarrow> set (db_shards d) \<subseteq> set (db_shards d') \<Longrightarrow> has_work k d'"
  by (auto simp: has_work_def)

lemma has_work_claim: "has_work k d \<Longrightarrow> has_work k (snd (claim_shard now i again miss d))"
proof -
  assume w: "has_work k d"
  obtain x d1 where c: "claim_shard now i again miss d = (x, d1)" by fastforce
  show ?thesis
  proof (cases x)
    case (Inl e)
    then show ?thesis using c w claim_shard_Inl [of now i again miss d e d1] by simp
  next
    case (Inr a)
    let ?P = "\<lambda>s. sh_id s = i \<and> shard_guard again s \<and> find_run (sh_run_id s) d \<noteq> None"
    have d1: "d1 = d\<lparr>db_shards := upd_where ?P (set_shard_running now) (db_shards d)\<rparr>"
      using c Inr by (auto elim: claim_shard_Inr)
    obtain s where s: "s \<in> set (db_shards d)" "sh_run_id s = k" "outstanding_status (sh_status s)"
      using w by (auto simp: has_work_def)
    let ?s = "if ?P s then set_shard_running now s else s"
    have "?s \<in> set (upd_where ?P (set_shard_running now) (db_shards d))"
      unfolding set_upd_where using s(1) by blast
    then have "?s \<in> set (db_shards d1)" by (simp add: d1)
    moreover have "sh_run_id ?s = k" "outstanding_status (sh_status ?s)"
      using s(2,3) by (simp_all add: set_shard_running_def)
    ultimately show ?thesis using c unfolding has_work_def by auto
  qed
qed

lemma has_work_start: "has_work k d \<Longrightarrow> has_work k (snd (startShard now i again miss d))"
  using has_work_claim [of k d now i again miss]
  by (auto simp: startShard_def has_work_def split: prod.splits sum.splits)

lemma has_work_create: "has_work k d \<Longrightarrow> has_work k (snd (CreateWithShards now req vus d))"
proof -
  assume w: "has_work k d"
  obtain x d' where C: "CreateWithShards now req vus d = (x, d')" by fastforce
  then have "set (db_shards d) \<subseteq> set (db_shards d')"
    by (cases rule: CreateWithShards_cases) (auto simp: rollback_def)
  then show ?thesis using has_work_more [OF w] C by simp
qed

lemma has_work_create_run: "has_work k d \<Longrightarrow> has_work k (snd (Create now req d))"
proof -
  assume w: "has_work k d"
  let ?row = "new_run_row (db_next_run d) now req 1 None None 0"
  obtain x d1 where ins: "insert_run ?row d = (x, d1)" by fastforce
  then have "db_shards d1 = db_shards d" using insert_run_cases [OF ins] by auto
  then show ?thesis using has_work_more [OF w, of d1] ins by (cases x) (simp_all add: Create_def)
qed

lemma finish_ends_run:
  assumes wf: "wf_db d" and w: "has_work k d" and r: "find_run k d = Some r" "tr_Status r \<in> {Running, Cancelling}"
    and fin: "finishShard now i g f miss d = (x, d')"
    and eff: "\<And>s. sh_run_id (f s) = sh_run_id s"
    and r': "find_run k d' = Some r'"
  shows "terminal (tr_Status r') \<or> has_work k d'"
  using fin eff
proof (cases rule: finishShard_cases)
  case same
  then show ?thesis using w by simp
next
  case (finished s)
  let ?P = "\<lambda>s. sh_id s = i \<and> g s"
  let ?d = "d\<lparr>db_shards := upd_where ?P f (db_shards d)\<rparr>"
  have same: "db_shards d' = db_shards ?d" using barrier_shards [OF finished(5)] .
  show ?thesis
  proof (cases "sh_run_id s = k")
    case False
    obtain s' where s': "s' \<in> set (db_shards d)" "sh_run_id s' = k" "outstanding_status (sh_status s')"
      using w by (auto simp: has_work_def)
    have "\<not> ?P s'"
      using False finished(1,2) s' wf by (auto simp: wf_db_def distinct_map dest: inj_onD)
    then have "s' \<in> set (db_shards d')" using s'(1) by (auto simp: same set_upd_where)
    then show ?thesis using s'(2,3) by (auto simp: has_work_def)
  next
    case True
    show ?thesis
    proof (cases "remaining k ?d = 0")
      case False
      then show ?thesis using remaining_cong [OF same] by (simp add: has_work_remaining)
    next
      case z: True
      have mem: "r' \<in> set (db_runs d')" "tr_ID r' = k" using find_run_mem [OF r'] by simp_all
      have dist: "distinct (map tr_ID (db_runs ?d))" using wf by (simp add: wf_db_def)
      obtain r0 where r0: "r0 \<in> set (db_runs ?d)" "tr_ID r0 = tr_ID r'"
        "r' = (if tr_ID r0 = sh_run_id s \<and> remaining (sh_run_id s) ?d = 0 \<and> tr_Status r0 \<in> {Running, Cancelling}
           then set_aggregate now (tr_Status r0) (shards_of (sh_run_id s) ?d) r0 else r0)"
        by (rule barrier_run [OF finished(5) mem(1) dist])
      have "r0 \<in> set (db_runs d)" using r0(1) by simp
      then have "r0 = r" using wf_find_run [OF wf] r(1) r0(2) mem(2) by (metis option.inject)
      then have c: "tr_ID r0 = sh_run_id s \<and> remaining (sh_run_id s) ?d = 0 \<and> tr_Status r0 \<in> {Running, Cancelling}"
        using r(2) z True r0(2) mem(2) by metis
      have "r' = set_aggregate now (tr_Status r0) (shards_of (sh_run_id s) ?d) r0"
        using r0(3) unfolding if_P [OF c] .
      then show ?thesis by (simp add: row_simps final_status_terminal)
    qed
  qed
qed

lemma call_ends_run:
  assumes wf: "wf_db d" and w: "has_work k d" and r: "find_run k d = Some r" "tr_Status r \<in> {Running, Cancelling}"
    and ok: "valid_call c" and r': "find_run k (run_call now c d) = Some r'"
  shows "terminal (tr_Status r') \<or> has_work k (run_call now c d)"
proof -
  have kept: "db_shards (run_call now c d) = db_shards d \<Longrightarrow> has_work k (run_call now c d)"
    using w by (auto simp: has_work_def)
  have finish: "terminal (tr_Status r') \<or> has_work k (run_call now c d)"
    if "finishShard now i g f miss d = (x, run_call now c d)" "\<And>s. sh_run_id (f s) = sh_run_id s" for i g f miss x
    by (rule finish_ends_run [OF wf w r that r'])
  show ?thesis
  proof (cases c)
    case (CallCompleteShard i req)
    then obtain st where st: "shard_status_of (cs_Status req) = Some st" using ok outcome_status by auto
    show ?thesis
    proof (cases "text_ok (cs_Status req) \<and> opt_ok (cs_ErrorMessage req)")
      case True
      then have "finishShard now i (\<lambda>s. sh_status s = Running) (set_shard_outcome now st req) (Some ErrNotRunning) d
          = (fst (CompleteShard now i req d), run_call now c d)"
        using st CallCompleteShard by (simp add: CompleteShard_def)
      then show ?thesis by (rule finish) (simp add: set_shard_outcome_def)
    qed (use CallCompleteShard kept in \<open>simp add: CompleteShard_def\<close>)
  next
    case (CallFailShard i reason)
    show ?thesis
    proof (cases "text_ok reason")
      case True
      then have "finishShard now i (\<lambda>s. sh_status s \<in> {Queued, Running}) (set_shard_failed now reason) None d
          = (fst (FailShard now i reason d), run_call now c d)"
        using CallFailShard by (simp add: FailShard_def)
      then show ?thesis by (rule finish) (simp add: set_shard_failed_def)
    qed (use CallFailShard kept in \<open>simp add: FailShard_def\<close>)
  qed (use kept has_work_claim [OF w] has_work_start [OF w] has_work_create [OF w] has_work_create_run [OF w] in
      \<open>simp_all add: shards_untouched StartShard_def TakeOverShard_def\<close>)
qed

end
