(* ===== verification/Store_Properties.thy ===== *)
theory Store_Properties
  imports Shard_Barrier
begin

section \<open>What the store promises\<close>

text \<open>
  The theorems about the data-access layer: the lifecycle of runs and shards over arbitrary
  sequences of calls, claims that succeed at most once, the completion barrier and the result
  it writes.
\<close>

fun run_calls :: "(time \<times> store_call) list \<Rightarrow> db \<Rightarrow> db" where
  "run_calls [] d = d"
| "run_calls ((now, c) # cs) d = run_calls cs (run_call now c d)"

definition valid_calls :: "(time \<times> store_call) list \<Rightarrow> bool" where
  "valid_calls cs \<longleftrightarrow> list_all (\<lambda>(_, c). valid_call c) cs"

lemma run_calls_progress:
  "wf_db d \<Longrightarrow> valid_calls cs \<Longrightarrow> db_progress d (run_calls cs d) \<and> wf_db (run_calls cs d)"
proof (induction cs arbitrary: d)
  case (Cons nc cs)
  obtain now c where nc: "nc = (now, c)" by fastforce
  have c: "valid_call c" "valid_calls cs" using Cons.prems nc by (simp_all add: valid_calls_def)
  have "db_progress d (run_call now c d)"
    using Cons.prems(1) c by (intro run_call_progress) (simp_all add: wf_db_def)
  with Cons.IH [OF run_call_wf [OF Cons.prems(1)] c(2), of now c] show ?case
    by (auto simp: nc intro: db_progress_trans)
qed (simp add: valid_calls_def)

lemma db_progress_run:
  assumes "db_progress d d'" and "wf_db d'" and "find_run i d = Some r"
  shows "\<exists>r'. find_run i d' = Some r' \<and> tr_Status r \<le> tr_Status r' \<and> (terminal (tr_Status r) \<longrightarrow> r' = r)"
proof -
  have "r \<in> set (db_runs d)" and i: "tr_ID r = i"
    using assms(3) by (auto dest: find_run_mem)
  with assms(1) obtain r' where r': "r' \<in> set (db_runs d')" "row_progress tr_ID tr_Status r r'"
    unfolding db_progress_def by (auto dest: table_progress_row)
  then have "find_run i d' = Some r'"
    using wf_find_run [OF assms(2) r'(1)] i by (simp add: row_progress_def)
  with r'(2) show ?thesis by (simp add: row_progress_def)
qed

lemma db_progress_shard:
  assumes "db_progress d d'" and "wf_db d'" and "find_shard i d = Some s"
  shows "\<exists>s'. find_shard i d' = Some s' \<and> sh_status s \<le> sh_status s' \<and> (terminal (sh_status s) \<longrightarrow> s' = s)"
proof -
  have "s \<in> set (db_shards d)" and i: "sh_id s = i"
    using assms(3) by (auto dest: find_shard_mem)
  with assms(1) obtain s' where s': "s' \<in> set (db_shards d')" "row_progress sh_id sh_status s s'"
    unfolding db_progress_def by (auto dest: table_progress_row)
  then have "find_shard i d' = Some s'"
    using wf_find_shard [OF assms(2) s'(1)] i by (simp add: row_progress_def)
  with s'(2) show ?thesis by (simp add: row_progress_def)
qed

subsection \<open>A sample state\<close>

definition sample_request :: create_request where
  "sample_request = \<lparr>cr_Name = ''load'', cr_TargetURL = ''http://target:8090/'', cr_Method = ''GET'',
     cr_VirtualUsers = 3, cr_DurationSeconds = 10, cr_Shards = 2, cr_Headers = [], cr_Body = [],
     cr_ThinkTimeMs = 0\<rparr>"

definition sample_db :: db where
  "sample_db = run_calls [(1, CallCreateWithShards sample_request [2, 1]), (2, CallStartShard 1)] empty_db"

lemmas sample_defs = sample_db_def sample_request_def empty_db_def CreateWithShards_def insert_run_def
  new_run_row_def run_row_ok_def text_ok_def int4_ok_def opt_ok_def new_shard_row_def StartShard_def
  startShard_def claim_shard_def update_by_id_def query_row_def returning_def upd_where_def
  shard_guard_def find_run_def mark_run_running_def set_running_def set_shard_running_def Let_def
  scanRow_def

lemma sample_db_shards:
  "map (\<lambda>s. (sh_id s, sh_run_id s, sh_status s)) (db_shards sample_db) =
     [(1, 1, Running), (2, 1, Queued)]"
  "map (\<lambda>r. (tr_ID r, tr_Status r)) (db_runs sample_db) = [(1, Running)]"
  by (simp_all add: sample_defs)

lemma sample_reach: "clean_reach sample_db" "store_reach sample_db"
proof -
  let ?c1 = "CallCreateWithShards sample_request [2, 1]" and ?c2 = "CallStartShard 1"
  have "clean_reach (run_call 1 ?c1 empty_db)" by (rule clean_reach.intros) (simp_all add: clean_reach.empty)
  then show "clean_reach sample_db"
    unfolding sample_db_def run_calls.simps by (rule clean_reach.call) simp_all
  have "store_reach (run_call 1 ?c1 empty_db)" by (rule store_reach.intros) (simp_all add: store_reach.empty)
  then show "store_reach sample_db"
    unfolding sample_db_def run_calls.simps by (rule store_reach.call) simp_all
qed

lemma sample_run:
  "\<exists>r. find_run 1 sample_db = Some r \<and> tr_Status r = Running \<and> r \<in> set (db_runs sample_db)"
  by (simp add: sample_defs)

lemma sample_shards:
  "map sh_status (shards_of 1 sample_db) = [Running, Queued]" "sums_fit (shards_of 1 sample_db)"
  by (simp_all add: sample_defs shards_of_def sums_fit_def sql_sum_def int64_ok_def)

subsection \<open>The lifecycle\<close>

text \<open>
  C9: whatever sequence of store calls runs, a run's status only moves forward in the
  order queued, running, cancelling, terminal; and once it is completed, failed or
  cancelled, no later call changes anything in its row, results included.
\<close>

theorem run_lifecycle:
  assumes "store_reach d" and "valid_calls cs" and "find_run i d = Some r"
  shows "\<exists>r'. find_run i (run_calls cs d) = Some r' \<and> tr_Status r \<le> tr_Status r' \<and>
    (tr_Status r \<in> {Completed, Failed, Cancelled} \<longrightarrow> r' = r)"
  using run_calls_progress [OF store_reach_wf [OF assms(1)] assms(2)]
    db_progress_run [of d "run_calls cs d" i r] assms(3)
  by (auto simp: terminal_def)

theorem run_lifecycle_witness:
  "\<exists>r'. find_run 1 (run_calls [(3, CallCancelRun 1), (4, CallFail 1 ''late'')] sample_db) = Some r' \<and>
    Running \<le> tr_Status r'"
proof -
  obtain r where r: "find_run 1 sample_db = Some r" "tr_Status r = Running" using sample_run by blast
  show ?thesis
    using run_lifecycle [OF sample_reach(2) _ r(1), of "[(3, CallCancelRun 1), (4, CallFail 1 ''late'')]"] r(2)
    by (auto simp: valid_calls_def)
qed

text \<open>
  C10: a shard's status only moves forward, and a shard that has completed or failed
  keeps its partial result whatever calls follow: late or duplicate reports do not count twice.
\<close>

theorem shard_lifecycle:
  assumes "store_reach d" and "valid_calls cs" and "find_shard i d = Some s"
  shows "\<exists>s'. find_shard i (run_calls cs d) = Some s' \<and> sh_status s \<le> sh_status s' \<and>
    (sh_status s \<in> {Completed, Failed} \<longrightarrow> s' = s)"
  using run_calls_progress [OF store_reach_wf [OF assms(1)] assms(2)]
    db_progress_shard [of d "run_calls cs d" i s] assms(3)
  by (auto simp: terminal_def)

theorem shard_lifecycle_witness:
  "\<exists>s'. find_shard 1 (run_calls [(3, CallFailShard 1 ''crash''), (4, CallTakeOverShard 1)] sample_db) = Some s' \<and>
    Running \<le> sh_status s'"
proof -
  obtain s where s: "find_shard 1 sample_db = Some s" "sh_status s = Running"
    by (simp add: sample_defs find_shard_def)
  show ?thesis
    using shard_lifecycle [OF sample_reach(2) _ s(1), of "[(3, CallFailShard 1 ''crash''), (4, CallTakeOverShard 1)]"] s(2)
    by (auto simp: valid_calls_def)
qed

text \<open>
  C35: the tables stay well formed: unique ids below the sequences, every shard belongs
  to a run, shard statuses satisfy the CHECK constraint, and the shards of a run are numbered
  0 to shard_count - 1.
\<close>

theorem store_well_formed:
  assumes "store_reach d"
  shows "wf_db d"
  using assms by (rule store_reach_wf)

theorem store_well_formed_witness: "wf_db sample_db"
  using sample_reach(2) by (rule store_well_formed)

subsection \<open>Claims succeed once\<close>

lemma startShard_Inr:
  assumes "startShard now i again miss d = (Inr a, d')" and "wf_db d"
  shows "\<exists>s. find_shard i d = Some s \<and> shard_guard again s \<and>
    find_shard i d' = Some (set_shard_running now s) \<and> sa_RunID a = sh_run_id s"
proof -
  obtain d1 where c: "claim_shard now i again miss d = (Inr a, d1)"
    and d': "d' = mark_run_running now (sa_RunID a) d1"
    using assms(1) by (auto simp: startShard_def split: sum.splits prod.splits)
  from c obtain s where s: "s \<in> set (db_shards d)" "sh_id s = i" "shard_guard again s"
    "sa_RunID a = sh_run_id s"
    and d1: "d1 = d\<lparr>db_shards := upd_where (\<lambda>s. sh_id s = i \<and> shard_guard again s \<and>
       find_run (sh_run_id s) d \<noteq> None) (set_shard_running now) (db_shards d)\<rparr>"
    by (rule claim_shard_Inr)
  have "set_shard_running now s \<in> set (db_shards d')"
    using s wf_shard_run [OF assms(2) s(1)] by (auto simp: d' d1 set_upd_where)
  moreover have "wf_db d'"
    using wf_same_shape [OF assms(2) shape_startShard [of d now i again miss]] assms(1) by simp
  ultimately have "find_shard (sh_id (set_shard_running now s)) d' = Some (set_shard_running now s)"
    by (intro wf_find_shard)
  then show ?thesis
    using s wf_find_shard [OF assms(2) s(1)] by (auto simp: set_shard_running_def)
qed

lemma claim_shard_busy:
  assumes "wf_db d" and "find_shard i d = Some s" and "\<not> shard_guard again s"
  shows "claim_shard now i again miss d = (Inl miss, d)"
proof -
  have "List.find (\<lambda>s. sh_id s = i \<and> shard_guard again s \<and> find_run (sh_run_id s) d \<noteq> None)
      (db_shards d) = None"
  proof -
    have "s' = s" if "s' \<in> set (db_shards d)" "sh_id s' = i" for s'
      using find_shard_mem [OF assms(2)] that assms(1) by (auto simp: wf_db_def distinct_map dest: inj_onD)
    with assms(3) show ?thesis by (auto simp: find_None_iff)
  qed
  then show ?thesis
    using assms(2) by (simp add: claim_shard_def update_by_id_def query_row_returning shardMiss_def)
qed

text \<open>
  C18: a shard is started at most once by a normal delivery. After a successful
  StartShard, whatever calls follow, a second StartShard of the shard is rejected with
  ErrNotQueued and changes nothing: a duplicate delivery never runs the shard again.
\<close>

theorem StartShard_once:
  assumes "store_reach d" and "StartShard now i d = (Inr a, d')" and "valid_calls cs"
  shows "StartShard later i (run_calls cs d') = (Inl ErrNotQueued, run_calls cs d')"
proof -
  let ?e = "run_calls cs d'"
  have wf: "wf_db d" using assms(1) by (rule store_reach_wf)
  have wf': "wf_db d'" using run_call_wf [OF wf, of now "CallStartShard i"] assms(2) by simp
  obtain s where "find_shard i d' = Some s" "sh_status s = Running"
    using startShard_Inr [of now i False ErrNotQueued d a d'] assms(2) wf
    by (auto simp: StartShard_def set_shard_running_def)
  with run_calls_progress [OF wf' assms(3)] obtain s' where
    "find_shard i ?e = Some s'" "Running \<le> sh_status s'" "wf_db ?e"
    by (metis db_progress_shard)
  then have "claim_shard later i False ErrNotQueued ?e = (Inl ErrNotQueued, ?e)"
    by (intro claim_shard_busy) (auto simp: shard_guard_def)
  then show ?thesis by (simp add: StartShard_def startShard_def)
qed

theorem StartShard_once_witness:
  "fst (StartShard 9 2 (run_calls [(5, CallCompleteShard 1 \<lparr>cs_Status = ''failed'', cs_TotalRequests = None,
     cs_SuccessfulRequests = None, cs_FailedRequests = None, cs_LatencyCount = None,
     cs_AvgLatencyMs = None, cs_MinLatencyMs = None, cs_MaxLatencyMs = None, cs_LatencyBuckets = [],
     cs_ErrorMessage = None\<rparr>)] (snd (StartShard 3 2 sample_db)))) = Inl ErrNotQueued"
proof -
  have "StartShard 3 2 sample_db =
      (Inr (projr (fst (StartShard 3 2 sample_db))), snd (StartShard 3 2 sample_db))"
    by (simp add: sample_defs)
  note once = StartShard_once [OF sample_reach(2) this]
  show ?thesis by (subst once) (simp_all add: valid_calls_def outcome_text_def)
qed

subsection \<open>The completion barrier\<close>

text \<open>A started run, over any sequence of calls.\<close>

lemma calls_end_run:
  assumes "store_reach d" and "valid_calls cs" and "find_run k d = Some r"
    and "tr_Status r \<in> {Running, Cancelling}" and "has_work k d" and "find_run k (run_calls cs d) = Some r'"
  shows "terminal (tr_Status r') \<or> has_work k (run_calls cs d)"
  using assms
proof (induction cs arbitrary: d r)
  case (Cons nc cs)
  obtain now c where nc: "nc = (now, c)" by fastforce
  let ?d = "run_call now c d"
  have ok: "valid_call c" "valid_calls cs" using Cons.prems(2) by (simp_all add: nc valid_calls_def)
  have wf: "wf_db d" "wf_db ?d" and reach: "store_reach ?d"
    using Cons.prems(1) ok(1) by (auto intro: store_reach_wf store_reach.call)
  have "db_progress d ?d" using wf(1) ok(1) by (intro run_call_progress) (simp_all add: wf_db_def)
  from db_progress_run [OF this wf(2) Cons.prems(3)] obtain r1 where r1: "find_run k ?d = Some r1"
    "tr_Status r \<le> tr_Status r1" by blast
  from call_ends_run [OF wf(1) Cons.prems(5,3,4) ok(1) r1(1)] show ?case
  proof
    assume "terminal (tr_Status r1)"
    moreover have "db_progress ?d (run_calls cs ?d)" "wf_db (run_calls cs ?d)"
      using run_calls_progress [OF wf(2) ok(2)] by simp_all
    from db_progress_run [OF this r1(1)] obtain r2 where "find_run k (run_calls cs ?d) = Some r2"
      "terminal (tr_Status r1) \<longrightarrow> r2 = r1" by blast
    ultimately show ?thesis using Cons.prems(6) by (simp add: nc)
  next
    assume w: "has_work k ?d"
    show ?thesis
    proof (cases "terminal (tr_Status r1)")
      case False
      then have "tr_Status r1 \<in> {Running, Cancelling}"
        using r1(2) Cons.prems(4) by (cases "tr_Status r1") (auto simp: terminal_def less_eq_run_status_def)
      from Cons.IH [OF reach ok(2) r1(1) this w] Cons.prems(6) show ?thesis by (simp add: nc)
    next
      case True
      have "db_progress ?d (run_calls cs ?d)" "wf_db (run_calls cs ?d)"
        using run_calls_progress [OF wf(2) ok(2)] by simp_all
      from db_progress_run [OF this r1(1)] True Cons.prems(6) show ?thesis by (auto simp: nc)
    qed
  qed
qed simp

text \<open>
  C1: a started run ends with its last shard. Take any reachable state and a run in it that is
  running or cancelling and has a shard that is still queued or running. After any further
  calls the run has either ended or still has such a shard: no order of reports, dead letters,
  claims and cancellations leaves it unfinished with nothing left to do. (For a run that is
  still queued this fails, see \<open>strands\<close>.)
\<close>

theorem unfinished_run_has_work:
  assumes "store_reach d" and "valid_calls cs" and "find_run k d = Some r"
    and "tr_Status r \<in> {Running, Cancelling}"
    and "\<exists>s \<in> set (shards_of k d). sh_status s \<in> {Queued, Running}"
    and "find_run k (run_calls cs d) = Some r'"
  shows "tr_Status r' \<in> {Completed, Failed, Cancelled} \<or>
    (\<exists>s \<in> set (shards_of k (run_calls cs d)). sh_status s \<in> {Queued, Running})"
  using calls_end_run [OF assms(1-4) _ assms(6)] assms(5) by (simp add: has_work_shards terminal_def)

theorem unfinished_run_has_work_witness:
  "\<exists>r. find_run 1 (run_calls [(3, CallCancelRun 1), (4, CallFailShard 1 ''crash'')] sample_db) = Some r \<and>
     (tr_Status r \<in> {Completed, Failed, Cancelled} \<or>
      (\<exists>s \<in> set (shards_of 1 (run_calls [(3, CallCancelRun 1), (4, CallFailShard 1 ''crash'')] sample_db)).
         sh_status s \<in> {Queued, Running}))"
proof -
  let ?cs = "[(3, CallCancelRun 1), (4, CallFailShard 1 ''crash'')]"
  have ok: "valid_calls ?cs" by (simp add: valid_calls_def)
  obtain r where r: "find_run 1 sample_db = Some r" "tr_Status r = Running" using sample_run by blast
  obtain r' where r': "find_run 1 (run_calls ?cs sample_db) = Some r'"
    using db_progress_run [OF _ _ r(1)] run_calls_progress [OF store_reach_wf [OF sample_reach(2)] ok] by blast
  obtain a b where "shards_of 1 sample_db = [a, b]" "sh_status a = Running"
    using sample_shards(1) by (auto simp: map_eq_Cons_conv)
  then have "\<exists>s \<in> set (shards_of 1 sample_db). sh_status s \<in> {Queued, Running}" by simp
  from unfinished_run_has_work [OF sample_reach(2) ok r(1) _ this r'] r(2) r' show ?thesis by simp
qed

text \<open>
  From its creation on, a sharded run that has not ended has a shard that is still queued
  or running, in every state reached without two events that \<open>strands\<close> describes: the
  dead-lettering of the last outstanding shard of a run that is still queued, and a failure
  between the two statements of \<open>startShard\<close>.
\<close>

lemma clean_run_has_work:
  assumes "clean_reach d" and "r \<in> set (db_runs d)" and "shards_of (tr_ID r) d \<noteq> []"
    and "tr_Status r \<notin> {Completed, Failed, Cancelled}"
  shows "\<exists>s \<in> set (shards_of (tr_ID r) d). sh_status s \<in> {Queued, Running}"
  using clean_reach_inv [OF assms(1)] assms(2-)
  by (auto simp: barrier_inv_def settled_def remaining_0 terminal_def outstanding_status_def)

text \<open>The last report: every other shard of the run has ended.\<close>

definition last_shard :: "int \<Rightarrow> db \<Rightarrow> bool" where
  "last_shard i d \<longleftrightarrow> (\<exists>s. find_shard i d = Some s \<and>
     (\<forall>s' \<in> set (shards_of (sh_run_id s) d). sh_id s' = i \<or> sh_status s' \<notin> {Queued, Running}))"

definition reported :: "time \<Rightarrow> int \<Rightarrow> run_status \<Rightarrow> complete_shard_request \<Rightarrow> db \<Rightarrow> db" where
  "reported now i st req d =
     d\<lparr>db_shards := upd_where (\<lambda>s. sh_id s = i \<and> sh_status s = Running) (set_shard_outcome now st req)
        (db_shards d)\<rparr>"

lemma query_row_unique:
  assumes "distinct (map key t)" and "x \<in> set t" and "key x = i" and "g x"
  shows "query_row (returning (\<lambda>r. key r = i \<and> g r) f t) = Some (f x)"
proof -
  have "List.find (\<lambda>r. key r = i \<and> g r) t \<noteq> None" using assms(2-) by (auto simp: find_None_iff)
  then obtain y where y: "List.find (\<lambda>r. key r = i \<and> g r) t = Some y" by blast
  then have "y \<in> set t" "key y = i" by (auto simp: find_Some_iff)
  then have "y = x" using assms by (auto simp: distinct_map dest: inj_onD)
  with y show ?thesis by (simp add: query_row_returning)
qed

lemma find_run_runs: "find_run k (d\<lparr>db_runs := t\<rparr>) = List.find (\<lambda>r. tr_ID r = k) t"
  by (simp add: find_run_def)

lemma status_text_ok: "text_ok (status_text s)"
  by (cases s) (simp_all add: text_ok_def)

lemma CompleteShard_barrier:
  assumes wf: "wf_db d" and s: "find_shard i d = Some s" "sh_status s = Running"
    and req: "shard_status_of (cs_Status req) = Some st" "opt_ok (cs_ErrorMessage req)"
  shows "CompleteShard now i req d =
    (case barrier now (sh_run_id s) (reported now i st req d) of
       Inl e \<Rightarrow> (Inl e, d) | Inr d' \<Rightarrow> (Inr (), d'))"
proof -
  have "text_ok (cs_Status req)"
    using req(1) status_text_ok parse_status_Some [of "cs_Status req"]
    by (auto simp: shard_status_of_def split: option.splits if_splits)
  moreover have "query_row (returning (\<lambda>s. sh_id s = i \<and> sh_status s = Running)
      (set_shard_outcome now st req) (db_shards d)) = Some (set_shard_outcome now st req s)"
    using wf s find_shard_mem [OF s(1)] by (intro query_row_unique) (auto simp: wf_db_def)
  ultimately show ?thesis
    using req by (simp add: CompleteShard_def finishShard_def update_by_id_def reported_def
        set_shard_outcome_def)
qed

lemma shards_of_reported:
  "shards_of k (reported now i st req d) =
     upd_where (\<lambda>s. sh_id s = i \<and> sh_status s = Running) (set_shard_outcome now st req) (shards_of k d)"
  unfolding reported_def by (rule shards_of_upd) (simp add: set_shard_outcome_def)

lemma wf_reported: "wf_db d \<Longrightarrow> shard_status_ok st \<Longrightarrow> wf_db (reported now i st req d)"
  unfolding reported_def by (rule wf_same_shape) (auto intro: same_shape_shards)

lemma CompleteShard_effect:
  assumes wf: "wf_db d" and s: "find_shard i d = Some s" "sh_status s = Running"
    and r: "find_run (sh_run_id s) d = Some r" "tr_Status r \<in> {Running, Cancelling}"
    and req: "shard_status_of (cs_Status req) = Some st" "st \<in> {Completed, Failed}"
      "opt_ok (cs_ErrorMessage req)"
    and fits: "sums_fit (shards_of (sh_run_id s) (reported now i st req d))"
  shows "fst (CompleteShard now i req d) = Inr () \<and>
    find_run (sh_run_id s) (snd (CompleteShard now i req d)) =
      Some (if last_shard i d
            then set_aggregate now (tr_Status r) (shards_of (sh_run_id s) (reported now i st req d)) r
            else r)"
proof (intro conjI)
  let ?k = "sh_run_id s" and ?d = "reported now i st req d"
  have s': "s \<in> set (db_shards d)" "sh_id s = i" using find_shard_mem [OF s(1)] by auto
  have uniq: "s' = s" if "s' \<in> set (db_shards d)" "sh_id s' = i" for s'
    using that s' wf by (auto simp: wf_db_def distinct_map dest: inj_onD)
  have ended: "\<not> outstanding_status st" using req(2) by auto
  have row: "outstanding_status (sh_status (if sh_id s' = i \<and> sh_status s' = Running
        then set_shard_outcome now st req s' else s')) \<longleftrightarrow>
      sh_id s' \<noteq> i \<and> sh_status s' \<in> {Queued, Running}" if "s' \<in> set (shards_of ?k d)" for s'
    using uniq [of s'] s(2) that ended
    by (cases "sh_id s' = i") (auto simp: set_shards_of outstanding_status_def)
  have rem: "remaining ?k ?d = 0 \<longleftrightarrow> last_shard i d"
  proof -
    have "remaining ?k ?d = 0 \<longleftrightarrow>
        (\<forall>s' \<in> set (shards_of ?k d). \<not> (sh_id s' \<noteq> i \<and> sh_status s' \<in> {Queued, Running}))"
      unfolding remaining_0 shards_of_reported upd_where_def set_map ball_simps
      by (intro ball_cong refl) (simp only: row)
    then show ?thesis using s(1) by (auto simp: last_shard_def)
  qed
  have runs: "db_runs ?d = db_runs d" by (simp add: reported_def)
  have fr: "find_run ?k ?d = Some r" using r(1) by (simp add: find_run_def runs)
  have ids: "distinct (map tr_ID (db_runs d))" using wf by (simp add: wf_db_def)
  show "fst (CompleteShard now i req d) = Inr ()"
    unfolding CompleteShard_barrier [OF wf s req(1,3)]
    by (simp add: barrier_def aggregateRun_def fits fr)
  show "find_run ?k (snd (CompleteShard now i req d)) =
      Some (if last_shard i d then set_aggregate now (tr_Status r) (shards_of ?k ?d) r else r)"
  proof (cases "last_shard i d")
    case True
    let ?agg = "set_aggregate now (tr_Status r) (shards_of ?k ?d)"
    let ?runs = "upd_where (\<lambda>r. tr_ID r = ?k \<and> tr_Status r \<in> {Running, Cancelling}) ?agg (db_runs d)"
    have "?agg r \<in> set ?runs" using find_run_mem [OF r(1)] r(2) by (auto simp: set_upd_where)
    moreover have "map tr_ID ?runs = map tr_ID (db_runs d)"
      by (rule map_upd_where) (simp add: row_simps)
    ultimately have "List.find (\<lambda>y. tr_ID y = tr_ID (?agg r)) ?runs = Some (?agg r)"
      using ids by (intro find_unique) simp_all
    then show ?thesis
      using True rem find_run_mem [OF r(1)] unfolding CompleteShard_barrier [OF wf s req(1,3)]
      by (simp add: barrier_def aggregateRun_def fits fr runs find_run_runs row_simps)
  next
    case False
    then show ?thesis
      using rem fr unfolding CompleteShard_barrier [OF wf s req(1,3)] by (simp add: barrier_def)
  qed
qed

text \<open>
  C3: the last shard's report ends the run, and the run's row becomes the aggregate of
  all its shards' partial results, in the same transaction. A report that is not the last
  leaves the run's row alone.
\<close>

theorem CompleteShard_last:
  assumes wf: "wf_db d" and s: "find_shard i d = Some s" "sh_status s = Running"
    and r: "find_run (sh_run_id s) d = Some r" "tr_Status r \<in> {Running, Cancelling}"
    and req: "shard_status_of (cs_Status req) = Some st" "st \<in> {Completed, Failed}"
      "opt_ok (cs_ErrorMessage req)"
    and fits: "sums_fit (shards_of (sh_run_id s) (reported now i st req d))"
  shows "fst (CompleteShard now i req d) = Inr () \<and>
    find_run (sh_run_id s) (snd (CompleteShard now i req d)) =
      Some (if last_shard i d
            then set_aggregate now (tr_Status r) (shards_of (sh_run_id s) (reported now i st req d)) r
            else r)"
  using assms by (rule CompleteShard_effect)

definition sample_report :: "run_status \<Rightarrow> int \<Rightarrow> complete_shard_request" where
  "sample_report st n = \<lparr>cs_Status = status_text st, cs_TotalRequests = Some n,
     cs_SuccessfulRequests = Some n, cs_FailedRequests = Some 0, cs_LatencyCount = Some n,
     cs_AvgLatencyMs = Some 4, cs_MinLatencyMs = Some 3, cs_MaxLatencyMs = Some 5,
     cs_LatencyBuckets = [0, n], cs_ErrorMessage = None\<rparr>"

text \<open>The sample run with its second shard dead-lettered: the first shard is the last.\<close>

definition sample_db2 :: db where
  "sample_db2 = snd (FailShard 3 2 ''max attempts'' sample_db)"

lemma sample_db2_wf: "wf_db sample_db2"
  using run_call_wf [OF store_reach_wf [OF sample_reach(2)], of 3 "CallFailShard 2 ''max attempts''"]
  by (simp add: sample_db2_def)

lemmas sample2_defs = sample_db2_def FailShard_def finishShard_def barrier_def remaining_def
  shards_of_def set_shard_failed_def sample_defs

theorem CompleteShard_last_witness:
  "(\<exists>r. find_run 1 (snd (CompleteShard 9 1 (sample_report Completed 7) sample_db2)) = Some r \<and>
      tr_Status r = Failed) \<and> fst (CompleteShard 9 1 (sample_report Completed 7) sample_db2) = Inr ()"
proof -
  obtain s where s: "find_shard 1 sample_db2 = Some s" "sh_status s = Running" "sh_run_id s = 1"
    by (simp add: sample2_defs find_shard_def)
  obtain r where r: "find_run 1 sample_db2 = Some r" "tr_Status r \<in> {Running, Cancelling}"
      "tr_Status r = Running"
    by (simp add: sample2_defs)
  have req: "shard_status_of (cs_Status (sample_report Completed 7)) = Some Completed"
    "opt_ok (cs_ErrorMessage (sample_report Completed 7))"
    by (simp_all add: sample_report_def shard_status_of_def parse_status_def opt_ok_def)
  have "sums_fit (shards_of (sh_run_id s) (reported 9 1 Completed (sample_report Completed 7) sample_db2))"
    unfolding s(3) by (simp add: sample2_defs reported_def sums_fit_def sql_sum_def int64_ok_def
        set_shard_outcome_def sample_report_def)
  note last = CompleteShard_last [OF sample_db2_wf s(1,2) _ _ req(1) _ req(2) this, unfolded s(3),
    OF r(1,2)]
  have "last_shard 1 sample_db2"
    unfolding last_shard_def using s(1,3) by (simp add: sample2_defs)
  moreover have "\<exists>s \<in> set (shards_of 1 (reported 9 1 Completed (sample_report Completed 7) sample_db2)).
      sh_status s = Failed"
    by (simp add: sample2_defs reported_def set_shard_outcome_def sample_report_def)
  ultimately show ?thesis using last r(3)
    by (auto simp: row_simps final_status_def filter_empty_conv)
qed

subsection \<open>The sequence that strands a run\<close>

text \<open>Once every shard of a run has ended, no shard call touches the run again.\<close>

fun shard_call :: "store_call \<Rightarrow> bool" where
  "shard_call (CallStartShard i) = True"
| "shard_call (CallTakeOverShard i) = True"
| "shard_call (CallCompleteShard i req) = True"
| "shard_call (CallFailShard i reason) = True"
| "shard_call _ = False"

lemma find_upd_where:
  assumes "\<And>r. Q (f r) = Q r" and "\<And>r. r \<in> set t \<Longrightarrow> P r \<Longrightarrow> \<not> Q r"
  shows "List.find Q (upd_where P f t) = List.find Q t"
  using assms(2) by (induction t) (auto simp: upd_where_def assms(1))

lemma barrier_other:
  assumes "barrier now k d = Inr d'" and "k' \<noteq> k"
  shows "find_run k' d' = find_run k' d"
  using assms
  by (auto simp: barrier_def aggregateRun_def Let_def find_run_def row_simps split: split_result
      intro!: find_upd_where)

lemma finishShard_quiet:
  assumes fin: "finishShard now i g f miss d = (x, d')" and "remaining k d = 0"
    and eff: "\<And>s. sh_run_id (f s) = sh_run_id s" and g: "\<And>s. g s \<Longrightarrow> outstanding_status (sh_status s)"
  shows "find_run k d' = find_run k d \<and> shards_of k d' = shards_of k d"
  using fin eff
proof (cases rule: finishShard_cases)
  case (finished s)
  have over: "\<not> outstanding_status (sh_status s)" if "s \<in> set (shards_of k d)" for s
    using assms(2) that by (simp add: remaining_0)
  have "sh_run_id s \<noteq> k" using over [of s] finished g by (auto simp: set_shards_of)
  then have "find_run k d' = find_run k d"
    using barrier_other [OF finished(5)] by (simp add: find_run_def)
  moreover have "shards_of k d' = shards_of k d"
    unfolding shards_of_cong [OF barrier_shards [OF finished(5)]]
    using over g by (subst shards_of_upd) (auto simp: eff intro!: upd_where_none)
  ultimately show ?thesis by simp
qed simp

lemma startShard_quiet:
  assumes "remaining k d = 0"
  shows "find_run k (snd (startShard now i again miss d)) = find_run k d \<and>
    shards_of k (snd (startShard now i again miss d)) = shards_of k d"
proof -
  obtain x d1 where c: "claim_shard now i again miss d = (x, d1)" by fastforce
  show ?thesis
  proof (cases x)
    case (Inl e)
    then show ?thesis using c claim_shard_Inl [of now i again miss d e d1] by (simp add: startShard_def)
  next
    case (Inr a)
    let ?P = "\<lambda>s. sh_id s = i \<and> shard_guard again s \<and> find_run (sh_run_id s) d \<noteq> None"
    from c Inr obtain s where s: "s \<in> set (db_shards d)" "shard_guard again s" "sa_RunID a = sh_run_id s"
      and d1: "d1 = d\<lparr>db_shards := upd_where ?P (set_shard_running now) (db_shards d)\<rparr>"
      by (auto elim: claim_shard_Inr)
    have over: "\<not> shard_guard again s" if "s \<in> set (shards_of k d)" for s
    proof -
      have "\<not> outstanding_status (sh_status s)" using assms that by (simp add: remaining_0)
      then show ?thesis by (auto simp: shard_guard_def split: if_splits)
    qed
    then have "sa_RunID a \<noteq> k" using s by (auto simp: set_shards_of)
    moreover have "shards_of k d1 = shards_of k d" unfolding d1
      using over by (subst shards_of_upd) (auto simp: set_shard_running_def intro!: upd_where_none)
    ultimately show ?thesis using c Inr
      by (auto simp: startShard_def mark_run_running_def find_run_def set_running_def d1
          shards_of_def intro!: find_upd_where)
  qed
qed

lemma shard_call_quiet:
  assumes "remaining k d = 0" and "shard_call c"
  shows "find_run k (run_call now c d) = find_run k d \<and> shards_of k (run_call now c d) = shards_of k d"
  using assms(2)
proof (cases c rule: shard_call.cases)
  case (3 i req)
  have "find_run k (snd (finishShard now i (\<lambda>s. sh_status s = Running) (set_shard_outcome now st req) miss d))
      = find_run k d \<and> shards_of k (snd (finishShard now i (\<lambda>s. sh_status s = Running)
          (set_shard_outcome now st req) miss d)) = shards_of k d" for st miss
    by (rule finishShard_quiet [OF prod.collapse [symmetric] assms(1)])
      (auto simp: set_shard_outcome_def)
  with 3 show ?thesis by (auto simp: CompleteShard_def split: option.split)
next
  case (4 i reason)
  have "find_run k (snd (finishShard now i (\<lambda>s. sh_status s \<in> {Queued, Running})
        (set_shard_failed now reason) None d)) = find_run k d \<and>
      shards_of k (snd (finishShard now i (\<lambda>s. sh_status s \<in> {Queued, Running})
        (set_shard_failed now reason) None d)) = shards_of k d"
    by (rule finishShard_quiet [OF prod.collapse [symmetric] assms(1)])
      (auto simp: set_shard_failed_def)
  with 4 show ?thesis by (simp add: FailShard_def)
qed (use startShard_quiet [OF assms(1)] in \<open>simp_all add: StartShard_def TakeOverShard_def\<close>)

lemma shard_calls_quiet:
  assumes "remaining k d = 0" and "list_all (\<lambda>(_, c). shard_call c) cs"
  shows "find_run k (run_calls cs d) = find_run k d \<and> remaining k (run_calls cs d) = 0"
  using assms
proof (induction cs arbitrary: d)
  case (Cons nc cs)
  obtain now c where nc: "nc = (now, c)" by fastforce
  have q: "find_run k (run_call now c d) = find_run k d" "shards_of k (run_call now c d) = shards_of k d"
    using shard_call_quiet [OF Cons.prems(1), of c now] Cons.prems(2) nc by auto
  then have "remaining k (run_call now c d) = 0" using Cons.prems(1) by (simp add: remaining_def)
  with Cons.IH [of "run_call now c d"] Cons.prems(2) q(1) show ?case by (simp add: nc)
qed simp


definition stranding_db :: db where
  "stranding_db = run_calls [(1, CallCreateWithShards (sample_request\<lparr>cr_Shards := 1\<rparr>) [3])] empty_db"


end
