(* ===== verification/Barrier_Concurrency.thy ===== *)
theory Barrier_Concurrency
  imports Store_Properties
begin

section \<open>The barrier under concurrent transactions\<close>

text \<open>
  \<open>finishShard\<close> is a transaction of several statements, and two workers may finish their
  shards at the same instant. Here its statements are single steps of transactions that
  interleave under READ COMMITTED: a statement sees what is committed when it starts, and
  the transaction's own writes; an UPDATE of a row, and SELECT .. FOR UPDATE, wait while
  another open transaction holds the row. The parameter \<open>locking\<close> says whether the run row
  is locked before the unfinished shards are counted.

  With the lock, every commit does to the committed state exactly what the atomic
  \<open>finishShard\<close> of the other theories does, whatever other transactions and statements come
  between its own, and whichever transactions are aborted. Without it, two shards finishing
  together can leave the run unfinished (\<open>race_hangs\<close>).

  The statements of \<^verbatim>\<open>aggregateRun\<close> and the commit are one step: they run with the run row
  locked and every shard of the run terminal, so no other statement can come between them
  that they would notice.
\<close>

subsection \<open>Transactions\<close>

datatype job = Job_Complete int complete_shard_request | Job_Fail int string

fun job_shard :: "job \<Rightarrow> int" where
  "job_shard (Job_Complete i req) = i"
| "job_shard (Job_Fail i reason) = i"

fun job_guard :: "job \<Rightarrow> shard_row \<Rightarrow> bool" where
  "job_guard (Job_Complete i req) s = (sh_status s = Running)"
| "job_guard (Job_Fail i reason) s = (sh_status s \<in> {Queued, Running})"

fun job_eff :: "time \<Rightarrow> job \<Rightarrow> shard_row \<Rightarrow> shard_row" where
  "job_eff now (Job_Complete i req) s = set_shard_outcome now (the (shard_status_of (cs_Status req))) req s"
| "job_eff now (Job_Fail i reason) s = set_shard_failed now reason s"

fun job_miss :: "job \<Rightarrow> store_error option" where
  "job_miss (Job_Complete i req) = Some ErrNotRunning"
| "job_miss (Job_Fail i reason) = None"

fun job_ok :: "job \<Rightarrow> bool" where
  "job_ok (Job_Complete i req) = (outcome_text (cs_Status req) \<and> opt_ok (cs_ErrorMessage req))"
| "job_ok (Job_Fail i reason) = text_ok reason"

text \<open>The atomic operation a transaction is a run of.\<close>

fun job_call :: "job \<Rightarrow> store_call" where
  "job_call (Job_Complete i req) = CallCompleteShard i req"
| "job_call (Job_Fail i reason) = CallFailShard i reason"

text \<open>
  How far a transaction has come: nothing done; the shard row written (and locked); the run
  row locked too; the unfinished shards counted; ended with its result. The row is the
  transaction's own uncommitted version.
\<close>

datatype phase =
    Begun
  | Updated shard_row
  | Locked shard_row
  | Counted shard_row bool
  | Ended "store_error + unit"

record tx =
  tx_job :: job
  tx_now :: time
  tx_phase :: phase

fun own_row :: "phase \<Rightarrow> shard_row option" where
  "own_row (Updated row) = Some row"
| "own_row (Locked row) = Some row"
| "own_row (Counted row b) = Some row"
| "own_row _ = None"

fun own_run :: "phase \<Rightarrow> int option" where
  "own_run (Locked row) = Some (sh_run_id row)"
| "own_run (Counted row b) = Some (sh_run_id row)"
| "own_run _ = None"

definition locked_shards :: "tx list \<Rightarrow> int list" where
  "locked_shards ts = map sh_id (not_null (map (\<lambda>t. own_row (tx_phase t)) ts))"

definition locked_runs :: "bool \<Rightarrow> tx list \<Rightarrow> int list" where
  "locked_runs locking ts =
     (if locking then not_null (map (\<lambda>t. own_run (tx_phase t)) ts) else [])"

text \<open>What a statement of the transaction sees: the committed tables with its own row.\<close>

definition overlay :: "shard_row \<Rightarrow> db \<Rightarrow> db" where
  "overlay row d = d\<lparr>db_shards := map (\<lambda>s. if sh_id s = sh_id row then row else s) (db_shards d)\<rparr>"

text \<open>The next statement of a transaction; \<open>None\<close> when it has to wait or has ended.\<close>

definition tx_next :: "bool \<Rightarrow> tx list \<Rightarrow> db \<Rightarrow> tx \<Rightarrow> (db \<times> phase) option" where
  "tx_next locking ts d t =
     (case tx_phase t of
        Begun \<Rightarrow>
          (if job_shard (tx_job t) \<in> set (locked_shards ts) then None
           else case List.find (\<lambda>s. sh_id s = job_shard (tx_job t) \<and> job_guard (tx_job t) s)
                       (db_shards d) of
                  None \<Rightarrow>
                    Some (d, Ended (case shardMiss (job_shard (tx_job t)) (job_miss (tx_job t)) d of
                                      Some e \<Rightarrow> Inl e | None \<Rightarrow> Inr ()))
                | Some s \<Rightarrow> Some (d, Updated (job_eff (tx_now t) (tx_job t) s)))
      | Updated row \<Rightarrow>
          (if sh_run_id row \<in> set (locked_runs locking ts) then None else Some (d, Locked row))
      | Locked row \<Rightarrow>
          Some (d, Counted row (remaining (sh_run_id row) (overlay row d) = 0))
      | Counted row none_left \<Rightarrow>
          (if none_left
           then case aggregateRun (tx_now t) (sh_run_id row) (overlay row d) of
                  Inl e \<Rightarrow> Some (d, Ended (Inl e))
                | Inr d' \<Rightarrow> Some (d', Ended (Inr ()))
           else Some (overlay row d, Ended (Inr ())))
      | Ended res \<Rightarrow> None)"

subsection \<open>The other statements\<close>

text \<open>
  Everything else the backend does is single statements that commit at once. They wait for
  locked rows too: claiming a shard for its row, the run transitions for the run's row.
  \<open>ClaimNext\<close> does not wait (SKIP LOCKED): it takes the oldest queued run whose row is free.
\<close>

datatype stmt =
    StClaim bool int
  | StMark int
  | StClaimNext
  | StRun store_call
  | StCreate store_call

fun run_target :: "store_call \<Rightarrow> int option" where
  "run_target (CallStartByID i) = Some i"
| "run_target (CallTakeOver i) = Some i"
| "run_target (CallFail i reason) = Some i"
| "run_target (CallComplete i req) = Some i"
| "run_target (CallCancelRun i) = Some i"
| "run_target _ = None"

fun stmt_next :: "bool \<Rightarrow> tx list \<Rightarrow> time \<Rightarrow> db \<Rightarrow> stmt \<Rightarrow> db option" where
  "stmt_next locking ts now d (StClaim again i) =
     (if i \<in> set (locked_shards ts) then None
      else Some (snd (claim_shard now i again ErrNotQueued d)))"
| "stmt_next locking ts now d (StMark i) =
     (if i \<in> set (locked_runs locking ts) then None else Some (mark_run_running now i d))"
| "stmt_next locking ts now d StClaimNext =
     (case oldest_queued (d\<lparr>db_runs := filter (\<lambda>r. tr_ID r \<notin> set (locked_runs locking ts)) (db_runs d)\<rparr>) of
        None \<Rightarrow> Some d
      | Some q \<Rightarrow> Some (run_call now (CallStartByID (tr_ID q)) d))"
| "stmt_next locking ts now d (StRun c) =
     (case run_target c of
        None \<Rightarrow> None
      | Some i \<Rightarrow> if i \<in> set (locked_runs locking ts) then None else Some (run_call now c d))"
| "stmt_next locking ts now d (StCreate c) = (if creates c then Some (run_call now c d) else None)"

fun stmt_ok :: "stmt \<Rightarrow> bool" where
  "stmt_ok (StRun c) = valid_call c"
| "stmt_ok _ = True"

record conc =
  committed :: db
  txs :: "tx list"

text \<open>
  A transaction may fail at any point (a lost connection, a cancelled request, an error of a
  statement): it is rolled back, and its locks are released.
\<close>

inductive conc_step :: "bool \<Rightarrow> conc \<Rightarrow> conc \<Rightarrow> bool" for locking :: bool where
  open_tx: "job_ok j \<Longrightarrow>
    conc_step locking c (c\<lparr>txs := txs c @ [\<lparr>tx_job = j, tx_now = now, tx_phase = Begun\<rparr>]\<rparr>)"
| tx: "n < length (txs c) \<Longrightarrow> tx_next locking (txs c) (committed c) (txs c ! n) = Some (d, p) \<Longrightarrow>
    conc_step locking c \<lparr>committed = d, txs = (txs c)[n := (txs c ! n)\<lparr>tx_phase := p\<rparr>]\<rparr>"
| abort: "n < length (txs c) \<Longrightarrow> \<forall>res. tx_phase (txs c ! n) \<noteq> Ended res \<Longrightarrow>
    conc_step locking c (c\<lparr>txs := (txs c)[n := (txs c ! n)\<lparr>tx_phase := Ended (Inl (DbError e))\<rparr>]\<rparr>)"
| stmt: "stmt_ok s \<Longrightarrow> stmt_next locking (txs c) now (committed c) s = Some d \<Longrightarrow>
    conc_step locking c (c\<lparr>committed := d\<rparr>)"

inductive conc_reach :: "bool \<Rightarrow> conc \<Rightarrow> bool" for locking :: bool where
  start: "conc_reach locking \<lparr>committed = empty_db, txs = []\<rparr>"
| step: "conc_reach locking c \<Longrightarrow> conc_step locking c c' \<Longrightarrow> conc_reach locking c'"

subsection \<open>What statements leave alone\<close>

text \<open>The part of a run's shards that the count looks at.\<close>

definition open_shards :: "int \<Rightarrow> db \<Rightarrow> (int \<times> bool) list" where
  "open_shards k d = map (\<lambda>s. (sh_id s, outstanding_status (sh_status s))) (shards_of k d)"

lemma open_shards_cong: "db_shards d' = db_shards d \<Longrightarrow> open_shards k d' = open_shards k d"
  by (simp add: open_shards_def shards_of_def)

lemma find_shard_cong: "db_shards d' = db_shards d \<Longrightarrow> find_shard k d' = find_shard k d"
  by (simp add: find_shard_def)

lemma job_eff_simps [simp]:
  "sh_id (job_eff now j s) = sh_id s" "sh_run_id (job_eff now j s) = sh_run_id s"
  by (cases j; simp add: set_shard_outcome_def set_shard_failed_def)+

lemma job_eff_ended: "job_ok j \<Longrightarrow> \<not> outstanding_status (sh_status (job_eff now j s))"
  by (cases j) (auto simp: set_shard_failed_def dest!: outcome_status outstanding_not_terminal)

definition job_finish :: "time \<Rightarrow> job \<Rightarrow> db \<Rightarrow> (store_error + unit) \<times> db" where
  "job_finish now j d = finishShard now (job_shard j) (job_guard j) (job_eff now j) (job_miss j) d"

lemma job_call_finish:
  assumes "job_ok j"
  shows "run_call now (job_call j) d = snd (job_finish now j d)"
proof (cases j)
  case (Job_Complete i req)
  then obtain st where st: "shard_status_of (cs_Status req) = Some st"
    using assms outcome_status by fastforce
  have "text_ok (cs_Status req)"
    using Job_Complete assms by (auto simp: outcome_text_def text_ok_def)
  moreover have "job_guard j = (\<lambda>s. sh_status s = Running)"
    "job_eff now j = set_shard_outcome now st req"
    using Job_Complete st by (auto intro!: ext)
  ultimately show ?thesis using Job_Complete assms st
    by (simp add: job_finish_def CompleteShard_def)
next
  case (Job_Fail i reason)
  moreover from this have "job_guard j = (\<lambda>s. sh_status s \<in> {Queued, Running})"
    "job_eff now j = set_shard_failed now reason"
    by (auto intro!: ext)
  ultimately show ?thesis using assms by (simp add: job_finish_def FailShard_def)
qed

lemma claim_stable:
  assumes "i' \<noteq> i"
  shows "find_shard i' (snd (claim_shard now i again miss d)) = find_shard i' d"
    and "open_shards k (snd (claim_shard now i again miss d)) = open_shards k d"
proof -
  obtain x d1 where c: "claim_shard now i again miss d = (x, d1)" by fastforce
  have "find_shard i' d1 = find_shard i' d \<and> open_shards k d1 = open_shards k d"
  proof (cases x)
    case (Inl e)
    then show ?thesis using c claim_shard_Inl [of now i again miss d e d1] by simp
  next
    case (Inr a)
    let ?P = "\<lambda>s. sh_id s = i \<and> shard_guard again s \<and> find_run (sh_run_id s) d \<noteq> None"
    from c Inr have d1: "d1 = d\<lparr>db_shards := upd_where ?P (set_shard_running now) (db_shards d)\<rparr>"
      by (auto elim: claim_shard_Inr)
    have "find_shard i' d1 = find_shard i' d" unfolding d1
      using assms by (auto simp: find_shard_def set_shard_running_def intro!: find_upd_where)
    moreover have "shards_of k d1 = upd_where ?P (set_shard_running now) (shards_of k d)"
      unfolding d1 by (rule shards_of_upd) (simp add: set_shard_running_def)
    then have "open_shards k d1 = open_shards k d"
      unfolding open_shards_def
      by (simp only:) (rule map_upd_where, auto simp: set_shard_running_def shard_guard_def split: if_splits)
    ultimately show ?thesis by simp
  qed
  with c show "find_shard i' (snd (claim_shard now i again miss d)) = find_shard i' d"
    "open_shards k (snd (claim_shard now i again miss d)) = open_shards k d" by simp_all
qed

lemma finish_stable:
  assumes fin: "job_finish now j d = (x, d')"
  shows "i' \<noteq> job_shard j \<Longrightarrow> find_shard i' d' = find_shard i' d"
    and "wf_db d \<Longrightarrow> (\<And>s. find_shard (job_shard j) d = Some s \<Longrightarrow> sh_run_id s \<noteq> k) \<Longrightarrow>
      open_shards k d' = open_shards k d"
proof -
  let ?P = "\<lambda>s. sh_id s = job_shard j \<and> job_guard j s"
  have "d' = d \<or> db_shards d' = upd_where ?P (job_eff now j) (db_shards d)"
    using fin [unfolded job_finish_def] job_eff_simps(2)
    by (cases rule: finishShard_cases) (auto dest: barrier_shards)
  then show "find_shard i' d' = find_shard i' d" if "i' \<noteq> job_shard j"
    using that by (auto simp: find_shard_def intro!: find_upd_where)
  assume wf: "wf_db d" and other: "\<And>s. find_shard (job_shard j) d = Some s \<Longrightarrow> sh_run_id s \<noteq> k"
  have "upd_where ?P (job_eff now j) (shards_of k d) = shards_of k d"
  proof (rule upd_where_none, rule ballI, rule notI)
    fix s assume s: "s \<in> set (shards_of k d)" "?P s"
    then have "find_shard (job_shard j) d = Some s" using wf_find_shard [OF wf, of s] by (simp add: set_shards_of)
    with other s(1) show False by (simp add: set_shards_of)
  qed
  moreover have "d' = d \<or> shards_of k d' = upd_where ?P (job_eff now j) (shards_of k d)"
    using \<open>d' = d \<or> db_shards d' = upd_where ?P (job_eff now j) (db_shards d)\<close>
      shards_of_upd [of ?P "job_eff now j" k d] by (auto simp: shards_of_def)
  ultimately show "open_shards k d' = open_shards k d" by (auto simp: open_shards_def)
qed

lemma find_append_Some: "List.find P xs = Some x \<Longrightarrow> List.find P (xs @ ys) = Some x"
  by (induction xs) (auto split: if_splits)

lemma create_stable:
  assumes wf: "wf_db d" and c: "creates c"
  shows "find_shard i d = Some s \<Longrightarrow> find_shard i (run_call now c d) = Some s"
    and "k < db_next_run d \<Longrightarrow> open_shards k (run_call now c d) = open_shards k d"
proof -
  have *: "\<exists>ss. db_shards (run_call now c d) = db_shards d @ ss \<and>
      (\<forall>s \<in> set ss. sh_run_id s = db_next_run d)"
  proof (cases c rule: creates.cases)
    case (1 req)
    then show ?thesis
      by (auto simp: Create_def insert_run_def Let_def split: sum.splits prod.splits if_splits)
  next
    case (2 req vus)
    obtain x d' where C: "CreateWithShards now req vus d = (x, d')" by fastforce
    then show ?thesis using 2
    proof (cases rule: CreateWithShards_cases)
      case created
      then show ?thesis using 2 C
        by (auto simp: shard_rows_conv new_shard_row_def intro!: exI)
    qed (simp add: rollback_def C)
  qed (use c in simp_all)
  then obtain ss where ss: "db_shards (run_call now c d) = db_shards d @ ss"
    "\<forall>s \<in> set ss. sh_run_id s = db_next_run d" by blast
  show "find_shard i (run_call now c d) = Some s" if "find_shard i d = Some s"
    using that ss(1) by (simp add: find_shard_def find_append_Some)
  show "open_shards k (run_call now c d) = open_shards k d" if "k < db_next_run d"
    using that ss by (auto simp: open_shards_def shards_of_def filter_empty_conv)
qed

lemma run_stable:
  assumes "run_target c = Some i"
  shows "db_shards (run_call now c d) = db_shards d"
  using assms by (cases c rule: run_target.cases) (simp_all add: shards_untouched)

subsection \<open>The invariant\<close>

definition tx_inv :: "db \<Rightarrow> tx \<Rightarrow> bool" where
  "tx_inv d t \<longleftrightarrow> job_ok (tx_job t) \<and>
     (\<forall>row. own_row (tx_phase t) = Some row \<longrightarrow>
        (\<exists>s. find_shard (job_shard (tx_job t)) d = Some s \<and> job_guard (tx_job t) s \<and>
           row = job_eff (tx_now t) (tx_job t) s)) \<and>
     (\<forall>row b. tx_phase t = Counted row b \<longrightarrow>
        b = (\<forall>(i, out) \<in> set (open_shards (sh_run_id row) d). i = sh_id row \<or> \<not> out))"

definition apart :: "(phase \<Rightarrow> int option) \<Rightarrow> tx list \<Rightarrow> bool" where
  "apart f ts \<longleftrightarrow>
     (\<forall>m < length ts. \<forall>n < length ts. \<forall>x y. m \<noteq> n \<longrightarrow>
        f (tx_phase (ts ! m)) = Some x \<longrightarrow> f (tx_phase (ts ! n)) = Some y \<longrightarrow> x \<noteq> y)"

definition own_shard :: "phase \<Rightarrow> int option" where
  "own_shard p = map_option sh_id (own_row p)"

definition conc_inv :: "conc \<Rightarrow> bool" where
  "conc_inv c \<longleftrightarrow> store_reach (committed c) \<and> (\<forall>t \<in> set (txs c). tx_inv (committed c) t) \<and>
     apart own_shard (txs c) \<and> apart own_run (txs c)"

lemma own_run_row: "own_run p = Some k \<Longrightarrow> \<exists>row. own_row p = Some row \<and> sh_run_id row = k"
  by (cases p) auto

lemma not_null_mem: "x \<in> set (not_null xs) \<longleftrightarrow> Some x \<in> set xs"
  by (induction xs rule: induct_list012) (auto simp: not_null_def)

lemma locked_shards_mem:
  "i \<in> set (locked_shards ts) \<longleftrightarrow> (\<exists>t \<in> set ts. own_shard (tx_phase t) = Some i)"
  by (force simp: locked_shards_def not_null_mem own_shard_def)

lemma locked_runs_mem:
  "k \<in> set (locked_runs True ts) \<longleftrightarrow> (\<exists>t \<in> set ts. own_run (tx_phase t) = Some k)"
  by (force simp: locked_runs_def not_null_mem)

lemma apart_append: "apart f ts \<Longrightarrow> f (tx_phase t) = None \<Longrightarrow> apart f (ts @ [t])"
  unfolding apart_def
proof (intro allI impI)
  fix m n x y
  assume old: "\<forall>m<length ts. \<forall>n<length ts. \<forall>x y. m \<noteq> n \<longrightarrow>
      f (tx_phase (ts ! m)) = Some x \<longrightarrow> f (tx_phase (ts ! n)) = Some y \<longrightarrow> x \<noteq> y"
    and t: "f (tx_phase t) = None"
    and mn: "m < length (ts @ [t])" "n < length (ts @ [t])" "m \<noteq> n"
    and x: "f (tx_phase ((ts @ [t]) ! m)) = Some x" and y: "f (tx_phase ((ts @ [t]) ! n)) = Some y"
  have "m < length ts" "n < length ts" using mn x y t by (auto simp: less_Suc_eq)
  with old mn(3) x y show "x \<noteq> y" by (simp add: nth_append)
qed

lemma apart_update:
  assumes "apart f ts" and "n < length ts"
    and "\<And>x. f p = Some x \<Longrightarrow>
      f (tx_phase (ts ! n)) = Some x \<or> \<not> (\<exists>t \<in> set ts. f (tx_phase t) = Some x)"
  shows "apart f (ts[n := (ts ! n)\<lparr>tx_phase := p\<rparr>])"
  unfolding apart_def length_list_update
proof (intro allI impI)
  fix m k x y
  assume mk: "m < length ts" "k < length ts" "m \<noteq> k"
    and x: "f (tx_phase (ts[n := (ts ! n)\<lparr>tx_phase := p\<rparr>] ! m)) = Some x"
    and y: "f (tx_phase (ts[n := (ts ! n)\<lparr>tx_phase := p\<rparr>] ! k)) = Some y"
  have old: "f (tx_phase (ts ! i)) = Some z \<Longrightarrow> f (tx_phase (ts ! j)) = Some z \<Longrightarrow>
      i < length ts \<Longrightarrow> j < length ts \<Longrightarrow> i = j" for i j z
    using assms(1) unfolding apart_def by blast
  show "x \<noteq> y"
  proof
    assume "x = y"
    show False
    proof (cases "n = m \<or> n = k")
      case True
      define j where "j = (if n = m then k else m)"
      have j: "j < length ts" "j \<noteq> n" using mk True by (auto simp: j_def)
      have "f p = Some x" "f (tx_phase (ts ! j)) = Some x"
        using True mk x y \<open>x = y\<close> by (auto simp: j_def nth_list_update split: if_splits)
      then show False using assms(3) [of x] old [of n x j] j assms(2) by auto
    next
      case False
      then show False using old [of m x k] mk x y \<open>x = y\<close> by simp
    qed
  qed
qed

lemma tx_inv_row:
  assumes "tx_inv d t" and "own_row (tx_phase t) = Some row"
  shows "\<exists>s. find_shard (sh_id row) d = Some s \<and> sh_run_id s = sh_run_id row \<and>
    job_guard (tx_job t) s \<and> row = job_eff (tx_now t) (tx_job t) s \<and> sh_id row = job_shard (tx_job t)"
proof -
  obtain s where s: "find_shard (job_shard (tx_job t)) d = Some s" "job_guard (tx_job t) s"
    "row = job_eff (tx_now t) (tx_job t) s"
    using assms by (auto simp: tx_inv_def)
  then show ?thesis using find_shard_mem [OF s(1)] by (intro exI [of _ s]) simp
qed

lemma tx_inv_stable:
  assumes inv: "tx_inv d t"
    and row: "\<And>i. own_shard (tx_phase t) = Some i \<Longrightarrow> find_shard i d' = find_shard i d"
    and run: "\<And>k. own_run (tx_phase t) = Some k \<Longrightarrow> open_shards k d' = open_shards k d"
  shows "tx_inv d' t"
  unfolding tx_inv_def
proof (intro conjI allI impI)
  show "job_ok (tx_job t)" using inv by (simp add: tx_inv_def)
  fix r assume r: "own_row (tx_phase t) = Some r"
  then obtain s where "find_shard (sh_id r) d = Some s" "job_guard (tx_job t) s"
    "r = job_eff (tx_now t) (tx_job t) s" "sh_id r = job_shard (tx_job t)"
    using tx_inv_row [OF inv] by blast
  with row [of "sh_id r"] r show "\<exists>s. find_shard (job_shard (tx_job t)) d' = Some s \<and>
      job_guard (tx_job t) s \<and> r = job_eff (tx_now t) (tx_job t) s"
    by (auto simp: own_shard_def)
next
  fix r b assume "tx_phase t = Counted r b"
  then show "b = (\<forall>(i, out) \<in> set (open_shards (sh_run_id r) d'). i = sh_id r \<or> \<not> out)"
    using inv run [of "sh_run_id r"] by (simp add: tx_inv_def)
qed

subsection \<open>A commit is the atomic operation\<close>

lemma overlay_upd:
  assumes wf: "wf_db d" and s: "find_shard (job_shard j) d = Some s" "job_guard j s"
  shows "overlay (job_eff now j s) d =
    d\<lparr>db_shards := upd_where (\<lambda>s. sh_id s = job_shard j \<and> job_guard j s) (job_eff now j) (db_shards d)\<rparr>"
proof -
  have s': "s \<in> set (db_shards d)" "sh_id s = job_shard j" using find_shard_mem [OF s(1)] by auto
  have "(if sh_id r = sh_id (job_eff now j s) then job_eff now j s else r) =
      (if sh_id r = job_shard j \<and> job_guard j r then job_eff now j r else r)"
    if r: "r \<in> set (db_shards d)" for r
  proof (cases "sh_id r = job_shard j")
    case True
    then have "r = s" using wf_find_shard [OF wf r] s(1) by simp
    then show ?thesis using s s' by simp
  qed (simp add: s'(2))
  then show ?thesis unfolding overlay_def upd_where_def by (simp cong: map_cong)
qed

lemma overlay_remaining:
  assumes wf: "wf_db d" and s: "find_shard (sh_id row) d = Some s" "sh_run_id s = sh_run_id row"
    and row: "\<not> outstanding_status (sh_status row)"
  shows "remaining (sh_run_id row) (overlay row d) = 0 \<longleftrightarrow>
    (\<forall>(i, out) \<in> set (open_shards (sh_run_id row) d). i = sh_id row \<or> \<not> out)"
proof -
  have uniq: "r = s" if "r \<in> set (db_shards d)" "sh_id r = sh_id row" for r
    using wf_find_shard [OF wf that(1)] that(2) s(1) by simp
  have "overlay row d = d\<lparr>db_shards := upd_where (\<lambda>s. sh_id s = sh_id row \<and> sh_run_id s = sh_run_id row)
      (\<lambda>_. row) (db_shards d)\<rparr>"
    unfolding overlay_def upd_where_def
    using uniq s(2) by (intro arg_cong [where f = "\<lambda>x. d\<lparr>db_shards := x\<rparr>"] map_cong) auto
  then have "shards_of (sh_run_id row) (overlay row d) =
      upd_where (\<lambda>s. sh_id s = sh_id row \<and> sh_run_id s = sh_run_id row) (\<lambda>_. row)
        (shards_of (sh_run_id row) d)"
    by (simp only:) (rule shards_of_upd, simp)
  also have "\<dots> = map (\<lambda>s. if sh_id s = sh_id row then row else s) (shards_of (sh_run_id row) d)"
    by (auto simp: upd_where_def set_shards_of)
  finally show ?thesis using row by (auto simp: remaining_0 open_shards_def)
qed

text \<open>A transaction changes the committed state only when it ends, and then as \<open>job_finish\<close> does.\<close>

lemma tx_next_atomic:
  assumes wf: "wf_db d" and inv: "tx_inv d t" and nxt: "tx_next True ts d t = Some (d', p)"
  shows "(case p of Ended res \<Rightarrow> (res, d') = job_finish (tx_now t) (tx_job t) d | _ \<Rightarrow> d' = d)"
proof -
  let ?P = "\<lambda>s. sh_id s = job_shard (tx_job t) \<and> job_guard (tx_job t) s"
  let ?eff = "job_eff (tx_now t) (tx_job t)"
  show ?thesis
  proof (cases "tx_phase t")
    case Begun
    then show ?thesis
    proof (cases "List.find ?P (db_shards d)")
      case None
      then have "job_finish (tx_now t) (tx_job t) d =
          (case shardMiss (job_shard (tx_job t)) (job_miss (tx_job t)) d of
             Some e \<Rightarrow> (Inl e, d) | None \<Rightarrow> (Inr (), d))"
        by (simp add: job_finish_def finishShard_def update_by_id_def query_row_returning)
      with None Begun nxt show ?thesis
        by (auto simp: tx_next_def split: if_splits option.split)
    next
      case (Some s)
      with Begun nxt show ?thesis by (auto simp: tx_next_def split: if_splits)
    qed
  next
    case (Counted row b)
    have own: "own_row (tx_phase t) = Some row" using Counted by simp
    obtain s where s: "find_shard (sh_id row) d = Some s" "sh_run_id s = sh_run_id row"
      "job_guard (tx_job t) s" "row = ?eff s" "sh_id row = job_shard (tx_job t)"
      using tx_inv_row [OF inv own] by blast
    have ok: "job_ok (tx_job t)" using inv by (simp add: tx_inv_def)
    let ?d = "d\<lparr>db_shards := upd_where ?P ?eff (db_shards d)\<rparr>"
    have ov: "overlay row d = ?d" using overlay_upd [OF wf, of "tx_job t" s "tx_now t"] s by simp
    have "b \<longleftrightarrow> remaining (sh_run_id row) (overlay row d) = 0"
      using overlay_remaining [OF wf s(1,2)] job_eff_ended [OF ok] s(4) inv Counted
      by (simp add: tx_inv_def)
    then have bar: "barrier (tx_now t) (sh_run_id row) ?d =
        (if b then aggregateRun (tx_now t) (sh_run_id row) ?d else Inr ?d)"
      by (simp add: barrier_def ov)
    have "distinct (map sh_id (db_shards d))" using wf by (simp add: wf_db_def)
    moreover have "s \<in> set (db_shards d)" "sh_id s = job_shard (tx_job t)"
      using find_shard_mem [OF s(1)] s(5) by simp_all
    ultimately have "query_row (returning ?P ?eff (db_shards d)) = Some (?eff s)"
      using s(3) by (rule query_row_unique)
    then have fin: "job_finish (tx_now t) (tx_job t) d =
        (case barrier (tx_now t) (sh_run_id row) ?d of Inl e \<Rightarrow> (Inl e, d) | Inr d' \<Rightarrow> (Inr (), d'))"
      using s by (simp add: job_finish_def finishShard_def update_by_id_def)
    show ?thesis using nxt Counted ov bar fin
      by (auto simp: tx_next_def split: sum.splits if_splits)
  qed (use nxt in \<open>auto simp: tx_next_def split: if_splits\<close>)
qed

lemma tx_next_own:
  assumes wf: "wf_db d" and inv: "tx_inv d t" and nxt: "tx_next True ts d t = Some (d', p)"
  shows "tx_inv d' (t\<lparr>tx_phase := p\<rparr>)"
    and "own_shard p = Some i \<Longrightarrow> own_shard (tx_phase t) = Some i \<or> i \<notin> set (locked_shards ts)"
    and "own_run p = Some k \<Longrightarrow> own_run (tx_phase t) = Some k \<or> k \<notin> set (locked_runs True ts)"
    and "d' \<noteq> d \<Longrightarrow> \<exists>row b. tx_phase t = Counted row b"
proof -
  have ok: "job_ok (tx_job t)" using inv by (simp add: tx_inv_def)
  show "tx_inv d' (t\<lparr>tx_phase := p\<rparr>)"
  proof (cases "tx_phase t")
    case Begun
    have "find_shard (sh_id s) d = Some s" if "s \<in> set (db_shards d)" for s
      using wf_find_shard [OF wf that] .
    then show ?thesis using nxt Begun ok
      by (auto simp: tx_next_def tx_inv_def find_Some_iff split: option.splits if_splits)
        (metis nth_mem)
  next
    case (Locked row)
    have own: "own_row (tx_phase t) = Some row" using Locked by simp
    obtain s where s: "find_shard (sh_id row) d = Some s" "sh_run_id s = sh_run_id row"
      "row = job_eff (tx_now t) (tx_job t) s"
      using tx_inv_row [OF inv own] by blast
    have "remaining (sh_run_id row) (overlay row d) = 0 \<longleftrightarrow>
        (\<forall>(i, out) \<in> set (open_shards (sh_run_id row) d). i = sh_id row \<or> \<not> out)"
      using overlay_remaining [OF wf s(1,2)] job_eff_ended [OF ok] s(3) by simp
    moreover have "d' = d" "p = Counted row (remaining (sh_run_id row) (overlay row d) = 0)"
      using nxt Locked by (auto simp: tx_next_def)
    ultimately show ?thesis using inv own by (simp add: tx_inv_def)
  qed (use nxt inv in \<open>auto simp: tx_next_def tx_inv_def split: if_splits sum.splits\<close>)
  show "own_shard p = Some i \<Longrightarrow> own_shard (tx_phase t) = Some i \<or> i \<notin> set (locked_shards ts)"
    using nxt by (cases "tx_phase t")
      (auto simp: tx_next_def own_shard_def find_Some_iff split: option.splits if_splits sum.splits)
  show "own_run p = Some k \<Longrightarrow> own_run (tx_phase t) = Some k \<or> k \<notin> set (locked_runs True ts)"
    using nxt by (cases "tx_phase t")
      (auto simp: tx_next_def split: option.splits if_splits sum.splits)
  show "d' \<noteq> d \<Longrightarrow> \<exists>row b. tx_phase t = Counted row b"
    using nxt by (cases "tx_phase t") (auto simp: tx_next_def split: option.splits if_splits)
qed

lemma own_run_exists:
  assumes "wf_db d" and "tx_inv d t" and "own_run (tx_phase t) = Some k"
  shows "k < db_next_run d"
proof -
  obtain row where row: "own_row (tx_phase t) = Some row" "sh_run_id row = k"
    using own_run_row [OF assms(3)] by blast
  obtain s where s: "find_shard (sh_id row) d = Some s" "sh_run_id s = k"
    using tx_inv_row [OF assms(2) row(1)] row(2) by blast
  obtain r where "find_run k d = Some r"
    using wf_shard_run [OF assms(1)] find_shard_mem [OF s(1)] s(2) by blast
  then show ?thesis using find_run_mem assms(1) unfolding wf_db_def by blast
qed

lemma conc_inv_tx:
  assumes inv: "conc_inv c" and n: "n < length (txs c)"
    and nxt: "tx_next True (txs c) (committed c) (txs c ! n) = Some (d', p)"
  shows "conc_inv \<lparr>committed = d', txs = (txs c)[n := (txs c ! n)\<lparr>tx_phase := p\<rparr>]\<rparr>"
proof -
  let ?d = "committed c" and ?t = "txs c ! n"
  have wf: "wf_db ?d" using inv store_reach_wf by (simp add: conc_inv_def)
  have t: "tx_inv ?d ?t" using inv n by (simp add: conc_inv_def)
  have ok: "job_ok (tx_job ?t)" using t by (simp add: tx_inv_def)
  note own = tx_next_own [OF wf t nxt]
  have d': "d' = ?d \<or> d' = snd (job_finish (tx_now ?t) (tx_job ?t) ?d)"
    using tx_next_atomic [OF wf t nxt] by (cases p) (auto simp: prod_eq_iff)
  have "store_reach d'"
  proof -
    have "valid_call (job_call (tx_job ?t))" using ok by (cases "tx_job ?t") simp_all
    then show ?thesis
      using d' inv store_reach.call [of ?d "job_call (tx_job ?t)" "tx_now ?t"]
      by (auto simp: conc_inv_def job_call_finish [OF ok])
  qed
  moreover have "tx_inv d' (txs c ! m)" if m: "m < length (txs c)" "m \<noteq> n" for m
  proof (cases "d' = ?d")
    case True
    then show ?thesis using inv m(1) by (simp add: conc_inv_def)
  next
    case False
    then obtain row b where cnt: "tx_phase ?t = Counted row b" using own(4) by blast
    then have row: "own_row (tx_phase ?t) = Some row" by simp
    obtain s where s: "find_shard (sh_id row) ?d = Some s" "sh_run_id s = sh_run_id row"
      "sh_id row = job_shard (tx_job ?t)"
      using tx_inv_row [OF t row] by blast
    have shard_n: "own_shard (tx_phase ?t) = Some (sh_id row)"
      and run_n: "own_run (tx_phase ?t) = Some (sh_run_id row)"
      using cnt by (simp_all add: own_shard_def)
    have fin: "job_finish (tx_now ?t) (tx_job ?t) ?d =
        (fst (job_finish (tx_now ?t) (tx_job ?t) ?d), d')" using False d' by simp
    show ?thesis
    proof (rule tx_inv_stable)
      show "tx_inv ?d (txs c ! m)" using inv m(1) by (simp add: conc_inv_def)
      fix i assume "own_shard (tx_phase (txs c ! m)) = Some i"
      then have "i \<noteq> sh_id row" using inv n m cnt unfolding conc_inv_def apart_def
        by (metis shard_n)
      then show "find_shard i d' = find_shard i ?d" using finish_stable(1) [OF fin] s(3) by simp
    next
      fix k assume "own_run (tx_phase (txs c ! m)) = Some k"
      then have "k \<noteq> sh_run_id row" using inv n m cnt unfolding conc_inv_def apart_def
        by (metis run_n)
      then show "open_shards k d' = open_shards k ?d"
        using finish_stable(2) [OF fin wf] s by auto
    qed
  qed
  moreover have "apart own_shard ((txs c)[n := ?t\<lparr>tx_phase := p\<rparr>])"
    using inv n own(2) by (intro apart_update) (auto simp: conc_inv_def locked_shards_mem)
  moreover have "apart own_run ((txs c)[n := ?t\<lparr>tx_phase := p\<rparr>])"
    using inv n own(3) by (intro apart_update) (auto simp: conc_inv_def locked_runs_mem)
  ultimately show ?thesis using own(1) n
    by (auto simp: conc_inv_def in_set_conv_nth nth_list_update)
qed

lemma stmt_stable:
  assumes wf: "wf_db d" and nxt: "stmt_next True ts now d s = Some d'"
  shows "i \<in> set (locked_shards ts) \<Longrightarrow> find_shard i d = Some r \<Longrightarrow> find_shard i d' = Some r"
    and "k < db_next_run d \<Longrightarrow> open_shards k d' = open_shards k d"
    and "store_reach d \<Longrightarrow> stmt_ok s \<Longrightarrow> store_reach d'"
proof -
  have same: "find_shard i d' = Some r"
    if "db_shards d' = db_shards d" "find_shard i d = Some r" for i r
    using that by (simp add: find_shard_def)
  show "find_shard i d' = Some r" if i: "i \<in> set (locked_shards ts)" and r: "find_shard i d = Some r"
  proof (cases s)
    case (StClaim again j)
    then show ?thesis using nxt i r claim_stable(1) [of i j now again ErrNotQueued d]
      by (auto split: if_splits)
  next
    case (StMark j)
    then have "db_shards d' = db_shards d" using nxt by (auto split: if_splits)
    then show ?thesis using r by (rule same)
  next
    case StClaimNext
    then have "db_shards d' = db_shards d" using nxt by (auto simp: shards_untouched split: option.splits)
    then show ?thesis using r by (rule same)
  next
    case (StRun c)
    then have "db_shards d' = db_shards d" using nxt by (auto simp: run_stable split: if_splits option.splits)
    then show ?thesis using r by (rule same)
  next
    case (StCreate c)
    then show ?thesis using nxt create_stable(1) [OF wf _ r] by (auto split: if_splits)
  qed
  show "open_shards k d' = open_shards k d" if k: "k < db_next_run d"
  proof (cases s)
    case (StClaim again j)
    then show ?thesis using nxt claim_stable(2) [of "j + 1" j k now again ErrNotQueued d]
      by (auto split: if_splits)
  next
    case (StMark j)
    then have "db_shards d' = db_shards d" using nxt by (auto split: if_splits)
    then show ?thesis by (rule open_shards_cong)
  next
    case StClaimNext
    then have "db_shards d' = db_shards d" using nxt by (auto simp: shards_untouched split: option.splits)
    then show ?thesis by (rule open_shards_cong)
  next
    case (StRun c)
    then have "db_shards d' = db_shards d" using nxt by (auto simp: run_stable split: if_splits option.splits)
    then show ?thesis by (rule open_shards_cong)
  next
    case (StCreate c)
    then show ?thesis using nxt create_stable(2) [OF wf _ k] by (auto split: if_splits)
  qed
  show "store_reach d'" if r: "store_reach d" and ok: "stmt_ok s"
  proof (cases s)
    case (StClaim again j)
    then show ?thesis using nxt store_reach.call [OF r, of "CallStartShardHalf again j" now]
      by (auto split: if_splits)
  next
    case (StMark j)
    then show ?thesis using nxt store_reach.call [OF r, of "CallMarkRun j" now]
      by (auto split: if_splits)
  next
    case StClaimNext
    then show ?thesis using nxt r store_reach.call [OF r, of "CallStartByID i" now for i]
      by (auto split: option.splits)
  next
    case (StRun c)
    then show ?thesis using nxt ok store_reach.call [OF r, of c now]
      by (auto split: if_splits option.splits)
  next
    case (StCreate c)
    then have "valid_call c" using nxt by (cases c) (auto split: if_splits)
    then show ?thesis using nxt StCreate store_reach.call [OF r, of c now]
      by (auto split: if_splits)
  qed
qed

lemma conc_inv_step:
  assumes inv: "conc_inv c" and step: "conc_step True c c'"
  shows "conc_inv c'"
  using step
proof (cases rule: conc_step.cases)
  case (open_tx j now)
  then show ?thesis using inv
    by (auto simp: conc_inv_def tx_inv_def own_shard_def intro!: apart_append)
next
  case (tx n d p)
  then show ?thesis using conc_inv_tx [OF inv] by simp
next
  case (abort n e)
  let ?t = "(txs c ! n)\<lparr>tx_phase := Ended (Inl (DbError e))\<rparr>"
  have "tx_inv (committed c) ?t" using inv abort(2) by (simp add: conc_inv_def tx_inv_def)
  moreover have "apart own_shard ((txs c)[n := ?t])" "apart own_run ((txs c)[n := ?t])"
    using inv abort(2) by (auto simp: conc_inv_def own_shard_def intro!: apart_update)
  moreover have "\<forall>u \<in> set ((txs c)[n := ?t]). tx_inv (committed c) u"
    using inv calculation(1) set_update_subset_insert [of "txs c" n ?t] by (auto simp: conc_inv_def)
  ultimately show ?thesis using inv abort(1) by (simp add: conc_inv_def)
next
  case (stmt s now d)
  have wf: "wf_db (committed c)" using inv store_reach_wf by (simp add: conc_inv_def)
  note stable = stmt_stable [OF wf stmt(3)]
  have "tx_inv d t" if t: "t \<in> set (txs c)" for t
  proof (rule tx_inv_stable)
    show ti: "tx_inv (committed c) t" using inv t by (simp add: conc_inv_def)
    fix i assume i: "own_shard (tx_phase t) = Some i"
    then obtain row where "own_row (tx_phase t) = Some row" "sh_id row = i"
      by (auto simp: own_shard_def)
    then obtain r where "find_shard i (committed c) = Some r" using tx_inv_row [OF ti] by blast
    then show "find_shard i d = find_shard i (committed c)"
      using stable(1) [of i r] i t by (auto simp: locked_shards_mem)
  next
    fix k assume "own_run (tx_phase t) = Some k"
    then show "open_shards k d = open_shards k (committed c)"
      using own_run_exists [OF wf, of t] inv t by (intro stable(2)) (auto simp: conc_inv_def)
  qed
  then show ?thesis using inv stmt stable(3) by (simp add: conc_inv_def)
qed

lemma conc_reach_inv: "conc_reach True c \<Longrightarrow> conc_inv c"
proof (induction rule: conc_reach.induct)
  case start
  show ?case by (simp add: conc_inv_def store_reach.empty apart_def)
qed (rule conc_inv_step)

subsection \<open>Traces\<close>

datatype event = Ev_open job time | Ev_tx nat | Ev_stmt time stmt

fun conc_exec :: "bool \<Rightarrow> event list \<Rightarrow> conc \<Rightarrow> conc option" where
  "conc_exec locking [] c = Some c"
| "conc_exec locking (Ev_open j now # es) c =
     (if job_ok j
      then conc_exec locking es (c\<lparr>txs := txs c @ [\<lparr>tx_job = j, tx_now = now, tx_phase = Begun\<rparr>]\<rparr>)
      else None)"
| "conc_exec locking (Ev_tx n # es) c =
     (if n < length (txs c)
      then case tx_next locking (txs c) (committed c) (txs c ! n) of
             None \<Rightarrow> None
           | Some (d, p) \<Rightarrow>
               conc_exec locking es \<lparr>committed = d, txs = (txs c)[n := (txs c ! n)\<lparr>tx_phase := p\<rparr>]\<rparr>
      else None)"
| "conc_exec locking (Ev_stmt now s # es) c =
     (if stmt_ok s
      then case stmt_next locking (txs c) now (committed c) s of
             None \<Rightarrow> None
           | Some d \<Rightarrow> conc_exec locking es (c\<lparr>committed := d\<rparr>)
      else None)"

lemma conc_exec_reach:
  "conc_reach locking c \<Longrightarrow> conc_exec locking es c = Some c' \<Longrightarrow> conc_reach locking c'"
proof (induction es arbitrary: c)
  case (Cons e es)
  show ?case
  proof (cases e)
    case (Ev_open j now)
    with Cons show ?thesis
      by (auto split: if_splits intro: conc_reach.step conc_step.open_tx)
  next
    case (Ev_tx n)
    with Cons.prems obtain d p where nx: "n < length (txs c)"
      "tx_next locking (txs c) (committed c) (txs c ! n) = Some (d, p)"
      "conc_exec locking es \<lparr>committed = d, txs = (txs c)[n := (txs c ! n)\<lparr>tx_phase := p\<rparr>]\<rparr> = Some c'"
      by (auto split: if_splits option.splits)
    show ?thesis
      by (rule Cons.IH [OF conc_reach.step [OF Cons.prems(1) conc_step.tx [OF nx(1,2)]] nx(3)])
  next
    case (Ev_stmt now s)
    with Cons.prems obtain d where nx: "stmt_ok s" "stmt_next locking (txs c) now (committed c) s = Some d"
      "conc_exec locking es (c\<lparr>committed := d\<rparr>) = Some c'"
      by (auto split: if_splits option.splits)
    show ?thesis
      by (rule Cons.IH [OF conc_reach.step [OF Cons.prems(1) conc_step.stmt [OF nx(1,2)]] nx(3)])
  qed
qed simp

text \<open>Two workers finish the two shards of a run at the same time.\<close>

definition two_running :: "event list" where
  "two_running =
     [Ev_stmt 1 (StCreate (CallCreateWithShards sample_request [2, 1])),
      Ev_stmt 2 (StClaim False 1), Ev_stmt 2 (StMark 1), Ev_stmt 3 (StClaim False 2),
      Ev_open (Job_Complete 1 (sample_report Completed 7)) 20,
      Ev_open (Job_Complete 2 (sample_report Completed 5)) 20]"

text \<open>Both write their shard rows before either counts.\<close>

definition race :: "event list" where
  "race = [Ev_tx 0, Ev_tx 1, Ev_tx 0, Ev_tx 1, Ev_tx 0, Ev_tx 1, Ev_tx 0, Ev_tx 1]"

definition start_conc :: conc where
  "start_conc = \<lparr>committed = empty_db, txs = []\<rparr>"

lemmas conc_eval = two_running_def race_def start_conc_def tx_next_def locked_shards_def
  locked_runs_def not_null_def overlay_def remaining_def shards_of_def shard_guard_def
  set_shard_outcome_def sample_report_def shard_status_of_def parse_status_def outcome_text_def
  sample_defs

lemma race_hangs:
  "\<exists>c. conc_exec False (two_running @ race) start_conc = Some c \<and>
     map tx_phase (txs c) = [Ended (Inr ()), Ended (Inr ())] \<and>
     map sh_status (db_shards (committed c)) = [Completed, Completed] \<and>
     map tr_Status (db_runs (committed c)) = [Running]"
  by (simp add: conc_eval)

subsection \<open>What the lock buys\<close>

text \<open>The transaction holding the lock for its run: the first of the two, halfway.\<close>

definition halfway :: "event list" where
  "halfway = two_running @ [Ev_tx 0, Ev_tx 1, Ev_tx 0, Ev_tx 0]"

definition half :: conc where
  "half = the (conc_exec True halfway start_conc)"

lemma half_state:
  "conc_exec True halfway start_conc = Some half" "length (txs half) = 2"
  "tx_job (txs half ! 0) = Job_Complete 1 (sample_report Completed 7)" "tx_now (txs half ! 0) = 20"
  "\<exists>row. tx_phase (txs half ! 0) = Counted row False \<and> sh_id row = 1 \<and> sh_status row = Completed"
  "map sh_id (db_shards (committed half)) = [1, 2]"
  "map sh_status (db_shards (committed half)) = [Running, Running]"
  "tx_next True (txs half) (committed half) (txs half ! 1) = None"
  by (simp_all add: half_def halfway_def conc_eval)

lemma start_conc_reach: "conc_reach locking start_conc"
  unfolding start_conc_def by (rule conc_reach.start)

text \<open>
  C4: concurrent completions behave like sequential ones. Whatever other transactions
  and statements interleave, a shard transaction changes nothing until it ends, and when it
  ends, result and committed state are those of the atomic CompleteShard or FailShard on the
  state committed just before: the barrier's count and the aggregate are never stale.
\<close>

theorem barrier_commit_atomic:
  assumes "conc_reach True c" and "n < length (txs c)"
    and "tx_next True (txs c) (committed c) (txs c ! n) = Some (d, p)"
  defines "j \<equiv> tx_job (txs c ! n)" and "now \<equiv> tx_now (txs c ! n)"
  shows "d = (case p of Ended res \<Rightarrow> run_call now (job_call j) (committed c) | _ \<Rightarrow> committed c) \<and>
    (\<forall>res. p = Ended res \<longrightarrow> res = fst (job_finish now j (committed c))) \<and> store_reach d"
proof -
  have inv: "conc_inv c" using assms(1) by (rule conc_reach_inv)
  have wf: "wf_db (committed c)" and t: "tx_inv (committed c) (txs c ! n)"
    using inv assms(2) store_reach_wf by (auto simp: conc_inv_def)
  have ok: "job_ok j" using t by (simp add: tx_inv_def j_def)
  have "store_reach d" using conc_inv_tx [OF inv assms(2,3)] by (simp add: conc_inv_def)
  with tx_next_atomic [OF wf t assms(3)] show ?thesis
    unfolding job_call_finish [OF ok] j_def [symmetric] now_def [symmetric]
    by (cases p) (auto simp: prod_eq_iff)
qed

theorem barrier_commit_atomic_witness:
  "\<exists>row. tx_phase (txs half ! 0) = Counted row False \<and>
     overlay row (committed half) =
       run_call 20 (CallCompleteShard 1 (sample_report Completed 7)) (committed half)"
proof -
  obtain row where row: "tx_phase (txs half ! 0) = Counted row False" using half_state(5) by blast
  then have nxt: "tx_next True (txs half) (committed half) (txs half ! 0) =
      Some (overlay row (committed half), Ended (Inr ()))"
    by (simp add: tx_next_def)
  have "conc_reach True half" by (rule conc_exec_reach [OF start_conc_reach half_state(1)])
  from barrier_commit_atomic [OF this _ nxt] row show ?thesis by (simp add: half_state)
qed

text \<open>
  C32: the lock cannot deadlock the barrier. As long as a transaction is unfinished,
  some transaction can take its next step: one that holds a run's lock never waits.
\<close>

theorem barrier_no_deadlock:
  assumes "conc_reach True c" and "t \<in> set (txs c)" and "\<forall>res. tx_phase t \<noteq> Ended res"
  shows "\<exists>n d p. n < length (txs c) \<and>
    tx_next True (txs c) (committed c) (txs c ! n) = Some (d, p)"
proof -
  let ?can = "\<lambda>u. \<exists>d p. tx_next True (txs c) (committed c) u = Some (d, p)"
  have "\<exists>u \<in> set (txs c). ?can u"
  proof (cases "\<exists>u \<in> set (txs c). own_run (tx_phase u) \<noteq> None")
    case True
    then obtain u where u: "u \<in> set (txs c)" "own_run (tx_phase u) \<noteq> None" by blast
    then have "?can u"
      by (cases "tx_phase u") (auto simp: tx_next_def split: sum.split)
    with u(1) show ?thesis by blast
  next
    case False
    then have runs: "k \<notin> set (locked_runs True (txs c))" for k by (simp add: locked_runs_mem)
    show ?thesis
    proof (cases "\<exists>u \<in> set (txs c). own_shard (tx_phase u) \<noteq> None")
      case True
      then obtain u where u: "u \<in> set (txs c)" "own_shard (tx_phase u) \<noteq> None" by blast
      with False runs have "?can u"
        by (cases "tx_phase u") (auto simp: tx_next_def own_shard_def)
      with u(1) show ?thesis by blast
    next
      case no_rows: False
      then have "k \<notin> set (locked_shards (txs c))" for k by (simp add: locked_shards_mem)
      then have "?can t" using no_rows assms(2,3)
        by (cases "tx_phase t") (auto simp: tx_next_def own_shard_def split: option.split)
      with assms(2) show ?thesis by blast
    qed
  qed
  then show ?thesis by (metis in_set_conv_nth)
qed

theorem barrier_no_deadlock_witness:
  "tx_next True (txs half) (committed half) (txs half ! 1) = None \<and>
   (\<exists>n d p. n < length (txs half) \<and> tx_next True (txs half) (committed half) (txs half ! n) = Some (d, p))"
proof -
  have reach: "conc_reach True half" by (rule conc_exec_reach [OF start_conc_reach half_state(1)])
  have "txs half ! 0 \<in> set (txs half)" by (rule nth_mem) (simp add: half_state)
  moreover have "\<forall>res. tx_phase (txs half ! 0) \<noteq> Ended res" using half_state(5) by auto
  ultimately show ?thesis using barrier_no_deadlock [OF reach] half_state(8) by blast
qed

end
