(* ===== verification/Target_Url.thy ===== *)
theory Target_Url
  imports Go_Text
begin

section \<open>Parsing target URLs\<close>

text \<open>
  The part of Go's \<^verbatim>\<open>net/url\<close> that \<^verbatim>\<open>targetAllowed\<close> goes through, on bytes: \<^verbatim>\<open>url.Parse\<close> with
  its error conditions, the host it extracts, and \<^verbatim>\<open>URL.Hostname\<close>. Of the parsed URL only
  scheme and host are kept; path, user info and fragment matter for the errors they can
  raise. Whether the text between brackets is an IPv6 address (\<^verbatim>\<open>netip.ParseAddr\<close>) is a
  field of \<open>go_lib\<close>, next to the Unicode tables.
\<close>

record go_lib = unicode_tables +
  lib_is_ip6 :: "string \<Rightarrow> bool"

text \<open>\<^verbatim>\<open>strings.Cut\<close> and its counterpart at the last occurrence, for one byte.\<close>

fun cut_at :: "char \<Rightarrow> string \<Rightarrow> string \<times> string option" where
  "cut_at c [] = ([], None)"
| "cut_at c (x # xs) =
     (if x = c then ([], Some xs) else case cut_at c xs of (a, b) \<Rightarrow> (x # a, b))"

definition cut_last :: "char \<Rightarrow> string \<Rightarrow> string \<times> string option" where
  "cut_last c s =
     (case cut_at c (rev s) of (a, None) \<Rightarrow> (s, None) | (a, Some b) \<Rightarrow> (rev b, Some (rev a)))"

definition is_alpha :: "char \<Rightarrow> bool" where
  "is_alpha c \<longleftrightarrow> (let n = of_char c :: nat in (65 \<le> n \<and> n \<le> 90) \<or> (97 \<le> n \<and> n \<le> 122))"

definition is_ctl :: "char \<Rightarrow> bool" where
  "is_ctl c \<longleftrightarrow> (let n = of_char c :: nat in n < 32 \<or> n = 127)"

fun scheme_end :: "nat \<Rightarrow> string \<Rightarrow> nat option" where
  "scheme_end i [] = None"
| "scheme_end i (c # cs) =
     (if is_alpha c then scheme_end (i + 1) cs
      else if is_digit c \<or> c \<in> set ''+-.'' then (if i = 0 then None else scheme_end (i + 1) cs)
      else if c = CHR '':'' then Some i else None)"

text \<open>\<open>None\<close> is the error "missing protocol scheme".\<close>

definition getScheme :: "string \<Rightarrow> (string \<times> string) option" where
  "getScheme s =
     (case scheme_end 0 s of
        None \<Rightarrow> Some ([], s)
      | Some i \<Rightarrow> if i = 0 then None else Some (take i s, drop (i + 1) s))"

subsection \<open>Escapes\<close>

datatype escape_mode = EncHost | EncZone | EncOther

definition hex_val :: "char \<Rightarrow> nat option" where
  "hex_val c =
     (let n = of_char c :: nat
      in if 48 \<le> n \<and> n \<le> 57 then Some (n - 48)
         else if 97 \<le> n \<and> n \<le> 102 then Some (n - 87)
         else if 65 \<le> n \<and> n \<le> 70 then Some (n - 55)
         else None)"

text \<open>\<^verbatim>\<open>shouldEscape\<close> in the host and zone modes.\<close>

definition host_char :: "char \<Rightarrow> bool" where
  "host_char c \<longleftrightarrow> is_alpha c \<or> is_digit c \<or> c \<in> set ''!$&()*+,;=:[]<>-_.~'' \<or>
     (of_char c :: nat) = 39 \<or> (of_char c :: nat) = 34"

fun unescape :: "escape_mode \<Rightarrow> string \<Rightarrow> string option" where
  "unescape m [] = Some []"
| "unescape m (c # cs) =
     (if c = CHR ''%''
      then (case cs of
              a # b # rest \<Rightarrow>
                (case (hex_val a, hex_val b) of
                   (Some x, Some y) \<Rightarrow>
                     (let v = char_of (16 * x + y)
                      in if m = EncHost \<and> x < 8 \<and> v \<noteq> CHR ''%'' then None
                         else if m = EncZone \<and> v \<noteq> CHR ''%'' \<and> v \<noteq> CHR '' '' \<and> \<not> host_char v then None
                         else map_option ((#) v) (unescape m rest))
                 | _ \<Rightarrow> None)
            | _ \<Rightarrow> None)
      else if m \<noteq> EncOther \<and> (of_char c :: nat) < 128 \<and> \<not> host_char c then None
      else map_option ((#) c) (unescape m cs))"

subsection \<open>Hosts\<close>

definition validOptionalPort :: "string \<Rightarrow> bool" where
  "validOptionalPort p \<longleftrightarrow> p = [] \<or> (hd p = CHR '':'' \<and> list_all is_digit (tl p))"

fun find_zone :: "string \<Rightarrow> string \<times> string option" where
  "find_zone [] = ([], None)"
| "find_zone (c # cs) =
     (if HasPrefix (c # cs) ''%25'' then ([], Some (c # cs))
      else case find_zone cs of (a, b) \<Rightarrow> (c # a, b))"

definition parse_ip_literal :: "go_lib \<Rightarrow> string \<Rightarrow> string option" where
  "parse_ip_literal lib host =
     (case cut_last CHR '']'' host of
        (_, None) \<Rightarrow> None
      | (before, Some colonPort) \<Rightarrow>
          (case cut_last CHR ''['' before of
             (_, None) \<Rightarrow> None
           | (_, Some inner) \<Rightarrow>
               if \<not> validOptionalPort colonPort then None
               else case (case find_zone inner of
                            (h, None) \<Rightarrow> unescape EncHost h
                          | (h, Some z) \<Rightarrow>
                              (case (unescape EncHost h, unescape EncZone z) of
                                 (Some h', Some z') \<Rightarrow> Some (h' @ z') | _ \<Rightarrow> None)) of
                      None \<Rightarrow> None
                    | Some h \<Rightarrow>
                        if lib_is_ip6 lib h then Some (''['' @ h @ '']'' @ colonPort) else None))"

definition parseHost :: "go_lib \<Rightarrow> string \<Rightarrow> string \<Rightarrow> string option" where
  "parseHost lib scheme host =
     (if CHR ''['' \<in> set host then parse_ip_literal lib host
      else
        let colon = (if scheme = ''http'' \<or> scheme = ''https'' then cut_at else cut_last)
        in case colon CHR '':'' host of
             (_, None) \<Rightarrow> unescape EncHost host
           | (_, Some port) \<Rightarrow>
               if validOptionalPort (CHR '':'' # port) then unescape EncHost host else None)"

definition userinfo_char :: "char \<Rightarrow> bool" where
  "userinfo_char c \<longleftrightarrow> is_alpha c \<or> is_digit c \<or> c \<in> set ''-._:~!$&()*+,;=%@'' \<or> (of_char c :: nat) = 39"

definition userinfo_ok :: "string \<Rightarrow> bool" where
  "userinfo_ok u \<longleftrightarrow> list_all userinfo_char u \<and>
     (case cut_at CHR '':'' u of
        (name, None) \<Rightarrow> unescape EncOther name \<noteq> None
      | (name, Some password) \<Rightarrow> unescape EncOther name \<noteq> None \<and> unescape EncOther password \<noteq> None)"

definition parseAuthority :: "go_lib \<Rightarrow> string \<Rightarrow> string \<Rightarrow> string option" where
  "parseAuthority lib scheme authority =
     (case cut_last CHR ''@'' authority of
        (_, None) \<Rightarrow> parseHost lib scheme authority
      | (userinfo, Some host) \<Rightarrow>
          (case parseHost lib scheme host of
             None \<Rightarrow> None
           | Some h \<Rightarrow> if userinfo_ok userinfo then Some h else None))"

subsection \<open>URLs\<close>

record parsed_url =
  pu_Scheme :: string
  pu_Host :: string

definition parse_rest :: "go_lib \<Rightarrow> string \<Rightarrow> string \<Rightarrow> parsed_url option" where
  "parse_rest lib scheme rest =
     (if \<not> HasPrefix rest ''/'' \<and> scheme \<noteq> [] then Some \<lparr>pu_Scheme = scheme, pu_Host = []\<rparr>
      else if \<not> HasPrefix rest ''/'' \<and> CHR '':'' \<in> set (fst (cut_at CHR ''/'' rest)) then None
      else if (scheme \<noteq> [] \<or> \<not> HasPrefix rest ''///'') \<and> HasPrefix rest ''//''
      then (let (authority, path) = (case cut_at CHR ''/'' (drop 2 rest) of
                   (a, None) \<Rightarrow> (a, []) | (a, Some p) \<Rightarrow> (a, CHR ''/'' # p))
            in case parseAuthority lib scheme authority of
                 None \<Rightarrow> None
               | Some host \<Rightarrow>
                   if unescape EncOther path = None then None
                   else Some \<lparr>pu_Scheme = scheme, pu_Host = host\<rparr>)
      else if unescape EncOther rest = None then None
      else Some \<lparr>pu_Scheme = scheme, pu_Host = []\<rparr>)"

definition url_parse :: "go_lib \<Rightarrow> string \<Rightarrow> parsed_url option" where
  "url_parse lib rawURL =
     (let (u, frag) = cut_at CHR ''#'' rawURL
      in if list_ex is_ctl u then None
         else case (if u = ''*'' then Some \<lparr>pu_Scheme = [], pu_Host = []\<rparr>
                    else case getScheme u of
                           None \<Rightarrow> None
                         | Some (scheme, rest) \<Rightarrow>
                             parse_rest lib (ToLower (unicode_tables.truncate lib) scheme)
                               (fst (cut_at CHR ''?'' rest))) of
                None \<Rightarrow> None
              | Some p \<Rightarrow>
                  (case frag of
                     None \<Rightarrow> Some p
                   | Some f \<Rightarrow> if unescape EncOther f = None then None else Some p))"

definition url_Hostname :: "parsed_url \<Rightarrow> string" where
  "url_Hostname p =
     (let host = (case cut_last CHR '':'' (pu_Host p) of
                    (_, None) \<Rightarrow> pu_Host p
                  | (h, Some port) \<Rightarrow> if validOptionalPort (CHR '':'' # port) then h else pu_Host p)
      in if HasPrefix host ''['' \<and> host \<noteq> [] \<and> last host = CHR '']''
         then butlast (tl host) else host)"

subsection \<open>Plain hosts\<close>

text \<open>
  On a host made of letters, digits, dots and dashes, the parser does what one expects: the
  URL's host is that text, and the port goes away. Whatever stands before the last @ of the
  authority does not matter for the host.
\<close>

definition plain_host :: "string \<Rightarrow> bool" where
  "plain_host h \<longleftrightarrow> h \<noteq> [] \<and> (\<forall>c \<in> set h. is_alpha c \<or> is_digit c \<or> c \<in> set ''.-'')"

definition plain_port :: "string \<Rightarrow> bool" where
  "plain_port p \<longleftrightarrow> p = [] \<or> (\<exists>ds. p = CHR '':'' # ds \<and> list_all is_digit ds)"

lemma cut_at_None: "c \<notin> set s \<Longrightarrow> cut_at c s = (s, None)"
  by (induction s) auto

lemma cut_at_append: "c \<notin> set s \<Longrightarrow> cut_at c (s @ c # r) = (s, Some r)"
  by (induction s) auto

lemma cut_last_None: "c \<notin> set s \<Longrightarrow> cut_last c s = (s, None)"
  by (simp add: cut_last_def cut_at_None)

lemma cut_last_append: "c \<notin> set r \<Longrightarrow> cut_last c (s @ c # r) = (s, Some r)"
  using cut_at_append [of c "rev r" "rev s"] by (simp add: cut_last_def)

lemma unescape_plain:
  "\<forall>c \<in> set s. c \<noteq> CHR ''%'' \<and> (m = EncOther \<or> host_char c) \<Longrightarrow> unescape m s = Some s"
  by (induction s) auto

lemma special_not_plain:
  assumes "c \<in> set ''/?#@:[]%''"
  shows "\<not> is_alpha c" "\<not> is_digit c" "c \<notin> set ''.-''"
  using assms by (auto simp: is_alpha_def is_digit_def)

lemma plain_host_avoid: "plain_host h \<Longrightarrow> c \<in> set ''/?#@:[]%'' \<Longrightarrow> c \<notin> set h"
  using special_not_plain unfolding plain_host_def by blast

lemma plain_portD: "plain_port p \<Longrightarrow> c \<in> set p \<Longrightarrow> c = CHR '':'' \<or> is_digit c"
  by (auto simp: plain_port_def list_all_iff)

lemma plain_port_avoid: "plain_port p \<Longrightarrow> c \<in> set ''/?#@[]%'' \<Longrightarrow> c \<notin> set p"
proof -
  assume p: "plain_port p" and c: "c \<in> set ''/?#@[]%''"
  have "\<not> is_digit c" "c \<noteq> CHR '':''" using c by (auto simp: is_digit_def)
  with plain_portD [OF p, of c] show "c \<notin> set p" by blast
qed

lemma plain_char_host: "is_alpha c \<or> is_digit c \<or> c \<in> set ''.-'' \<or> c = CHR '':'' \<Longrightarrow> host_char c"
  by (auto simp: host_char_def)

lemma plain_chars:
  assumes "plain_host h" and "plain_port p"
  shows "\<forall>c \<in> set (h @ p). c \<noteq> CHR ''%'' \<and> host_char c"
proof
  fix c assume c: "c \<in> set (h @ p)"
  have "host_char c"
  proof (rule plain_char_host, cases "c \<in> set h")
    case True
    with assms(1) show "is_alpha c \<or> is_digit c \<or> c \<in> set ''.-'' \<or> c = CHR '':''"
      unfolding plain_host_def by blast
  next
    case False
    with c have "c \<in> set p" by simp
    with plain_portD [OF assms(2)] show "is_alpha c \<or> is_digit c \<or> c \<in> set ''.-'' \<or> c = CHR '':''"
      by blast
  qed
  moreover have "c \<noteq> CHR ''%''"
    using plain_host_avoid [OF assms(1), of "CHR ''%''"] plain_port_avoid [OF assms(2), of "CHR ''%''"] c
    by auto
  ultimately show "c \<noteq> CHR ''%'' \<and> host_char c" by blast
qed

lemma plain_parseHost:
  assumes h: "plain_host h" and p: "plain_port p"
  shows "parseHost lib scheme (h @ p) = Some (h @ p)"
proof -
  have hc: "CHR '':'' \<notin> set h" using plain_host_avoid [OF h] by simp
  have un: "unescape EncHost (h @ p) = Some (h @ p)"
    using plain_chars [OF h p] by (intro unescape_plain) blast
  have br: "CHR ''['' \<notin> set (h @ p)"
    using plain_host_avoid [OF h] plain_port_avoid [OF p] by simp
  show ?thesis
  proof (cases "p = []")
    case True
    then show ?thesis using un br hc
      by (simp add: parseHost_def Let_def cut_at_None cut_last_None)
  next
    case False
    then obtain ds where ds: "p = CHR '':'' # ds" "list_all is_digit ds" using p by (auto simp: plain_port_def)
    then have "CHR '':'' \<notin> set ds" using special_not_plain(2) by (auto simp: list_all_iff)
    with ds un br hc show ?thesis
      by (simp add: parseHost_def Let_def cut_at_append cut_last_append validOptionalPort_def)
  qed
qed

lemma plain_Hostname:
  assumes h: "plain_host h" and p: "plain_port p"
  shows "url_Hostname \<lparr>pu_Scheme = s, pu_Host = h @ p\<rparr> = h"
proof -
  have hc: "CHR '':'' \<notin> set h" using plain_host_avoid [OF h] by simp
  have nb: "\<not> HasPrefix h ''[''"
    using plain_host_avoid [OF h, of "CHR ''[''"] by (auto simp: HasPrefix_iff)
  show ?thesis
  proof (cases "p = []")
    case True
    then show ?thesis using hc nb by (simp add: url_Hostname_def cut_last_None)
  next
    case False
    then obtain ds where ds: "p = CHR '':'' # ds" "list_all is_digit ds" using p by (auto simp: plain_port_def)
    then have "CHR '':'' \<notin> set ds" using special_not_plain(2) by (auto simp: list_all_iff)
    with ds nb show ?thesis
      by (simp add: url_Hostname_def cut_last_append validOptionalPort_def)
  qed
qed

subsection \<open>Web URLs\<close>

text \<open>Characters that end the authority, the path or the URL, or make it invalid.\<close>

definition quiet :: "string \<Rightarrow> string \<Rightarrow> bool" where
  "quiet avoid s \<longleftrightarrow> (\<forall>c \<in> set s. c \<notin> set avoid \<and> \<not> is_ctl c)"

lemma quiet_append [simp]: "quiet av (s @ t) \<longleftrightarrow> quiet av s \<and> quiet av t"
  by (auto simp: quiet_def)

lemma quietD: "quiet av s \<Longrightarrow> c \<in> set av \<Longrightarrow> c \<notin> set s"
  unfolding quiet_def by blast

lemma quiet_ctl: "quiet av s \<Longrightarrow> \<not> list_ex is_ctl s"
  unfolding quiet_def list_ex_iff by blast

lemma scheme_end_web: "s \<in> {''http'', ''https''} \<Longrightarrow> scheme_end 0 (s @ CHR '':'' # r) = Some (length s)"
  by (auto simp: is_alpha_def Let_def is_digit_def)

lemma url_parse_web:
  assumes s: "s \<in> {''http'', ''https''}" and a: "quiet ''/?#'' a"
    and path: "quiet ''%?#'' path" "path = [] \<or> hd path = CHR ''/''"
  shows "url_parse lib (s @ ''://'' @ a @ path) =
    map_option (\<lambda>h. \<lparr>pu_Scheme = s, pu_Host = h\<rparr>) (parseAuthority lib s a)"
proof -
  let ?u = "s @ ''://'' @ a @ path"
  have sch: "getScheme ?u = Some (s, ''//'' @ a @ path)"
    using scheme_end_web [OF s, of "''//'' @ a @ path"] s by (auto simp: getScheme_def)
  have low: "ToLower u s = s" for u
    using s by (auto simp: ToLower_def is_ascii_def ascii_lower_def)
  have hash: "CHR ''#'' \<notin> set a" "CHR ''#'' \<notin> set path" "CHR ''#'' \<notin> set s"
    and quest: "CHR ''?'' \<notin> set a" "CHR ''?'' \<notin> set path" and slash: "CHR ''/'' \<notin> set a"
    using quietD [OF a, of "CHR ''#''"] quietD [OF a, of "CHR ''?''"] quietD [OF a, of "CHR ''/''"]
      quietD [OF path(1), of "CHR ''#''"] quietD [OF path(1), of "CHR ''?''"] s
    by auto
  have frag: "cut_at CHR ''#'' ?u = (?u, None)" using hash by (intro cut_at_None) simp
  have ctl: "\<not> list_ex is_ctl ?u"
    using s quiet_ctl [OF a] quiet_ctl [OF path(1)] by (auto simp: is_ctl_def Let_def)
  have query: "cut_at CHR ''?'' (''//'' @ a @ path) = (''//'' @ a @ path, None)"
    using quest by (intro cut_at_None) simp
  have esc: "unescape EncOther path = Some path"
    using quietD [OF path(1), of "CHR ''%''"] by (intro unescape_plain) auto
  have pre: "HasPrefix (''//'' @ a @ path) ''/''" "HasPrefix (''//'' @ a @ path) ''//''"
    by (simp_all add: HasPrefix_iff)
  have nonempty: "s \<noteq> []" "?u \<noteq> ''*''" using s by auto
  have auth: "(case cut_at CHR ''/'' (a @ path) of (x, None) \<Rightarrow> (x, [])
      | (x, Some p) \<Rightarrow> (x, CHR ''/'' # p)) = (a, path)"
    using path(2) slash by (cases path) (auto simp: cut_at_None cut_at_append)
  have "parse_rest lib s (''//'' @ a @ path) =
      map_option (\<lambda>h. \<lparr>pu_Scheme = s, pu_Host = h\<rparr>) (parseAuthority lib s a)"
    unfolding parse_rest_def using pre nonempty(1) auth esc
    by (simp split: option.split)
  then show ?thesis
    unfolding url_parse_def frag Let_def prod.case using ctl nonempty(2) sch low query
    by (simp split: option.split)
qed

lemma parseAuthority_plain:
  assumes h: "plain_host h" and p: "plain_port p"
  shows "parseAuthority lib s (h @ p) = Some (h @ p)"
    and "parseAuthority lib s (u @ ''@'' @ h @ p) = (if userinfo_ok u then Some (h @ p) else None)"
proof -
  have "CHR ''@'' \<notin> set (h @ p)" using plain_host_avoid [OF h] plain_port_avoid [OF p] by simp
  then show "parseAuthority lib s (h @ p) = Some (h @ p)"
    "parseAuthority lib s (u @ ''@'' @ h @ p) = (if userinfo_ok u then Some (h @ p) else None)"
    using plain_parseHost [OF h p]
    by (simp_all add: parseAuthority_def cut_last_None cut_last_append)
qed

lemma is_ctl_char: "is_alpha c \<or> is_digit c \<or> c \<in> set ''.-'' \<or> c = CHR '':'' \<Longrightarrow> \<not> is_ctl c"
  by (auto simp: is_alpha_def is_digit_def is_ctl_def Let_def)

lemma plain_quiet:
  assumes "plain_host h" and "plain_port p"
  shows "quiet ''/?#'' (h @ p)"
  unfolding quiet_def
proof (intro ballI conjI)
  fix c assume c: "c \<in> set (h @ p)"
  have "is_alpha c \<or> is_digit c \<or> c \<in> set ''.-'' \<or> c = CHR '':''"
  proof (cases "c \<in> set h")
    case True
    then show ?thesis using assms(1) unfolding plain_host_def by blast
  next
    case False
    then show ?thesis using c plain_portD [OF assms(2), of c] by auto
  qed
  then show "\<not> is_ctl c" by (rule is_ctl_char)
  show "c \<notin> set ''/?#''"
    using c plain_host_avoid [OF assms(1), of c] plain_port_avoid [OF assms(2), of c] by auto
qed

end
