(* ===== verification/Api_Validation.thy ===== *)
theory Api_Validation
  imports Target_Url Run_Store
begin

section \<open>Admitting requests\<close>

text \<open>
  What \<^verbatim>\<open>handlers/test_runs.go\<close> and \<^verbatim>\<open>cmd/api/main.go\<close> compute before the store is asked: the
  validation that normalises a create request in place, the split of its virtual users over
  shards, the target allowlist and the environment it comes from, and the validation of a
  completion request.
\<close>

subsection \<open>Splitting virtual users\<close>

text \<open>
  \<open>None\<close> is a panic: division by zero, or \<^verbatim>\<open>make\<close> with a negative length. Go's division
  truncates towards zero.
\<close>

definition splitVUs :: "int \<Rightarrow> int \<Rightarrow> int list option" where
  "splitVUs vus n =
     (if n \<le> 0 then None
      else let base = vus sdiv n; rem = vus smod n
           in Some (map (\<lambda>i. if int i < rem then base + 1 else base) [0..<nat n]))"

lemma splitVUs_pos:
  assumes "0 \<le> t" and "0 < n"
  shows "splitVUs t n = Some (map (\<lambda>i. if int i < t mod n then t div n + 1 else t div n) [0..<nat n])"
  using assms
  by (cases "t = 0") (simp_all add: splitVUs_def Let_def signed_divide_int_def signed_modulo_int_def)

lemma sum_split:
  "sum_list (map (\<lambda>i. if int i < r then b + 1 else b) [0..<k]) = int k * b + min (int k) (max 0 r)"
  for r b :: int
  by (induction k) (auto simp: algebra_simps)

lemma splitVUs_sum:
  assumes "0 \<le> t" and "0 < n" and "splitVUs t n = Some vus"
  shows "sum_list vus = t" and "int (length vus) = n"
proof -
  have vus: "vus = map (\<lambda>i. if int i < t mod n then t div n + 1 else t div n) [0..<nat n]"
    using assms by (simp add: splitVUs_pos)
  have m: "0 \<le> t mod n" "t mod n < n" using assms(2) by simp_all
  have "sum_list vus = n * (t div n) + t mod n"
    unfolding vus sum_split using assms(2) m by simp
  then show "sum_list vus = t" by simp
  show "int (length vus) = n" using assms(2) by (simp add: vus)
qed

lemma splitVUs_bounds:
  assumes "0 \<le> t" and "0 < n" and "splitVUs t n = Some vus" and "v \<in> set vus"
  shows "t div n \<le> v \<and> v \<le> t div n + 1"
  using assms by (auto simp: splitVUs_pos split: if_splits)

subsection \<open>Validating a create request\<close>

definition allowedMethods :: "string list" where
  "allowedMethods = [''GET'', ''POST'', ''PUT'', ''PATCH'', ''DELETE'', ''HEAD'']"

definition maxVirtualUsers :: int where "maxVirtualUsers = 1000"
definition maxDurationSeconds :: int where "maxDurationSeconds = 3600"
definition maxShards :: int where "maxShards = 64"
definition maxHeaders :: int where "maxHeaders = 50"
definition maxBodyBytes :: int where "maxBodyBytes = 2 ^ 20"
definition maxThinkTimeMs :: int where "maxThinkTimeMs = 60 * 1000"

lemmas limits = maxVirtualUsers_def maxDurationSeconds_def maxShards_def maxHeaders_def
  maxBodyBytes_def maxThinkTimeMs_def

text \<open>The first switch, after trimming.\<close>

definition check_basics :: "create_request \<Rightarrow> string" where
  "check_basics req =
     (if cr_Name req = [] then ''name is required''
      else if cr_TargetURL req = [] then ''targetUrl is required''
      else if \<not> HasPrefix (cr_TargetURL req) ''http://'' \<and> \<not> HasPrefix (cr_TargetURL req) ''https://''
        then ''targetUrl must start with http:// or https://''
      else if cr_VirtualUsers req \<le> 0 then ''virtualUsers must be greater than 0''
      else if maxVirtualUsers < cr_VirtualUsers req
        then ''virtualUsers exceeds the maximum of '' @ FormatInt maxVirtualUsers
      else if cr_DurationSeconds req \<le> 0 then ''durationSeconds must be greater than 0''
      else if maxDurationSeconds < cr_DurationSeconds req
        then ''durationSeconds exceeds the maximum of '' @ FormatInt maxDurationSeconds
      else [])"

definition check_shards :: "create_request \<Rightarrow> string" where
  "check_shards req =
     (if cr_Shards req < 1 then ''shards must be at least 1''
      else if maxShards < cr_Shards req then ''shards exceeds the maximum of '' @ FormatInt maxShards
      else if cr_VirtualUsers req < cr_Shards req
        then ''shards cannot exceed virtualUsers (each shard needs at least one VU)''
      else [])"

definition check_shape :: "create_request \<Rightarrow> string" where
  "check_shape req =
     (if maxHeaders < int (length (cr_Headers req))
        then ''too many headers (max '' @ FormatInt maxHeaders @ '')''
      else if maxBodyBytes < int (length (cr_Body req))
        then ''body exceeds the maximum of '' @ FormatInt maxBodyBytes @ '' bytes''
      else if cr_ThinkTimeMs req < 0 then ''thinkTimeMs must not be negative''
      else if maxThinkTimeMs < cr_ThinkTimeMs req
        then ''thinkTimeMs exceeds the maximum of '' @ FormatInt maxThinkTimeMs
      else [])"

text \<open>
  \<open>validateCreate\<close> returns the message, empty when valid, and the request as it leaves it:
  it normalises in place, and an early return leaves the later fields as they were.
\<close>

definition validateCreate :: "unicode_tables \<Rightarrow> create_request \<Rightarrow> string \<times> create_request" where
  "validateCreate u req =
     (let r1 = req\<lparr>cr_Name := TrimSpace (cr_Name req), cr_TargetURL := TrimSpace (cr_TargetURL req)\<rparr>
      in if check_basics r1 \<noteq> [] then (check_basics r1, r1)
         else
           let m = (if cr_Method r1 = [] then ''GET'' else cr_Method r1);
               r2 = r1\<lparr>cr_Method := ToUpper u m\<rparr>
           in if cr_Method r2 \<notin> set allowedMethods
              then (''method must be one of GET, POST, PUT, PATCH, DELETE, HEAD'', r2)
              else
                let r3 = (if cr_Shards r2 = 0 then r2\<lparr>cr_Shards := 1\<rparr> else r2)
                in if check_shards r3 \<noteq> [] then (check_shards r3, r3)
                   else (check_shape r3, r3))"

text \<open>What an accepted request looks like.\<close>

definition request_ok :: "create_request \<Rightarrow> bool" where
  "request_ok r \<longleftrightarrow>
     cr_Name r \<noteq> [] \<and> TrimSpace (cr_Name r) = cr_Name r \<and>
     (HasPrefix (cr_TargetURL r) ''http://'' \<or> HasPrefix (cr_TargetURL r) ''https://'') \<and>
     TrimSpace (cr_TargetURL r) = cr_TargetURL r \<and>
     1 \<le> cr_VirtualUsers r \<and> cr_VirtualUsers r \<le> 1000 \<and>
     1 \<le> cr_DurationSeconds r \<and> cr_DurationSeconds r \<le> 3600 \<and>
     cr_Method r \<in> set allowedMethods \<and>
     1 \<le> cr_Shards r \<and> cr_Shards r \<le> 64 \<and> cr_Shards r \<le> cr_VirtualUsers r \<and>
     length (cr_Headers r) \<le> 50 \<and> length (cr_Body r) \<le> 1048576 \<and>
     0 \<le> cr_ThinkTimeMs r \<and> cr_ThinkTimeMs r \<le> 60000"

lemma check_basics_ok:
  "check_basics r = [] \<longleftrightarrow>
     cr_Name r \<noteq> [] \<and> cr_TargetURL r \<noteq> [] \<and>
     (HasPrefix (cr_TargetURL r) ''http://'' \<or> HasPrefix (cr_TargetURL r) ''https://'') \<and>
     1 \<le> cr_VirtualUsers r \<and> cr_VirtualUsers r \<le> 1000 \<and>
     1 \<le> cr_DurationSeconds r \<and> cr_DurationSeconds r \<le> 3600"
  by (auto simp: check_basics_def limits)

lemma check_shards_ok:
  "check_shards r = [] \<longleftrightarrow> 1 \<le> cr_Shards r \<and> cr_Shards r \<le> 64 \<and> cr_Shards r \<le> cr_VirtualUsers r"
  by (auto simp: check_shards_def limits)

lemma check_shape_ok:
  "check_shape r = [] \<longleftrightarrow>
     length (cr_Headers r) \<le> 50 \<and> length (cr_Body r) \<le> 1048576 \<and>
     0 \<le> cr_ThinkTimeMs r \<and> cr_ThinkTimeMs r \<le> 60000"
  by (auto simp: check_shape_def limits)

lemma TrimSpace_idem: "TrimSpace (TrimSpace s) = TrimSpace s"
proof -
  let ?t = "trim_front space_encodings s"
  have ne: "[] \<notin> set space_encodings" "[] \<notin> set (map rev space_encodings)"
    using space_encodings_nonempty by force+
  obtain q where "rev ?t = q @ rev (TrimSpace s)"
    using trim_front_suffix [of "rev ?t" "map rev space_encodings"] by (auto simp: TrimSpace_def)
  then have t: "?t = TrimSpace s @ rev q" by (metis rev_append rev_rev_ident)
  have "strip_first space_encodings (TrimSpace s) = None"
  proof (rule ccontr)
    assume "strip_first space_encodings (TrimSpace s) \<noteq> None"
    then obtain p r where "p \<in> set space_encodings" "TrimSpace s = p @ r"
      using strip_first_Some by blast
    then have "?t = p @ r @ rev q" using t by simp
    with strip_first_None [OF trim_front_stops [OF ne(1), of s] \<open>p \<in> set space_encodings\<close>]
    show False by blast
  qed
  then have "trim_front space_encodings (TrimSpace s) = TrimSpace s" by (rule trim_front_fixed)
  moreover have "trim_front (map rev space_encodings) (rev (TrimSpace s)) = rev (TrimSpace s)"
    using trim_front_stops [OF ne(2), of "rev ?t"] by (intro trim_front_fixed) (simp add: TrimSpace_def)
  ultimately show ?thesis by (simp add: TrimSpace_def)
qed

lemma method_upper: "m \<in> set allowedMethods \<Longrightarrow> ToUpper u m = m \<and> m \<noteq> []"
  by (auto simp: allowedMethods_def ToUpper_def is_ascii_def ascii_upper_def)

lemma validateCreate_accepts:
  assumes "validateCreate u req = ([], r)"
  shows "request_ok r"
proof -
  let ?r1 = "req\<lparr>cr_Name := TrimSpace (cr_Name req), cr_TargetURL := TrimSpace (cr_TargetURL req)\<rparr>"
  let ?r2 = "?r1\<lparr>cr_Method := ToUpper u (if cr_Method ?r1 = [] then ''GET'' else cr_Method ?r1)\<rparr>"
  let ?r3 = "if cr_Shards ?r2 = 0 then ?r2\<lparr>cr_Shards := 1\<rparr> else ?r2"
  note v = assms [unfolded validateCreate_def Let_def]
  have 1: "check_basics ?r1 = []" using v by (auto split: if_splits)
  have 2: "cr_Method ?r2 \<in> set allowedMethods" using v 1 by (auto split: if_splits)
  have 3: "check_shards ?r3 = []" using v 1 2 by (simp split: if_split_asm)
  have 4: "check_shape ?r3 = []" "r = ?r3" using v 1 2 3 by (simp_all split: if_split_asm)
  show ?thesis using 1 2 3 4
    unfolding check_basics_ok check_shards_ok check_shape_ok request_ok_def
    by (simp add: TrimSpace_idem split: if_split_asm)
qed

lemma validateCreate_keeps:
  assumes "request_ok r"
  shows "validateCreate u r = ([], r)"
proof -
  have "r\<lparr>cr_Name := TrimSpace (cr_Name r), cr_TargetURL := TrimSpace (cr_TargetURL r)\<rparr> = r"
    using assms by (simp add: request_ok_def)
  moreover have "check_basics r = []"
    using assms by (auto simp: check_basics_ok request_ok_def HasPrefix_iff)
  moreover have "r\<lparr>cr_Method := ToUpper u (if cr_Method r = [] then ''GET'' else cr_Method r)\<rparr> = r"
    using assms method_upper [of "cr_Method r" u] by (simp add: request_ok_def)
  moreover have "check_shards r = []" "check_shape r = []"
    using assms by (simp_all add: check_shards_ok check_shape_ok request_ok_def)
  moreover have "cr_Method r \<in> set allowedMethods" "cr_Shards r \<noteq> 0"
    using assms by (simp_all add: request_ok_def)
  moreover have "cr_Method r \<noteq> []" "ToUpper u (cr_Method r) = cr_Method r"
    using assms method_upper [of "cr_Method r" u] by (simp_all add: request_ok_def)
  ultimately show ?thesis by (simp add: validateCreate_def Let_def)
qed

text \<open>The request with its defaults filled in, which is what validation goes by.\<close>

definition normal_form :: "unicode_tables \<Rightarrow> create_request \<Rightarrow> create_request" where
  "normal_form u req =
     req\<lparr>cr_Name := TrimSpace (cr_Name req), cr_TargetURL := TrimSpace (cr_TargetURL req),
      cr_Method := ToUpper u (if cr_Method req = [] then ''GET'' else cr_Method req),
      cr_Shards := (if cr_Shards req = 0 then 1 else cr_Shards req)\<rparr>"

lemma validateCreate_filled:
  "fst (validateCreate u req) = [] \<Longrightarrow> snd (validateCreate u req) = normal_form u req"
  by (auto simp: validateCreate_def normal_form_def Let_def split: if_splits)

lemma validateCreate_complete:
  assumes "request_ok (normal_form u req)"
  shows "fst (validateCreate u req) = []"
proof -
  let ?r1 = "req\<lparr>cr_Name := TrimSpace (cr_Name req), cr_TargetURL := TrimSpace (cr_TargetURL req)\<rparr>"
  let ?r2 = "?r1\<lparr>cr_Method := ToUpper u (if cr_Method req = [] then ''GET'' else cr_Method req)\<rparr>"
  have 1: "check_basics ?r1 = []"
    using assms by (auto simp: check_basics_ok request_ok_def normal_form_def HasPrefix_iff)
  have 2: "cr_Method ?r2 \<in> set allowedMethods" using assms by (simp add: request_ok_def normal_form_def)
  have 3: "(if cr_Shards ?r2 = 0 then ?r2\<lparr>cr_Shards := 1\<rparr> else ?r2) = normal_form u req"
    by (simp add: normal_form_def)
  have 4: "check_shards (normal_form u req) = []" "check_shape (normal_form u req) = []"
    using assms by (simp_all add: check_shards_ok check_shape_ok request_ok_def)
  show ?thesis
    using 1 2 4 unfolding 3 [symmetric] validateCreate_def Let_def
    by (cases "cr_Shards req = 0"; cases "cr_Method req = []") simp_all
qed

subsection \<open>Validating a completion\<close>

definition validateComplete :: "complete_run_request \<Rightarrow> string" where
  "validateComplete req =
     (if cq_Status req = ''completed''
      then (if cq_TotalRequests req = None \<or> cq_SuccessfulRequests req = None \<or>
               cq_FailedRequests req = None
            then ''a completed run requires totalRequests, successfulRequests, and failedRequests''
            else [])
      else if cq_Status req = ''failed''
      then (if cq_ErrorMessage req = None \<or> cq_ErrorMessage req = Some []
            then ''a failed run requires a non-empty errorMessage'' else [])
      else ''status must be \"completed\" or \"failed\"'')"

subsection \<open>The environment and the allowlist\<close>

text \<open>\<open>env\<close> is \<^verbatim>\<open>os.Getenv\<close>: the empty string for an unset variable.\<close>

definition getenv :: "(string \<Rightarrow> string) \<Rightarrow> string \<Rightarrow> string \<Rightarrow> string" where
  "getenv env key fallback = (if env key \<noteq> [] then env key else fallback)"

definition getint :: "(string \<Rightarrow> string) \<Rightarrow> string \<Rightarrow> int \<Rightarrow> int" where
  "getint env key fallback =
     (if env key \<noteq> []
      then case ParseInt (env key) of (n, None) \<Rightarrow> n | (_, Some _) \<Rightarrow> fallback
      else fallback)"

definition parseHostSet :: "unicode_tables \<Rightarrow> string \<Rightarrow> string list" where
  "parseHostSet u csv =
     filter (\<lambda>h. h \<noteq> []) (map (\<lambda>h. ToLower u (TrimSpace h)) (split_on CHR '','' csv))"

definition targetAllowed :: "go_lib \<Rightarrow> string list \<Rightarrow> string \<Rightarrow> bool" where
  "targetAllowed lib hosts rawURL =
     (case url_parse lib rawURL of
        None \<Rightarrow> False
      | Some p \<Rightarrow> ToLower (unicode_tables.truncate lib) (url_Hostname p) \<in> set hosts)"

lemma plain_host_lower:
  assumes "plain_host h" shows "ToLower u h = map ascii_lower h"
proof -
  have "(of_char c :: nat) < 128" if "c \<in> set h" for c
  proof -
    have "is_alpha c \<or> is_digit c \<or> c \<in> set ''.-''" using assms that unfolding plain_host_def by blast
    then show ?thesis by (auto simp: is_alpha_def is_digit_def Let_def)
  qed
  then show ?thesis by (simp add: ToLower_def is_ascii_def)
qed

lemma targetAllowed_plain:
  assumes s: "s \<in> {''http'', ''https''}" and h: "plain_host h" and p: "plain_port p"
    and path: "quiet ''%?#'' path" "path = [] \<or> hd path = CHR ''/''"
  shows "targetAllowed lib hosts (s @ ''://'' @ (h @ p) @ path) \<longleftrightarrow> map ascii_lower h \<in> set hosts"
  unfolding targetAllowed_def url_parse_web [OF s plain_quiet [OF h p] path] parseAuthority_plain(1) [OF h p]
  by (simp add: plain_Hostname [OF h p] plain_host_lower [OF h])

lemma targetAllowed_userinfo:
  assumes s: "s \<in> {''http'', ''https''}" and h: "plain_host h" and p: "plain_port p"
    and u: "quiet ''/?#'' u" and path: "quiet ''%?#'' path" "path = [] \<or> hd path = CHR ''/''"
  shows "targetAllowed lib hosts (s @ ''://'' @ (u @ ''@'' @ h @ p) @ path) \<longleftrightarrow>
    userinfo_ok u \<and> map ascii_lower h \<in> set hosts"
proof -
  have at: "quiet ''/?#'' ''@''" by (simp add: quiet_def is_ctl_def)
  have "quiet ''/?#'' (u @ ''@'' @ h @ p)"
    using u at plain_quiet [OF h p] by (simp only: quiet_append)
  then show ?thesis
    unfolding targetAllowed_def by (simp only: url_parse_web [OF s _ path] parseAuthority_plain(2) [OF h p])
      (simp add: plain_Hostname [OF h p] plain_host_lower [OF h])
qed

subsection \<open>Properties\<close>

text \<open>
  C22: validation decides on the request with its defaults filled in. That request has the
  name and the URL trimmed, the method in upper case with GET for none, 1 for no shards, and
  every other field as it came. It is accepted exactly if it is within the limits (\<open>request_ok\<close>
  spells them out), it is then what the handler goes on with, and validating it again changes
  nothing.
\<close>

theorem validateCreate_normal_form:
  defines "filled \<equiv> \<lambda>u req. req\<lparr>cr_Name := TrimSpace (cr_Name req), cr_TargetURL := TrimSpace (cr_TargetURL req),
      cr_Method := ToUpper u (if cr_Method req = [] then ''GET'' else cr_Method req),
      cr_Shards := (if cr_Shards req = 0 then 1 else cr_Shards req)\<rparr>"
  shows "(fst (validateCreate u req) = [] \<longleftrightarrow> request_ok (filled u req)) \<and>
    (fst (validateCreate u req) = [] \<longrightarrow>
       snd (validateCreate u req) = filled u req \<and> validateCreate u (filled u req) = ([], filled u req))"
  using validateCreate_accepts [of u req] validateCreate_keeps [of "filled u req" u]
    validateCreate_filled [of u req] validateCreate_complete [of u req]
  unfolding filled_def normal_form_def by (metis prod.collapse)

definition padded_request :: create_request where
  "padded_request = \<lparr>cr_Name = '' load '', cr_TargetURL = '' http://target/ '', cr_Method = ''get'',
     cr_VirtualUsers = 7, cr_DurationSeconds = 10, cr_Shards = 3, cr_Headers = [], cr_Body = [],
     cr_ThinkTimeMs = 0\<rparr>"

definition ascii_tables :: unicode_tables where
  "ascii_tables = \<lparr>u_upper = (\<lambda>s. s), u_lower = (\<lambda>s. s)\<rparr>"

theorem validateCreate_normal_form_witness:
  "validateCreate ascii_tables padded_request =
     ([], padded_request\<lparr>cr_Name := ''load'', cr_TargetURL := ''http://target/'', cr_Method := ''GET''\<rparr>)"
proof -
  have trim: "TrimSpace '' load '' = ''load''" "TrimSpace '' http://target/ '' = ''http://target/''"
    "TrimSpace ''load'' = ''load''" "TrimSpace ''http://target/'' = ''http://target/''"
    by code_simp+
  have up: "ToUpper ascii_tables ''get'' = ''GET''" "HasPrefix ''http://target/'' ''http://''" by code_simp+
  have "request_ok (padded_request\<lparr>cr_Name := ''load'', cr_TargetURL := ''http://target/'', cr_Method := ''GET''\<rparr>)"
    by (simp add: request_ok_def padded_request_def trim up allowedMethods_def)
  with validateCreate_normal_form [of ascii_tables padded_request] show ?thesis
    by (simp add: padded_request_def trim up prod_eq_iff)
qed

text \<open>
  C23: splitting an accepted request never panics: it gives as many shards as asked for,
  each with at least one virtual user, as even as possible, and none is lost or invented.
\<close>

theorem splitVUs_fair:
  assumes "request_ok req"
  shows "\<exists>vus. splitVUs (cr_VirtualUsers req) (cr_Shards req) = Some vus \<and>
    int (length vus) = cr_Shards req \<and> sum_list vus = cr_VirtualUsers req \<and>
    (\<forall>v \<in> set vus. 1 \<le> v) \<and> (\<forall>v \<in> set vus. \<forall>w \<in> set vus. v \<le> w + 1)"
proof -
  let ?t = "cr_VirtualUsers req" and ?n = "cr_Shards req"
  have r: "0 \<le> ?t" "0 < ?n" "?n \<le> ?t" using assms by (simp_all add: request_ok_def)
  obtain vus where vus: "splitVUs ?t ?n = Some vus" using splitVUs_pos [OF r(1,2)] by blast
  have "1 \<le> ?t div ?n" using r zdiv_mono1 [of ?n ?t ?n] by simp
  with splitVUs_bounds [OF r(1,2) vus] have "\<forall>v \<in> set vus. 1 \<le> v" by fastforce
  moreover have "\<forall>v \<in> set vus. \<forall>w \<in> set vus. v \<le> w + 1"
    using splitVUs_bounds [OF r(1,2) vus] by (meson add_le_cancel_right order_trans)
  ultimately show ?thesis using vus splitVUs_sum [OF r(1,2) vus] by blast
qed

theorem splitVUs_fair_witness: "splitVUs 7 3 = Some [3, 2, 2] \<and>
  (\<exists>vus. splitVUs 7 3 = Some vus \<and> sum_list vus = 7)"
proof -
  let ?req = "padded_request\<lparr>cr_Name := ''load'', cr_TargetURL := ''http://target/'', cr_Method := ''GET''\<rparr>"
  have "TrimSpace ''load'' = ''load''" "TrimSpace ''http://target/'' = ''http://target/''"
    "HasPrefix ''http://target/'' ''http://''" by code_simp+
  then have "request_ok ?req" by (simp add: request_ok_def padded_request_def allowedMethods_def)
  from splitVUs_fair [OF this] have "\<exists>vus. splitVUs 7 3 = Some vus \<and> sum_list vus = 7"
    by (auto simp: padded_request_def)
  moreover have "splitVUs 7 3 = Some [3, 2, 2]" by code_simp
  ultimately show ?thesis by blast
qed

text \<open>
  C19: the allowlist decides on the host the load would go to. For a URL with a plain host
  the answer is whether the host, in lower case, is on the list: the port, the path and any user
  info before the last @ do not matter, so an allowed name cannot be used as a decoy.
\<close>

theorem targetAllowed_decides:
  assumes "s \<in> {''http'', ''https''}" and "plain_host h" and "plain_port p"
    and "quiet ''%?#'' path" and "path = [] \<or> hd path = CHR ''/''"
  shows "(targetAllowed lib hosts (s @ ''://'' @ (h @ p) @ path) \<longleftrightarrow> map ascii_lower h \<in> set hosts) \<and>
    (quiet ''/?#'' u \<longrightarrow>
      (targetAllowed lib hosts (s @ ''://'' @ (u @ ''@'' @ h @ p) @ path) \<longleftrightarrow>
        userinfo_ok u \<and> map ascii_lower h \<in> set hosts))"
  using targetAllowed_plain [OF assms] targetAllowed_userinfo [OF assms(1-3) _ assms(4,5)] by blast

definition ascii_lib :: go_lib where
  "ascii_lib = \<lparr>u_upper = (\<lambda>s. s), u_lower = (\<lambda>s. s), lib_is_ip6 = (\<lambda>_. False)\<rparr>"

text \<open>The table of the Go test, and the decoy.\<close>

lemma target_table:
  "map (targetAllowed ascii_lib (parseHostSet ascii_tables ''target,localhost''))
     [''http://target:8081/fast'', ''http://localhost/'', ''https://TARGET/path'', ''http://example.com/'',
      ''http://169.254.169.254/meta'', [], ''://nope'', ''http://target@example.com/'',
      ''http://target:80@example.com:80/'', ''http://target:80:80/'']
   = [True, True, True, False, False, False, False, False, False, False]"
  by code_simp

theorem targetAllowed_decides_witness:
  "targetAllowed ascii_lib [''target''] (''http'' @ ''://'' @ (''TARGET'' @ '':80'') @ ''/fast'') \<and>
   \<not> targetAllowed ascii_lib [''target''] (''http'' @ ''://'' @ (''target'' @ ''@'' @ ''evil.com'' @ []) @ ''/'')"
proof -
  have h: "plain_host ''TARGET''" "plain_port '':80''" "quiet ''%?#'' ''/fast''" "plain_host ''evil.com''"
    "plain_port []" "quiet ''%?#'' ''/''" "quiet ''/?#'' ''target''"
    by (simp_all add: plain_host_def plain_port_def quiet_def is_alpha_def is_digit_def is_ctl_def Let_def)
  have low: "map ascii_lower ''TARGET'' = ''target''" "map ascii_lower ''evil.com'' = ''evil.com''"
    by code_simp+
  show ?thesis
    using targetAllowed_decides [OF _ h(1-3), of "''http''" ascii_lib "[''target'']"] low
      targetAllowed_decides [OF _ h(4-6), of "''http''" ascii_lib "[''target'']" "''target''"] h(7)
    by simp
qed

end
