(* ===== verification/Api_Handlers.thy ===== *)
theory Api_Handlers
  imports Api_Validation Store_Properties
begin

section \<open>The HTTP API\<close>

text \<open>
  The handlers of \<^verbatim>\<open>backend/internal/handlers\<close> as functions from a request to a response
  and a new database state. A request carries its method, its path, the \<^verbatim>\<open>limit\<close> query
  parameter and what decoding its body into each type yields (an error text or a value, by
  \<^verbatim>\<open>encoding/json\<close>). \<open>up\<close> says whether the database can be reached during the request, or
  \<open>up1\<close> for its first statement and \<open>up2\<close> for what follows; \<open>published\<close> which shard messages the broker accepts. Response bodies are the values the
  handlers encode.
\<close>

subsection \<open>Requests and responses\<close>

datatype body =
    B_None
  | B_Error string
  | B_Run test_run
  | B_Runs "test_run list"
  | B_Assignment shard_assignment
  | B_Map "(string \<times> string) list"

record response =
  rs_code :: int
  rs_body :: body

record http_request =
  rq_method :: string
  rq_path :: string
  rq_limit :: string
  rq_create :: "string + create_request"
  rq_complete :: "string + complete_run_request"
  rq_shard :: "string + complete_shard_request"
  rq_reason :: "string + string"

record handler =
  h_AllowedTargetHosts :: "string list"
  h_MaxConcurrentRuns :: int

definition writeJSON :: "int \<Rightarrow> body \<Rightarrow> response" where
  "writeJSON statusCode payload = \<lparr>rs_code = statusCode, rs_body = payload\<rparr>"

definition writeError :: "int \<Rightarrow> string \<Rightarrow> response" where
  "writeError statusCode message = writeJSON statusCode (B_Error message)"

text \<open>A store operation while the database may be unreachable.\<close>

definition on_db :: "bool \<Rightarrow> (db \<Rightarrow> (store_error + 'a) \<times> db) \<Rightarrow> db \<Rightarrow> (store_error + 'a) \<times> db" where
  "on_db up op d = (if up then op d else (Inl (DbError ''connection''), d))"

text \<open>\<open>PathValue("id")\<close> as a positive int64.\<close>

definition path_id :: "string \<Rightarrow> int option" where
  "path_id s = (case ParseInt s of (n, None) \<Rightarrow> if n \<le> 0 then None else Some n | _ \<Rightarrow> None)"

definition bad_id :: response where
  "bad_id = writeError 400 ''id must be a positive integer''"

definition invalid_json :: "string \<Rightarrow> response" where
  "invalid_json e = writeError 400 (''invalid JSON body: '' @ e)"

subsection \<open>The public API\<close>

text \<open>
  The create handler up to the capacity check, and from the insert on: other requests can come
  between the two (see \<open>Admission\<close>). The ids of the shards whose message reached the broker come
  back as the last component.
\<close>

definition create_check ::
  "go_lib \<Rightarrow> handler \<Rightarrow> bool \<Rightarrow> string + create_request \<Rightarrow> db \<Rightarrow> response + create_request" where
  "create_check lib h up decoded d =
     (case decoded of
        Inl e \<Rightarrow> Inl (invalid_json e)
      | Inr req0 \<Rightarrow>
          (case validateCreate (unicode_tables.truncate lib) req0 of
             (msg, req) \<Rightarrow>
               if msg \<noteq> [] then Inl (writeError 400 msg)
               else if \<not> targetAllowed lib (h_AllowedTargetHosts h) (cr_TargetURL req)
               then Inl (writeError 403 ''target host is not allowed'')
               else if 0 < h_MaxConcurrentRuns h \<and> \<not> up
               then Inl (writeError 500 ''could not check run capacity'')
               else if 0 < h_MaxConcurrentRuns h \<and> h_MaxConcurrentRuns h \<le> CountActiveRuns d
               then Inl (writeError 429 ''too many runs in progress; try again once some finish'')
               else Inr req))"

definition create_commit ::
  "time \<Rightarrow> bool \<Rightarrow> (int \<Rightarrow> bool) \<Rightarrow> create_request \<Rightarrow> db \<Rightarrow> (response \<times> db \<times> int list) option" where
  "create_commit now up published req d =
     (case splitVUs (cr_VirtualUsers req) (cr_Shards req) of
        None \<Rightarrow> None
      | Some shardVUs \<Rightarrow>
          (case on_db up (CreateWithShards now req shardVUs) d of
             (Inl _, d') \<Rightarrow> Some (writeError 500 ''could not create test run'', d', [])
           | (Inr (tr, shardIDs), d') \<Rightarrow>
               Some (writeJSON 201 (B_Run tr), d', filter published shardIDs)))"

definition CreateTestRun ::
  "go_lib \<Rightarrow> handler \<Rightarrow> time \<Rightarrow> bool \<Rightarrow> bool \<Rightarrow> (int \<Rightarrow> bool) \<Rightarrow> string + create_request \<Rightarrow> db
    \<Rightarrow> (response \<times> db \<times> int list) option" where
  "CreateTestRun lib h now up1 up2 published decoded d =
     (case create_check lib h up1 decoded d of
        Inl r \<Rightarrow> Some (r, d, [])
      | Inr req \<Rightarrow> create_commit now up2 published req d)"

lemmas CreateTestRun_unfold = CreateTestRun_def create_check_def create_commit_def

text \<open>\<open>None\<close> above is a panic in \<^verbatim>\<open>splitVUs\<close>; validation rules it out.\<close>

definition list_limit :: "string \<Rightarrow> int" where
  "list_limit v =
     (let limit = (if v \<noteq> []
                   then case ParseInt v of (n, None) \<Rightarrow> if 0 < n then n else 50 | _ \<Rightarrow> 50
                   else 50)
      in if 200 < limit then 200 else limit)"

definition ListTestRuns :: "bool \<Rightarrow> string \<Rightarrow> db \<Rightarrow> response \<times> db" where
  "ListTestRuns up v d =
     (case on_db up (\<lambda>d. (List_runs (list_limit v) d, d)) d of
        (Inl _, _) \<Rightarrow> (writeError 500 ''could not list test runs'', d)
      | (Inr runs, _) \<Rightarrow> (writeJSON 200 (B_Runs runs), d))"

definition GetTestRun :: "bool \<Rightarrow> string \<Rightarrow> db \<Rightarrow> response \<times> db" where
  "GetTestRun up v d =
     (case path_id v of
        None \<Rightarrow> (bad_id, d)
      | Some i \<Rightarrow>
          (case on_db up (\<lambda>d. (GetByID i d, d)) d of
             (Inl ErrNotFound, _) \<Rightarrow> (writeError 404 ''test run not found'', d)
           | (Inl _, _) \<Rightarrow> (writeError 500 ''could not fetch test run'', d)
           | (Inr tr, _) \<Rightarrow> (writeJSON 200 (B_Run tr), d)))"

definition CancelTestRun :: "bool \<Rightarrow> string \<Rightarrow> db \<Rightarrow> response \<times> db" where
  "CancelTestRun up v d =
     (case path_id v of
        None \<Rightarrow> (bad_id, d)
      | Some i \<Rightarrow>
          (case on_db up (CancelRun i) d of
             (Inl ErrNotFound, d') \<Rightarrow> (writeError 404 ''test run not found'', d')
           | (Inl _, d') \<Rightarrow> (writeError 500 ''could not cancel test run'', d')
           | (Inr tr, d') \<Rightarrow> (writeJSON 200 (B_Run tr), d')))"

definition Health :: "bool \<Rightarrow> response" where
  "Health up =
     (let statusCode = (if up then 200 else 503)
      in writeJSON statusCode
           (B_Map [(''service'', ''backend''),
                   (''status'', if statusCode = 200 then ''ok'' else ''degraded''),
                   (''database'', if up then ''ok'' else ''unreachable'')]))"

subsection \<open>The internal API\<close>

definition ClaimNextRun :: "time \<Rightarrow> bool \<Rightarrow> db \<Rightarrow> response \<times> db" where
  "ClaimNextRun now up d =
     (case on_db up (ClaimNext now) d of
        (Inl ErrNoQueuedRuns, d') \<Rightarrow> (writeJSON 204 B_None, d')
      | (Inl _, d') \<Rightarrow> (writeError 500 ''could not claim a test run'', d')
      | (Inr tr, d') \<Rightarrow> (writeJSON 200 (B_Run tr), d'))"

definition StartTestRun :: "time \<Rightarrow> bool \<Rightarrow> string \<Rightarrow> db \<Rightarrow> response \<times> db" where
  "StartTestRun now up v d =
     (case path_id v of
        None \<Rightarrow> (bad_id, d)
      | Some i \<Rightarrow>
          (case on_db up (StartByID now i) d of
             (Inl ErrNotFound, d') \<Rightarrow> (writeError 404 ''test run not found'', d')
           | (Inl ErrNotQueued, d') \<Rightarrow> (writeError 409 ''test run is not queued'', d')
           | (Inl _, d') \<Rightarrow> (writeError 500 ''could not start test run'', d')
           | (Inr tr, d') \<Rightarrow> (writeJSON 200 (B_Run tr), d')))"

definition TakeoverTestRun :: "time \<Rightarrow> bool \<Rightarrow> string \<Rightarrow> db \<Rightarrow> response \<times> db" where
  "TakeoverTestRun now up v d =
     (case path_id v of
        None \<Rightarrow> (bad_id, d)
      | Some i \<Rightarrow>
          (case on_db up (TakeOver now i) d of
             (Inl ErrNotFound, d') \<Rightarrow> (writeError 404 ''test run not found'', d')
           | (Inl ErrAlreadyDone, d') \<Rightarrow> (writeError 409 ''test run is already completed or failed'', d')
           | (Inl _, d') \<Rightarrow> (writeError 500 ''could not take over test run'', d')
           | (Inr tr, d') \<Rightarrow> (writeJSON 200 (B_Run tr), d')))"

definition FailTestRun :: "time \<Rightarrow> bool \<Rightarrow> string \<Rightarrow> string + string \<Rightarrow> db \<Rightarrow> response \<times> db" where
  "FailTestRun now up v decoded d =
     (case path_id v of
        None \<Rightarrow> (bad_id, d)
      | Some i \<Rightarrow>
          (case decoded of
             Inl e \<Rightarrow> (invalid_json e, d)
           | Inr m \<Rightarrow>
               (case on_db up (Fail now i (if m = [] then ''run failed'' else m)) d of
                  (Inl ErrNotFound, d') \<Rightarrow> (writeError 404 ''test run not found'', d')
                | (Inl _, d') \<Rightarrow> (writeError 500 ''could not fail test run'', d')
                | (Inr tr, d') \<Rightarrow> (writeJSON 200 (B_Run tr), d'))))"

definition CompleteTestRun ::
  "time \<Rightarrow> bool \<Rightarrow> string \<Rightarrow> string + complete_run_request \<Rightarrow> db \<Rightarrow> response \<times> db" where
  "CompleteTestRun now up v decoded d =
     (case path_id v of
        None \<Rightarrow> (bad_id, d)
      | Some i \<Rightarrow>
          (case decoded of
             Inl e \<Rightarrow> (invalid_json e, d)
           | Inr req \<Rightarrow>
               if validateComplete req \<noteq> [] then (writeError 400 (validateComplete req), d)
               else (case on_db up (Complete now i req) d of
                  (Inl ErrNotFound, d') \<Rightarrow> (writeError 404 ''test run not found'', d')
                | (Inl ErrNotRunning, d') \<Rightarrow>
                    (writeError 409 ''test run is not in the running state'', d')
                | (Inl _, d') \<Rightarrow> (writeError 500 ''could not complete test run'', d')
                | (Inr tr, d') \<Rightarrow> (writeJSON 200 (B_Run tr), d'))))"

text \<open>
  A claim whose first statement has run and whose second fails: the shard is claimed or found
  not claimable, and the answer is an error either way.
\<close>

definition start_half :: "time \<Rightarrow> int \<Rightarrow> bool \<Rightarrow> db \<Rightarrow> (store_error + shard_assignment) \<times> db" where
  "start_half now i allowRunning d =
     (Inl (DbError ''second statement''), snd (claim_shard now i allowRunning ErrNotQueued d))"

definition StartShard_http :: "time \<Rightarrow> bool \<Rightarrow> bool \<Rightarrow> string \<Rightarrow> db \<Rightarrow> response \<times> db" where
  "StartShard_http now up1 up2 v d =
     (case path_id v of
        None \<Rightarrow> (bad_id, d)
      | Some i \<Rightarrow>
          (case on_db up1 (if up2 then StartShard now i else start_half now i False) d of
             (Inl ErrNotFound, d') \<Rightarrow> (writeError 404 ''shard not found'', d')
           | (Inl ErrNotQueued, d') \<Rightarrow> (writeError 409 ''shard is not queued'', d')
           | (Inl _, d') \<Rightarrow> (writeError 500 ''could not start shard'', d')
           | (Inr a, d') \<Rightarrow> (writeJSON 200 (B_Assignment a), d')))"

definition TakeoverShard_http :: "time \<Rightarrow> bool \<Rightarrow> bool \<Rightarrow> string \<Rightarrow> db \<Rightarrow> response \<times> db" where
  "TakeoverShard_http now up1 up2 v d =
     (case path_id v of
        None \<Rightarrow> (bad_id, d)
      | Some i \<Rightarrow>
          (case on_db up1 (if up2 then TakeOverShard now i else start_half now i True) d of
             (Inl ErrNotFound, d') \<Rightarrow> (writeError 404 ''shard not found'', d')
           | (Inl ErrAlreadyDone, d') \<Rightarrow> (writeError 409 ''shard is already completed or failed'', d')
           | (Inl _, d') \<Rightarrow> (writeError 500 ''could not take over shard'', d')
           | (Inr a, d') \<Rightarrow> (writeJSON 200 (B_Assignment a), d')))"

definition CompleteShard_http ::
  "time \<Rightarrow> bool \<Rightarrow> string \<Rightarrow> string + complete_shard_request \<Rightarrow> db \<Rightarrow> response \<times> db" where
  "CompleteShard_http now up v decoded d =
     (case path_id v of
        None \<Rightarrow> (bad_id, d)
      | Some i \<Rightarrow>
          (case decoded of
             Inl e \<Rightarrow> (invalid_json e, d)
           | Inr req \<Rightarrow>
               if cs_Status req \<noteq> ''completed'' \<and> cs_Status req \<noteq> ''failed''
               then (writeError 400 ''status must be \"completed\" or \"failed\"'', d)
               else (case on_db up (CompleteShard now i req) d of
                  (Inl ErrNotFound, d') \<Rightarrow> (writeError 404 ''shard not found'', d')
                | (Inl ErrNotRunning, d') \<Rightarrow> (writeError 409 ''shard is not running'', d')
                | (Inl _, d') \<Rightarrow> (writeError 500 ''could not complete shard'', d')
                | (Inr _, d') \<Rightarrow> (writeJSON 200 (B_Map [(''status'', ''ok'')]), d'))))"

definition FailShard_http :: "time \<Rightarrow> bool \<Rightarrow> string \<Rightarrow> string + string \<Rightarrow> db \<Rightarrow> response \<times> db" where
  "FailShard_http now up v decoded d =
     (case path_id v of
        None \<Rightarrow> (bad_id, d)
      | Some i \<Rightarrow>
          (case decoded of
             Inl e \<Rightarrow> (invalid_json e, d)
           | Inr m \<Rightarrow>
               (case on_db up (FailShard now i (if m = [] then ''shard failed'' else m)) d of
                  (Inl ErrNotFound, d') \<Rightarrow> (writeError 404 ''shard not found'', d')
                | (Inl _, d') \<Rightarrow> (writeError 500 ''could not fail shard'', d')
                | (Inr _, d') \<Rightarrow> (writeJSON 200 (B_Map [(''status'', ''ok'')]), d'))))"

subsection \<open>Routing\<close>

text \<open>
  \<^verbatim>\<open>Routes\<close> on \<^verbatim>\<open>http.ServeMux\<close>: a pattern matches segment by segment, \<open>{id}\<close> matches one
  non-empty segment and is unescaped, a GET pattern serves HEAD as well, a path that only other
  methods match is 405 and any other 404. Paths that the mux cleans and redirects first (with an
  empty, "." or ".." segment) are not requests to a handler and are left out.
\<close>

datatype endpoint =
    EP_Health | EP_Metrics | EP_Create | EP_List | EP_Get string | EP_Cancel string
  | EP_Claim | EP_Start string | EP_Takeover string | EP_Fail string | EP_Complete string
  | EP_StartShard string | EP_TakeoverShard string | EP_CompleteShard string | EP_FailShard string

definition path_segments :: "string \<Rightarrow> string list" where
  "path_segments path = tl (split_on CHR ''/'' path)"

definition segment_value :: "string \<Rightarrow> string" where
  "segment_value s = (case unescape EncOther s of None \<Rightarrow> s | Some t \<Rightarrow> t)"

definition run_action :: "string \<Rightarrow> string \<Rightarrow> (string \<times> endpoint) list" where
  "run_action v act =
     (if act = ''start'' then [(''POST'', EP_Start v)]
      else if act = ''takeover'' then [(''POST'', EP_Takeover v)]
      else if act = ''fail'' then [(''POST'', EP_Fail v)]
      else if act = ''complete'' then [(''POST'', EP_Complete v)]
      else [])"

definition shard_action :: "string \<Rightarrow> string \<Rightarrow> (string \<times> endpoint) list" where
  "shard_action v act =
     (if act = ''start'' then [(''POST'', EP_StartShard v)]
      else if act = ''takeover'' then [(''POST'', EP_TakeoverShard v)]
      else if act = ''complete'' then [(''POST'', EP_CompleteShard v)]
      else if act = ''fail'' then [(''POST'', EP_FailShard v)]
      else [])"

definition endpoints :: "string list \<Rightarrow> (string \<times> endpoint) list" where
  "endpoints segs =
     (case segs of
        [a] \<Rightarrow>
          (if a = ''health'' then [(''GET'', EP_Health)]
           else if a = ''metrics'' then [(''GET'', EP_Metrics)]
           else if a = ''test-runs'' then [(''POST'', EP_Create), (''GET'', EP_List)]
           else [])
      | [a, b] \<Rightarrow> if a = ''test-runs'' \<and> b \<noteq> [] then [(''GET'', EP_Get (segment_value b))] else []
      | [a, b, c] \<Rightarrow>
          (if a = ''test-runs'' \<and> b \<noteq> [] \<and> c = ''cancel'' then [(''POST'', EP_Cancel (segment_value b))]
           else if a = ''internal'' \<and> b = ''workers'' \<and> c = ''claim'' then [(''POST'', EP_Claim)]
           else [])
      | [a, b, c, e] \<Rightarrow>
          (if a = ''internal'' \<and> b = ''test-runs'' \<and> c \<noteq> [] then run_action (segment_value c) e
           else if a = ''internal'' \<and> b = ''shards'' \<and> c \<noteq> [] then shard_action (segment_value c) e
           else [])
      | _ \<Rightarrow> [])"

definition matched :: "string \<Rightarrow> (string \<times> endpoint) list \<Rightarrow> endpoint option" where
  "matched m es =
     (case map_of es m of
        Some e \<Rightarrow> Some e
      | None \<Rightarrow> if m = ''HEAD'' then map_of es ''GET'' else None)"

text \<open>One request on the backend: the response, the new state, the shard messages published.\<close>

definition dispatch ::
  "go_lib \<Rightarrow> handler \<Rightarrow> time \<Rightarrow> bool \<Rightarrow> bool \<Rightarrow> (int \<Rightarrow> bool) \<Rightarrow> http_request \<Rightarrow> endpoint \<Rightarrow> db
    \<Rightarrow> (response \<times> db \<times> int list) option" where
  "dispatch lib h now up1 up2 published rq ep d =
     (let plain = (\<lambda>(r, d'). Some (r, d', []))
      in case ep of
           EP_Health \<Rightarrow> Some (Health up1, d, [])
         | EP_Metrics \<Rightarrow> Some (writeJSON 200 B_None, d, [])
         | EP_Create \<Rightarrow> CreateTestRun lib h now up1 up2 published (rq_create rq) d
         | EP_List \<Rightarrow> plain (ListTestRuns up1 (rq_limit rq) d)
         | EP_Get v \<Rightarrow> plain (GetTestRun up1 v d)
         | EP_Cancel v \<Rightarrow> plain (CancelTestRun up1 v d)
         | EP_Claim \<Rightarrow> plain (ClaimNextRun now up1 d)
         | EP_Start v \<Rightarrow> plain (StartTestRun now up1 v d)
         | EP_Takeover v \<Rightarrow> plain (TakeoverTestRun now up1 v d)
         | EP_Fail v \<Rightarrow> plain (FailTestRun now up1 v (rq_reason rq) d)
         | EP_Complete v \<Rightarrow> plain (CompleteTestRun now up1 v (rq_complete rq) d)
         | EP_StartShard v \<Rightarrow> plain (StartShard_http now up1 up2 v d)
         | EP_TakeoverShard v \<Rightarrow> plain (TakeoverShard_http now up1 up2 v d)
         | EP_CompleteShard v \<Rightarrow> plain (CompleteShard_http now up1 v (rq_shard rq) d)
         | EP_FailShard v \<Rightarrow> plain (FailShard_http now up1 v (rq_reason rq) d))"

definition routes ::
  "go_lib \<Rightarrow> handler \<Rightarrow> time \<Rightarrow> bool \<Rightarrow> bool \<Rightarrow> (int \<Rightarrow> bool) \<Rightarrow> http_request \<Rightarrow> db
    \<Rightarrow> (response \<times> db \<times> int list) option" where
  "routes lib h now up1 up2 published rq d =
     (let es = endpoints (path_segments (rq_path rq))
      in case matched (rq_method rq) es of
           Some ep \<Rightarrow> dispatch lib h now up1 up2 published rq ep d
         | None \<Rightarrow>
             if es = [] then Some (writeJSON 404 B_None, d, [])
             else Some (writeJSON 405 B_None, d, []))"

definition cors_headers :: "(string \<times> string) list" where
  "cors_headers =
     [(''Access-Control-Allow-Origin'', ''*''),
      (''Access-Control-Allow-Methods'', ''GET, POST, OPTIONS''),
      (''Access-Control-Allow-Headers'', ''Content-Type'')]"

text \<open>The middleware: the CORS headers on every response, preflight requests answered here.\<close>

definition serve ::
  "go_lib \<Rightarrow> handler \<Rightarrow> time \<Rightarrow> bool \<Rightarrow> bool \<Rightarrow> (int \<Rightarrow> bool) \<Rightarrow> http_request \<Rightarrow> db
    \<Rightarrow> ((string \<times> string) list \<times> response \<times> db \<times> int list) option" where
  "serve lib h now up1 up2 published rq d =
     (if rq_method rq = ''OPTIONS'' then Some (cors_headers, writeJSON 204 B_None, d, [])
      else map_option (\<lambda>x. (cors_headers, x)) (routes lib h now up1 up2 published rq d))"

subsection \<open>Every request is a valid call, or none\<close>

text \<open>
  \<open>effect\<close>: what a request other than an admitted create does to the state, by a store call of
  a certain kind; \<open>admitted\<close>: what an admitted create does.
\<close>

fun run_level :: "store_call \<Rightarrow> bool" where
  "run_level CallClaimNext = True"
| "run_level (CallStartByID i) = True"
| "run_level (CallTakeOver i) = True"
| "run_level (CallFail i reason) = True"
| "run_level (CallComplete i req) = True"
| "run_level (CallCancelRun i) = True"
| "run_level _ = False"

fun shard_endpoint :: "endpoint \<Rightarrow> bool" where
  "shard_endpoint (EP_StartShard v) = True"
| "shard_endpoint (EP_TakeoverShard v) = True"
| "shard_endpoint (EP_CompleteShard v) = True"
| "shard_endpoint (EP_FailShard v) = True"
| "shard_endpoint _ = False"

definition effect :: "(store_call \<Rightarrow> bool) \<Rightarrow> time \<Rightarrow> db \<Rightarrow> db \<Rightarrow> bool" where
  "effect kind now d d' \<longleftrightarrow>
     d' = d \<or> (\<exists>c. kind c \<and> valid_call c \<and> \<not> creates c \<and> d' = run_call now c d)"

abbreviation any_call :: "store_call \<Rightarrow> bool" where
  "any_call \<equiv> \<lambda>_. True"

lemma effect_refl [simp]: "effect kind now d d"
  by (simp add: effect_def)

lemma effect_call:
  "kind c \<Longrightarrow> valid_call c \<Longrightarrow> \<not> creates c \<Longrightarrow> d' = run_call now c d \<Longrightarrow> effect kind now d d'"
  by (auto simp: effect_def)

lemma effect_mono: "effect kind now d d' \<Longrightarrow> (\<And>c. kind c \<Longrightarrow> kind' c) \<Longrightarrow> effect kind' now d d'"
  by (auto simp: effect_def)

lemma on_db_snd: "snd (on_db up op d) = (if up then snd (op d) else d)"
  by (simp add: on_db_def)

lemmas handler_splits = option.splits sum.splits store_error.splits prod.splits if_splits

lemma validateComplete_ok: "validateComplete req = [] \<Longrightarrow> outcome_text (cq_Status req)"
  by (auto simp: validateComplete_def outcome_text_def split: if_splits)

lemma effect_ops:
  "effect run_level now d (snd (ClaimNext now d))" "effect run_level now d (snd (StartByID now i d))"
  "effect run_level now d (snd (TakeOver now i d))" "effect run_level now d (snd (Fail now i m d))"
  "effect run_level now d (snd (CancelRun i d))" "effect any_call now d (snd (StartShard now i d))"
  "effect any_call now d (snd (start_half now i b d))" "effect any_call now d (snd (TakeOverShard now i d))" "effect any_call now d (snd (FailShard now i m d))"
  "outcome_text (cq_Status creq) \<Longrightarrow> effect run_level now d (snd (Complete now i creq d))"
  "outcome_text (cs_Status sreq) \<Longrightarrow> effect any_call now d (snd (CompleteShard now i sreq d))"
  using effect_call [of any_call "CallStartShardHalf b i" _ now d] effect_call [of run_level CallClaimNext _ now d]
    effect_call [of run_level "CallStartByID i" _ now d]
    effect_call [of run_level "CallTakeOver i" _ now d] effect_call [of run_level "CallFail i m" _ now d]
    effect_call [of run_level "CallCancelRun i" _ now d] effect_call [of any_call "CallStartShard i" _ now d]
    effect_call [of any_call "CallTakeOverShard i" _ now d] effect_call [of any_call "CallFailShard i m" _ now d]
    effect_call [of run_level "CallComplete i creq" _ now d]
    effect_call [of any_call "CallCompleteShard i sreq" _ now d]
  by (simp_all add: start_half_def)

lemma effect_on_db: "effect kind now d (snd (op d)) \<Longrightarrow> effect kind now d (snd (on_db up op d))"
  by (simp add: on_db_snd)

lemmas handler_case = prod.split sum.split store_error.split

lemma CancelTestRun_effect: "effect run_level now d (snd (CancelTestRun up v d))"
proof (cases "path_id v")
  case (Some i)
  then have "snd (CancelTestRun up v d) = snd (on_db up (CancelRun i) d)"
    by (simp add: CancelTestRun_def split: handler_case)
  then show ?thesis by (simp add: effect_on_db effect_ops)
qed (simp add: CancelTestRun_def)

lemma ClaimNextRun_effect: "effect run_level now d (snd (ClaimNextRun now up d))"
proof -
  have "snd (ClaimNextRun now up d) = snd (on_db up (ClaimNext now) d)"
    by (simp add: ClaimNextRun_def split: handler_case)
  then show ?thesis by (simp add: effect_on_db effect_ops)
qed

lemma StartTestRun_effect: "effect run_level now d (snd (StartTestRun now up v d))"
proof (cases "path_id v")
  case (Some i)
  then have "snd (StartTestRun now up v d) = snd (on_db up (StartByID now i) d)"
    by (simp add: StartTestRun_def split: handler_case)
  then show ?thesis by (simp add: effect_on_db effect_ops)
qed (simp add: StartTestRun_def)

lemma TakeoverTestRun_effect: "effect run_level now d (snd (TakeoverTestRun now up v d))"
proof (cases "path_id v")
  case (Some i)
  then have "snd (TakeoverTestRun now up v d) = snd (on_db up (TakeOver now i) d)"
    by (simp add: TakeoverTestRun_def split: handler_case)
  then show ?thesis by (simp add: effect_on_db effect_ops)
qed (simp add: TakeoverTestRun_def)

lemma StartShard_http_effect: "effect any_call now d (snd (StartShard_http now up1 up2 v d))"
proof (cases "path_id v")
  case (Some i)
  then have "snd (StartShard_http now up1 up2 v d) = snd (on_db up1 (if up2 then StartShard now i else start_half now i False) d)"
    by (simp add: StartShard_http_def split: handler_case)
  then show ?thesis by (simp add: effect_on_db effect_ops split: if_splits)
qed (simp add: StartShard_http_def)

lemma TakeoverShard_http_effect: "effect any_call now d (snd (TakeoverShard_http now up1 up2 v d))"
proof (cases "path_id v")
  case (Some i)
  then have "snd (TakeoverShard_http now up1 up2 v d) = snd (on_db up1 (if up2 then TakeOverShard now i else start_half now i True) d)"
    by (simp add: TakeoverShard_http_def split: handler_case)
  then show ?thesis by (simp add: effect_on_db effect_ops split: if_splits)
qed (simp add: TakeoverShard_http_def)

lemma FailTestRun_effect: "effect run_level now d (snd (FailTestRun now up v decoded d))"
proof (cases "path_id v")
  case id: (Some i)
  show ?thesis
  proof (cases decoded)
    case (Inr m)
    then have "snd (FailTestRun now up v decoded d) =
        snd (on_db up (Fail now i (if m = [] then ''run failed'' else m)) d)"
      using id by (simp add: FailTestRun_def split: handler_case)
    then show ?thesis by (simp add: effect_on_db effect_ops)
  qed (simp add: FailTestRun_def id)
qed (simp add: FailTestRun_def)

lemma FailShard_http_effect: "effect any_call now d (snd (FailShard_http now up v decoded d))"
proof (cases "path_id v")
  case id: (Some i)
  show ?thesis
  proof (cases decoded)
    case (Inr m)
    then have "snd (FailShard_http now up v decoded d) =
        snd (on_db up (FailShard now i (if m = [] then ''shard failed'' else m)) d)"
      using id by (simp add: FailShard_http_def split: handler_case)
    then show ?thesis by (simp add: effect_on_db effect_ops)
  qed (simp add: FailShard_http_def id)
qed (simp add: FailShard_http_def)

lemma CompleteTestRun_effect: "effect run_level now d (snd (CompleteTestRun now up v decoded d))"
proof (cases "path_id v")
  case id: (Some i)
  show ?thesis
  proof (cases decoded)
    case dec: (Inr req)
    show ?thesis
    proof (cases "validateComplete req = []")
      case True
      then have "snd (CompleteTestRun now up v decoded d) = snd (on_db up (Complete now i req) d)"
        using id dec by (auto simp: CompleteTestRun_def split: handler_case)
      then show ?thesis using validateComplete_ok [OF True] by (simp add: effect_on_db effect_ops)
    qed (simp add: CompleteTestRun_def id dec)
  qed (simp add: CompleteTestRun_def id)
qed (simp add: CompleteTestRun_def)

lemma CompleteShard_http_effect: "effect any_call now d (snd (CompleteShard_http now up v decoded d))"
proof (cases "path_id v")
  case id: (Some i)
  show ?thesis
  proof (cases decoded)
    case dec: (Inr req)
    show ?thesis
    proof (cases "cs_Status req = ''completed'' \<or> cs_Status req = ''failed''")
      case True
      then have "snd (CompleteShard_http now up v decoded d) = snd (on_db up (CompleteShard now i req) d)"
        using id dec by (auto simp: CompleteShard_http_def split: handler_case)
      then show ?thesis using True [folded outcome_text_def] by (simp add: effect_on_db effect_ops)
    qed (simp add: CompleteShard_http_def id dec)
  qed (simp add: CompleteShard_http_def id)
qed (simp add: CompleteShard_http_def)

lemma reads_keep: "snd (ListTestRuns up v d) = d" "snd (GetTestRun up v d) = d"
proof -
  show "snd (ListTestRuns up v d) = d" by (simp add: ListTestRuns_def split: handler_case)
  show "snd (GetTestRun up v d) = d"
    by (cases "path_id v") (simp_all add: GetTestRun_def split: handler_case)
qed

text \<open>The create handler: never a panic, and at most the creation of one run.\<close>

lemma CreateTestRun_cases:
  obtains (refused) r where "CreateTestRun lib h now up1 up2 pub decoded d = Some (r, d, [])"
      "400 \<le> rs_code r"
  | (created) req vus where "request_ok req" "targetAllowed lib (h_AllowedTargetHosts h) (cr_TargetURL req)"
      "0 < h_MaxConcurrentRuns h \<longrightarrow> CountActiveRuns d < h_MaxConcurrentRuns h"
      "splitVUs (cr_VirtualUsers req) (cr_Shards req) = Some vus"
      "CreateTestRun lib h now up1 up2 pub decoded d =
         Some (case CreateWithShards now req vus d of
            (Inl _, d') \<Rightarrow> (writeError 500 ''could not create test run'', d', [])
          | (Inr (tr, ids), d') \<Rightarrow> (writeJSON 201 (B_Run tr), d', filter pub ids))"
proof (cases decoded)
  case (Inl e)
  then show thesis using refused by (simp add: CreateTestRun_unfold invalid_json_def writeError_def writeJSON_def)
next
  case (Inr req0)
  obtain msg req where v: "validateCreate (unicode_tables.truncate lib) req0 = (msg, req)" by fastforce
  let ?refuse = "msg \<noteq> [] \<or> \<not> targetAllowed lib (h_AllowedTargetHosts h) (cr_TargetURL req) \<or>
    (0 < h_MaxConcurrentRuns h \<and> (\<not> up1 \<or> h_MaxConcurrentRuns h \<le> CountActiveRuns d))"
  show thesis
  proof (cases ?refuse)
    case True
    then have "\<exists>r. CreateTestRun lib h now up1 up2 pub decoded d = Some (r, d, []) \<and> 400 \<le> rs_code r"
      using Inr v by (simp add: CreateTestRun_unfold writeError_def writeJSON_def)
    then show thesis using refused by blast
  next
    case False
    then have ok: "request_ok req" using v validateCreate_accepts by auto
    then obtain vus where vus: "splitVUs (cr_VirtualUsers req) (cr_Shards req) = Some vus"
      using splitVUs_pos [of "cr_VirtualUsers req" "cr_Shards req"] by (auto simp: request_ok_def)
    show thesis
    proof (cases up2)
      case True
      then have "CreateTestRun lib h now up1 up2 pub decoded d =
          Some (case CreateWithShards now req vus d of
            (Inl _, d') \<Rightarrow> (writeError 500 ''could not create test run'', d', [])
          | (Inr (tr, ids), d') \<Rightarrow> (writeJSON 201 (B_Run tr), d', filter pub ids))"
        using False vus v Inr by (auto simp: CreateTestRun_unfold on_db_def split: handler_case)
      then show thesis using False by (intro created [OF ok _ _ vus]) auto
    next
      case down: False
      then have "\<exists>r. CreateTestRun lib h now up1 up2 pub decoded d = Some (r, d, []) \<and> 400 \<le> rs_code r"
        using False vus v Inr by (auto simp: CreateTestRun_unfold on_db_def writeError_def writeJSON_def)
      then show thesis using refused by blast
    qed
  qed
qed

definition admitted :: "go_lib \<Rightarrow> handler \<Rightarrow> time \<Rightarrow> db \<Rightarrow> db \<Rightarrow> bool" where
  "admitted lib h now d d' \<longleftrightarrow>
     (\<exists>req vus. request_ok req \<and> targetAllowed lib (h_AllowedTargetHosts h) (cr_TargetURL req) \<and>
        (0 < h_MaxConcurrentRuns h \<longrightarrow> CountActiveRuns d < h_MaxConcurrentRuns h) \<and>
        splitVUs (cr_VirtualUsers req) (cr_Shards req) = Some vus \<and>
        d' = snd (CreateWithShards now req vus d))"

lemma CreateTestRun_effect:
  assumes "CreateTestRun lib h now up1 up2 pub decoded d = Some (r, d', ids)"
  shows "d' = d \<or> admitted lib h now d d'"
proof (cases rule: CreateTestRun_cases [of lib h now up1 up2 pub decoded d])
  case (created req vus)
  with assms have "d' = snd (CreateWithShards now req vus d)"
    by (auto split: prod.splits sum.splits)
  with created show ?thesis by (auto simp: admitted_def)
qed (use assms in simp)

lemma plain_result:
  "(case p of (r, d') \<Rightarrow> Some (r, d', [])) = Some (r, d', ids) \<Longrightarrow> effect kind now d (snd p) \<Longrightarrow>
   effect kind now d d' \<and> ids = []"
  by (auto split: prod.splits)

lemmas handler_effects = CancelTestRun_effect ClaimNextRun_effect StartTestRun_effect
  TakeoverTestRun_effect FailTestRun_effect CompleteTestRun_effect StartShard_http_effect
  TakeoverShard_http_effect CompleteShard_http_effect FailShard_http_effect

lemma dispatch_plain:
  assumes "dispatch lib h now up1 up2 pub rq ep d = Some (r, d', ids)" and "ep \<noteq> EP_Create"
  shows "ids = []" and "effect any_call now d d'" and "\<not> shard_endpoint ep \<Longrightarrow> effect run_level now d d'"
proof -
  have "ids = [] \<and> effect any_call now d d' \<and> (\<not> shard_endpoint ep \<longrightarrow> effect run_level now d d')"
  proof (cases "ep = EP_Health \<or> ep = EP_Metrics")
    case True
    then show ?thesis using assms by (auto simp: dispatch_def Let_def)
  next
    case False
    let ?kind = "if shard_endpoint ep then any_call else run_level"
    have "effect ?kind now d d' \<and> ids = []"
      using False assms unfolding dispatch_def Let_def
      by (cases ep; simp only: endpoint.case shard_endpoint.simps if_True if_False)
        (auto elim!: plain_result simp: handler_effects reads_keep)
    then show ?thesis by (auto intro: effect_mono split: if_splits)
  qed
  then show "ids = []" and "effect any_call now d d'" and "\<not> shard_endpoint ep \<Longrightarrow> effect run_level now d d'"
    by simp_all
qed

text \<open>A request by cases; \<open>shard_request\<close>: it is one of the four that move shards.\<close>

definition shard_request :: "http_request \<Rightarrow> bool" where
  "shard_request rq \<longleftrightarrow>
     (case matched (rq_method rq) (endpoints (path_segments (rq_path rq))) of
        None \<Rightarrow> False | Some ep \<Rightarrow> shard_endpoint ep)"

lemma serve_cases:
  assumes "serve lib h now up1 up2 pub rq d = Some (hs, r, d', ids)"
  obtains (other) "effect any_call now d d'" "\<not> shard_request rq \<Longrightarrow> effect run_level now d d'" "ids = []"
  | (create) "CreateTestRun lib h now up1 up2 pub (rq_create rq) d = Some (r, d', ids)"
      "\<not> shard_request rq"
proof (cases "rq_method rq = ''OPTIONS''")
  case True
  then show thesis using assms by (intro other) (auto simp: serve_def)
next
  case False
  then have R: "routes lib h now up1 up2 pub rq d = Some (r, d', ids)" using assms by (auto simp: serve_def)
  show thesis
  proof (cases "matched (rq_method rq) (endpoints (path_segments (rq_path rq)))")
    case None
    then show thesis using R by (intro other) (auto simp: routes_def Let_def split: if_splits)
  next
    case (Some ep)
    then have D: "dispatch lib h now up1 up2 pub rq ep d = Some (r, d', ids)" using R by (simp add: routes_def)
    show thesis
    proof (cases "ep = EP_Create")
      case True
      then show thesis using D Some by (intro create) (simp_all add: dispatch_def shard_request_def)
    next
      case False
      then show thesis using dispatch_plain [OF D False] Some by (intro other) (simp_all add: shard_request_def)
    qed
  qed
qed

lemma serve_effect:
  assumes "serve lib h now up1 up2 pub rq d = Some (hs, r, d', ids)"
  shows "effect any_call now d d' \<or> admitted lib h now d d'"
  using assms
proof (cases rule: serve_cases)
  case create
  then show ?thesis using CreateTestRun_effect by fastforce
qed simp

lemma dispatch_total: "dispatch lib h now up1 up2 pub rq ep d \<noteq> None"
proof (cases "ep = EP_Create")
  case True
  then show ?thesis
    by (cases rule: CreateTestRun_cases [of lib h now up1 up2 pub "rq_create rq" d])
      (auto simp: dispatch_def Let_def)
next
  case False
  then show ?thesis by (cases ep) (auto simp: dispatch_def Let_def split: prod.split)
qed

lemma serve_total: "serve lib h now up1 up2 pub rq d \<noteq> None"
  using dispatch_total by (auto simp: serve_def routes_def Let_def split: option.split)

subsection \<open>Active runs\<close>

definition active :: "run_row \<Rightarrow> bool" where
  "active r \<longleftrightarrow> tr_Status r \<in> {Queued, Running, Cancelling}"

lemma active_terminal: "active r \<longleftrightarrow> \<not> terminal (tr_Status r)"
  by (cases "tr_Status r") (simp_all add: active_def)

lemma length_filter_list_all2:
  assumes "list_all2 R xs ys" and "\<And>x y. R x y \<Longrightarrow> Q y \<Longrightarrow> P x"
  shows "length (filter Q ys) \<le> length (filter P xs)"
  using assms(1) by (induction) (auto dest: assms(2))

lemma active_mono:
  assumes p: "db_progress d d'" and s: "same_shape d d'"
  shows "CountActiveRuns d' \<le> CountActiveRuns d"
proof -
  obtain u v where uv: "db_runs d' = u @ v" "list_all2 (row_progress tr_ID tr_Status) (db_runs d) u"
    using p by (auto simp: db_progress_def table_progress_def)
  have "length (db_runs d') = length (db_runs d)"
    using s unfolding same_shape_def by (metis length_map)
  with uv list_all2_lengthD [OF uv(2)]
  have "list_all2 (row_progress tr_ID tr_Status) (db_runs d) (db_runs d')" by simp
  then have "length (filter active (db_runs d')) \<le> length (filter active (db_runs d))"
    by (rule length_filter_list_all2) (auto simp: active_terminal row_progress_def)
  then show ?thesis by (simp add: CountActiveRuns_def active_def [abs_def])
qed

lemma CreateWithShards_active:
  "CountActiveRuns (snd (CreateWithShards now req vus d)) \<le> CountActiveRuns d + 1"
proof -
  obtain x d' where C: "CreateWithShards now req vus d = (x, d')" by fastforce
  then have "CountActiveRuns d' \<le> CountActiveRuns d + 1"
    by (cases rule: CreateWithShards_cases) (simp_all add: CountActiveRuns_def rollback_def)
  with C show ?thesis by simp
qed

lemma effect_keeps:
  assumes "wf_db d" and "effect any_call now d d'"
  shows "CountActiveRuns d' \<le> CountActiveRuns d" and "db_progress d d'" and "same_shape d d'"
proof -
  have *: "db_progress d d' \<and> same_shape d d'"
  proof (cases "d' = d")
    case False
    with assms(2) obtain c where c: "valid_call c" "\<not> creates c" "d' = run_call now c d"
      by (auto simp: effect_def)
    then show ?thesis using assms(1) shape_call [OF c(2)]
      by (auto intro: run_call_progress simp: wf_db_def)
  qed simp
  then show "db_progress d d'" "same_shape d d'" by simp_all
  from * show "CountActiveRuns d' \<le> CountActiveRuns d" by (intro active_mono) simp_all
qed

lemma serve_reach:
  assumes "store_reach d" and "serve lib h now up1 up2 pub rq d = Some (hs, r, d', ids)"
  shows "store_reach d'"
  using serve_effect [OF assms(2)]
proof
  assume "effect any_call now d d'"
  then show ?thesis using assms(1) by (auto simp: effect_def intro: store_reach.call)
next
  assume "admitted lib h now d d'"
  then obtain req vus where "d' = run_call now (CallCreateWithShards req vus) d" by (auto simp: admitted_def)
  with store_reach.call [OF assms(1), of "CallCreateWithShards req vus" now] show ?thesis by simp
qed

subsection \<open>Creating a run succeeds\<close>

text \<open>Texts PostgreSQL can store.\<close>

definition texts_ok :: "create_request \<Rightarrow> bool" where
  "texts_ok r \<longleftrightarrow> text_ok (cr_Name r) \<and> text_ok (cr_TargetURL r) \<and> text_ok (cr_Body r) \<and>
     list_all (\<lambda>(k, v). text_ok k \<and> text_ok v) (cr_Headers r)"

lemma insert_shards_succeeds:
  assumes "\<forall>v \<in> set vus. 0 < v \<and> int4_ok v" and "0 \<le> k" and "k + int (length vus) < 2 ^ 31"
  shows "\<exists>ids d'. insert_shards now i k vus d = (Inr ids, d')"
  using assms
proof (induction vus arbitrary: k d)
  case (Cons v vs)
  let ?d = "d\<lparr>db_next_shard := db_next_shard d + 1,
      db_shards := db_shards d @ [new_shard_row (db_next_shard d) now i k v]\<rparr>"
  have "\<exists>ids d'. insert_shards now i (k + 1) vs ?d = (Inr ids, d')"
    using Cons.prems by (intro Cons.IH) auto
  moreover have "int4_ok k" using Cons.prems by (simp add: int4_ok_def)
  ultimately show ?case using Cons.prems by (auto simp: Let_def split: sum.split)
qed simp

lemma accepted_creates:
  assumes ok: "request_ok req" and texts: "texts_ok req"
    and vus: "splitVUs (cr_VirtualUsers req) (cr_Shards req) = Some vus"
  shows "\<exists>d'. CreateWithShards now req vus d =
    (Inr (scanRow (sharded_row now req vus (db_next_run d)),
        map sh_id (shard_rows now (db_next_run d) (db_next_shard d) 0 vus)), d')"
proof -
  have n: "0 \<le> cr_VirtualUsers req" "0 < cr_Shards req" using ok by (simp_all add: request_ok_def)
  have len: "int (length vus) \<le> 64" using splitVUs_sum(2) [OF n vus] ok by (simp add: request_ok_def)
  have each: "0 < v \<and> int4_ok v" if "v \<in> set vus" for v
  proof -
    have "1 \<le> cr_VirtualUsers req div cr_Shards req"
      using ok zdiv_mono1 [of "cr_Shards req" "cr_VirtualUsers req" "cr_Shards req"] by (simp add: request_ok_def)
    moreover have "cr_VirtualUsers req div cr_Shards req \<le> cr_VirtualUsers req"
      using ok zdiv_mono2 [of "cr_VirtualUsers req" 1 "cr_Shards req"] by (simp add: request_ok_def)
    ultimately show ?thesis
      using splitVUs_bounds [OF n vus that] ok by (auto simp: request_ok_def int4_ok_def)
  qed
  have m: "text_ok (cr_Method req)"
    using ok by (auto simp: request_ok_def allowedMethods_def text_ok_def)
  have row: "run_row_ok (sharded_row now req vus (db_next_run d))"
    using ok texts m len
    by (auto simp: run_row_ok_def sharded_row_def new_run_row_def request_ok_def texts_ok_def int4_ok_def
        opt_ok_def)
  then obtain d1 where ins: "insert_run (sharded_row now req vus (db_next_run d)) d =
      (Inr (sharded_row now req vus (db_next_run d)), d1)"
    by (auto simp: insert_run_def Let_def)
  obtain ids d2 where sh: "insert_shards now (db_next_run d) 0 vus d1 = (Inr ids, d2)"
    using insert_shards_succeeds [of vus 0 now "db_next_run d" d1] each len by auto
  have "\<exists>x. fst (CreateWithShards now req vus d) = Inr x"
    using ins sh unfolding CreateWithShards_def Let_def sharded_row_def [symmetric] by simp
  then obtain x d' where C: "CreateWithShards now req vus d = (Inr x, d')" by (metis prod.collapse)
  then show ?thesis by (cases rule: CreateWithShards_cases) (auto simp: C)
qed

subsection \<open>Properties\<close>

text \<open>
  C14: whatever requests arrive, in whatever order and with whatever content, the backend
  never panics and its tables stay a reachable state of the store: well formed, statuses only
  moving forward, finished rows frozen.
\<close>

theorem serve_safe:
  assumes "store_reach d"
  shows "\<exists>hs r d' ids. serve lib h now up1 up2 pub rq d = Some (hs, r, d', ids) \<and>
    store_reach d' \<and> wf_db d' \<and> db_progress d d'"
proof -
  obtain hs r d' ids where s: "serve lib h now up1 up2 pub rq d = Some (hs, r, d', ids)"
    using serve_total [of lib h now up1 up2 pub rq d] by (metis option.exhaust prod_cases4)
  have "db_progress d d'"
    using serve_effect [OF s] effect_keeps(2) [OF store_reach_wf [OF assms]] CreateWithShards_progress
    by (auto simp: admitted_def)
  with s serve_reach [OF assms s] store_reach_wf show ?thesis by blast
qed

definition sample_handler :: handler where
  "sample_handler = \<lparr>h_AllowedTargetHosts = [''target''], h_MaxConcurrentRuns = 1\<rparr>"

definition cancel_rq :: http_request where
  "cancel_rq = \<lparr>rq_method = ''POST'', rq_path = ''/test-runs/1/cancel'', rq_limit = [],
     rq_create = Inl ''EOF'', rq_complete = Inl ''EOF'', rq_shard = Inl ''EOF'', rq_reason = Inl ''EOF''\<rparr>"

theorem serve_safe_witness:
  "\<exists>hs r d' ids. serve ascii_lib sample_handler 5 True True (\<lambda>_. True) cancel_rq sample_db =
     Some (hs, r, d', ids) \<and> wf_db d'"
  using serve_safe [OF sample_reach(2), of ascii_lib sample_handler 5 True True "\<lambda>_. True" cancel_rq]
  by blast

lemma CreateTestRun_accepted:
  assumes ok: "request_ok req" and texts: "texts_ok req"
    and allowed: "targetAllowed lib (h_AllowedTargetHosts h) (cr_TargetURL req)"
    and cap: "h_MaxConcurrentRuns h \<le> 0 \<or> CountActiveRuns d < h_MaxConcurrentRuns h"
    and vus: "splitVUs (cr_VirtualUsers req) (cr_Shards req) = Some vus"
  shows "CreateTestRun lib h now True True pub (Inr req) d =
    Some (writeJSON 201 (B_Run (scanRow (sharded_row now req vus (db_next_run d)))),
          d\<lparr>db_next_run := db_next_run d + 1, db_runs := db_runs d @ [sharded_row now req vus (db_next_run d)],
            db_next_shard := db_next_shard d + int (length vus),
            db_shards := db_shards d @ shard_rows now (db_next_run d) (db_next_shard d) 0 vus\<rparr>,
          filter pub (map sh_id (shard_rows now (db_next_run d) (db_next_shard d) 0 vus)))"
proof -
  obtain d' where C: "CreateWithShards now req vus d =
      (Inr (scanRow (sharded_row now req vus (db_next_run d)),
        map sh_id (shard_rows now (db_next_run d) (db_next_shard d) 0 vus)), d')"
    using accepted_creates [OF ok texts vus] by blast
  then have made: "CreateTestRun lib h now True True pub (Inr req) d =
      Some (writeJSON 201 (B_Run (scanRow (sharded_row now req vus (db_next_run d)))), d',
            filter pub (map sh_id (shard_rows now (db_next_run d) (db_next_shard d) 0 vus)))"
    using validateCreate_keeps [OF ok] allowed cap vus by (auto simp: CreateTestRun_unfold on_db_def)
  from C show ?thesis by (cases rule: CreateWithShards_cases) (simp_all add: made)
qed

text \<open>
  C25: a request that passes validation and the allowlist, under the cap and with texts
  free of NUL bytes, creates its run: 201 with a queued run, one queued shard per share of the
  split, and a message for each shard the broker takes.
\<close>

theorem create_accepted:
  assumes ok: "request_ok req" and texts: "texts_ok req"
    and allowed: "targetAllowed lib (h_AllowedTargetHosts h) (cr_TargetURL req)"
    and cap: "h_MaxConcurrentRuns h \<le> 0 \<or> CountActiveRuns d < h_MaxConcurrentRuns h"
  shows "\<exists>vus d'. splitVUs (cr_VirtualUsers req) (cr_Shards req) = Some vus \<and>
    CreateTestRun lib h now True True pub (Inr req) d =
      Some (writeJSON 201 (B_Run (scanRow (sharded_row now req vus (db_next_run d)))), d',
            filter pub (map sh_id (shard_rows now (db_next_run d) (db_next_shard d) 0 vus))) \<and>
    db_runs d' = db_runs d @ [sharded_row now req vus (db_next_run d)] \<and>
    db_shards d' = db_shards d @ shard_rows now (db_next_run d) (db_next_shard d) 0 vus"
proof -
  obtain vus where vus: "splitVUs (cr_VirtualUsers req) (cr_Shards req) = Some vus"
    using ok splitVUs_pos [of "cr_VirtualUsers req" "cr_Shards req"] by (auto simp: request_ok_def)
  with CreateTestRun_accepted [OF ok texts allowed cap vus] show ?thesis by fastforce
qed

definition good_request :: create_request where
  "good_request = padded_request\<lparr>cr_Name := ''load'', cr_TargetURL := ''http://target/'', cr_Method := ''GET''\<rparr>"

lemma good_request_ok:
  "request_ok good_request" "texts_ok good_request"
  "targetAllowed ascii_lib (h_AllowedTargetHosts sample_handler) (cr_TargetURL good_request)"
proof -
  have t: "TrimSpace ''load'' = ''load''" "TrimSpace ''http://target/'' = ''http://target/''"
    "HasPrefix ''http://target/'' ''http://''" "targetAllowed ascii_lib [''target''] ''http://target/''"
    by code_simp+
  then show "request_ok good_request"
    by (simp add: request_ok_def good_request_def padded_request_def allowedMethods_def)
  show "texts_ok good_request" by (simp add: texts_ok_def good_request_def padded_request_def text_ok_def)
  show "targetAllowed ascii_lib (h_AllowedTargetHosts sample_handler) (cr_TargetURL good_request)"
    using t by (simp add: sample_handler_def good_request_def padded_request_def)
qed

theorem create_accepted_witness:
  "\<exists>r d' ids. CreateTestRun ascii_lib sample_handler 3 True True (\<lambda>i. i \<noteq> 2) (Inr good_request) empty_db =
     Some (r, d', ids) \<and> rs_code r = 201 \<and> map sh_virtual_users (db_shards d') = [3, 2, 2] \<and> ids = [1, 3]"
proof -
  have cap: "h_MaxConcurrentRuns sample_handler \<le> 0 \<or>
      CountActiveRuns empty_db < h_MaxConcurrentRuns sample_handler"
    by (simp add: sample_handler_def CountActiveRuns_def empty_db_def)
  have vus: "splitVUs (cr_VirtualUsers good_request) (cr_Shards good_request) = Some [3, 2, 2]"
    by (simp add: good_request_def padded_request_def splitVUs_def signed_divide_int_def
        signed_modulo_int_def upt_rec)
  from create_accepted [OF good_request_ok cap, of 3 "\<lambda>i. i \<noteq> 2"] vus
  show ?thesis by (auto simp: writeJSON_def empty_db_def new_shard_row_def)
qed

text \<open>
  C34: validation lets texts through that the database cannot store. A request that passes
  every check but has a NUL byte in its name, URL, body or a header is answered 500, not 400,
  and creates nothing.
\<close>

theorem create_nul_bytes:
  assumes ok: "request_ok req" and nul: "\<not> texts_ok req"
    and allowed: "targetAllowed lib (h_AllowedTargetHosts h) (cr_TargetURL req)"
    and cap: "h_MaxConcurrentRuns h \<le> 0 \<or> CountActiveRuns d < h_MaxConcurrentRuns h"
  shows "\<exists>d'. CreateTestRun lib h now True True pub (Inr req) d =
      Some (writeError 500 ''could not create test run'', d', []) \<and>
    db_runs d' = db_runs d \<and> db_shards d' = db_shards d"
proof -
  obtain vus where vus: "splitVUs (cr_VirtualUsers req) (cr_Shards req) = Some vus"
    using ok splitVUs_pos [of "cr_VirtualUsers req" "cr_Shards req"] by (auto simp: request_ok_def)
  have "\<not> run_row_ok (sharded_row now req vus (db_next_run d))"
    using nul by (auto simp: run_row_ok_def sharded_row_def new_run_row_def texts_ok_def opt_ok_def
        text_ok_def split: if_splits)
  then obtain e d' where C: "CreateWithShards now req vus d = (Inl e, d')"
    "db_runs d' = db_runs d" "db_shards d' = db_shards d"
  proof -
    assume bad: "\<not> run_row_ok (sharded_row now req vus (db_next_run d))"
    obtain x d' where C: "CreateWithShards now req vus d = (x, d')" by fastforce
    then show thesis
      by (cases rule: CreateWithShards_cases) (use bad C in \<open>auto simp: rollback_def intro: that\<close>)
  qed
  then have "CreateTestRun lib h now True True pub (Inr req) d =
      Some (writeError 500 ''could not create test run'', d', [])"
    using validateCreate_keeps [OF ok] allowed cap vus by (auto simp: CreateTestRun_unfold on_db_def)
  with C(2,3) show ?thesis by blast
qed

theorem create_nul_bytes_witness:
  "\<exists>d'. CreateTestRun ascii_lib sample_handler 3 True True (\<lambda>_. True)
     (Inr (good_request\<lparr>cr_Body := [CHR 0x00]\<rparr>)) empty_db =
       Some (writeError 500 ''could not create test run'', d', [])"
proof -
  let ?req = "good_request\<lparr>cr_Body := [CHR 0x00]\<rparr>"
  have "request_ok ?req" "\<not> texts_ok ?req"
    "targetAllowed ascii_lib (h_AllowedTargetHosts sample_handler) (cr_TargetURL ?req)"
    using good_request_ok by (simp_all add: request_ok_def texts_ok_def text_ok_def)
  moreover have "h_MaxConcurrentRuns sample_handler \<le> 0 \<or>
      CountActiveRuns empty_db < h_MaxConcurrentRuns sample_handler"
    by (simp add: sample_handler_def CountActiveRuns_def empty_db_def)
  ultimately show ?thesis
    using create_nul_bytes [of ?req ascii_lib sample_handler empty_db 3 "\<lambda>_. True"] by blast
qed

end
