(* ===== verification/Admission.thy ===== *)
theory Admission
  imports Api_Handlers
begin

section \<open>Admission control under concurrent requests\<close>

text \<open>
  \<open>CreateTestRun\<close> counts the active runs in one statement and inserts the run in a later
  transaction; the backend serves requests concurrently, so any others can come between the two.
  Here the handler's two halves, \<open>create_check\<close> and \<open>create_commit\<close>, are separate steps, and the
  state keeps the requests that have been let in and are still to be inserted.
\<close>

record intake =
  in_db :: db
  in_admitted :: "create_request list"

definition is_create :: "http_request \<Rightarrow> bool" where
  "is_create rq \<longleftrightarrow> matched (rq_method rq) (endpoints (path_segments (rq_path rq))) = Some EP_Create"

inductive intake_step :: "go_lib \<Rightarrow> handler \<Rightarrow> intake \<Rightarrow> intake \<Rightarrow> bool" for lib h where
  check: "create_check lib h up decoded (in_db s) = Inr req
    \<Longrightarrow> intake_step lib h s (s\<lparr>in_admitted := req # in_admitted s\<rparr>)"
| commit: "\<lbrakk>req \<in> set (in_admitted s); create_commit now up published req (in_db s) = Some (r, d', ids)\<rbrakk>
    \<Longrightarrow> intake_step lib h s (s\<lparr>in_db := d', in_admitted := remove1 req (in_admitted s)\<rparr>)"
| other: "\<lbrakk>serve lib h now up1 up2 published rq (in_db s) = Some (hs, r, d', ids); \<not> is_create rq\<rbrakk>
    \<Longrightarrow> intake_step lib h s (s\<lparr>in_db := d'\<rparr>)"

text \<open>The states reached while at most \<open>n\<close> requests are between their check and their insert.\<close>

inductive intake_reach :: "go_lib \<Rightarrow> handler \<Rightarrow> nat \<Rightarrow> db \<Rightarrow> intake \<Rightarrow> bool" for lib h n d where
  start: "intake_reach lib h n d \<lparr>in_db = d, in_admitted = []\<rparr>"
| step: "intake_reach lib h n d s \<Longrightarrow> intake_step lib h s s' \<Longrightarrow> length (in_admitted s') \<le> n
    \<Longrightarrow> intake_reach lib h n d s'"

subsection \<open>What the steps do to the count\<close>

lemma create_check_active:
  "create_check lib h up decoded d = Inr req \<Longrightarrow> 0 < h_MaxConcurrentRuns h \<Longrightarrow>
   CountActiveRuns d < h_MaxConcurrentRuns h"
  by (auto simp: create_check_def split: sum.splits prod.splits if_splits)

lemma create_commit_call:
  assumes "create_commit now up published req d = Some (r, d', ids)"
  shows "d' = d \<or> (\<exists>vus. d' = run_call now (CallCreateWithShards req vus) d)"
proof (cases "splitVUs (cr_VirtualUsers req) (cr_Shards req)")
  case (Some vus)
  then have "d' = snd (on_db up (CreateWithShards now req vus) d)"
    using assms by (auto simp: create_commit_def split: sum.splits prod.splits)
  then show ?thesis by (auto simp: on_db_def)
qed (use assms in \<open>simp add: create_commit_def\<close>)

lemma create_commit_active:
  assumes "create_commit now up published req d = Some (r, d', ids)"
  shows "CountActiveRuns d' \<le> CountActiveRuns d + 1"
  using create_commit_call [OF assms] CreateWithShards_active by auto

lemma serve_plain:
  assumes "serve lib h now up1 up2 pub rq d = Some (hs, r, d', ids)" and "\<not> is_create rq"
  shows "effect any_call now d d'"
  using assms(1)
proof (cases rule: serve_cases)
  case create
  show ?thesis
  proof (cases "rq_method rq = ''OPTIONS''")
    case True
    then show ?thesis using assms(1) by (auto simp: serve_def)
  next
    case False
    then have R: "routes lib h now up1 up2 pub rq d = Some (r, d', ids)" using assms(1) by (auto simp: serve_def)
    show ?thesis
    proof (cases "matched (rq_method rq) (endpoints (path_segments (rq_path rq)))")
      case None
      then show ?thesis using R by (auto simp: routes_def Let_def split: if_splits)
    next
      case (Some ep)
      then have "dispatch lib h now up1 up2 pub rq ep d = Some (r, d', ids)" using R by (simp add: routes_def)
      then show ?thesis using dispatch_plain(2) Some assms(2) by (auto simp: is_create_def)
    qed
  qed
qed

lemma effect_reach: "store_reach d \<Longrightarrow> effect any_call now d d' \<Longrightarrow> store_reach d'"
  by (auto simp: effect_def intro: store_reach.call)

text \<open>Each request let in has a place kept for it.\<close>

lemma intake_step_keeps:
  assumes "intake_step lib h s s'" and "0 < h_MaxConcurrentRuns h" and "store_reach (in_db s)"
    and "CountActiveRuns (in_db s) + int (length (in_admitted s)) \<le> h_MaxConcurrentRuns h - 1 + int n"
    and "length (in_admitted s') \<le> n"
  shows "store_reach (in_db s') \<and>
    CountActiveRuns (in_db s') + int (length (in_admitted s')) \<le> h_MaxConcurrentRuns h - 1 + int n"
  using assms
proof cases
  case (check up decoded req)
  then show ?thesis using create_check_active [OF check(2) assms(2)] assms(3,5) by simp
next
  case (commit req now up published r d' ids)
  have "0 < length (in_admitted s)" using commit(2) by (cases "in_admitted s") auto
  then have "int (length (in_admitted s')) = int (length (in_admitted s)) - 1"
    using commit(1,2) by (simp add: length_remove1 of_nat_diff Suc_le_eq)
  moreover have "store_reach d'"
    using create_commit_call [OF commit(3)] assms(3)
      store_reach.call [of "in_db s" "CallCreateWithShards req _" now] by auto
  ultimately show ?thesis using create_commit_active [OF commit(3)] commit(1) assms(4) by simp
next
  case (other now up1 up2 published rq hs r d' ids)
  note e = serve_plain [OF other(2,3)]
  show ?thesis
    using effect_keeps(1) [OF store_reach_wf [OF assms(3)] e] effect_reach [OF assms(3) e] other(1) assms(4) by simp
qed

subsection \<open>The bound is reached\<close>

text \<open>Requests that are all checked before the first of them is inserted.\<close>

lemma empty_check: "create_check ascii_lib sample_handler True (Inr good_request) empty_db = Inr good_request"
  using validateCreate_keeps [OF good_request_ok(1)] good_request_ok(3)
  by (simp add: create_check_def sample_handler_def CountActiveRuns_def empty_db_def)

lemma good_commit:
  "\<exists>r d' ids. create_commit 3 True (\<lambda>_. True) good_request d = Some (r, d', ids) \<and>
     CountActiveRuns d' = CountActiveRuns d + 1"
proof -
  have vus: "splitVUs (cr_VirtualUsers good_request) (cr_Shards good_request) = Some [3, 2, 2]"
    by (simp add: good_request_def padded_request_def splitVUs_def signed_divide_int_def
        signed_modulo_int_def upt_rec)
  obtain x d' where C: "CreateWithShards 3 good_request [3, 2, 2] d = (Inr x, d')"
    using accepted_creates [OF good_request_ok(1,2) vus, of 3 d] by blast
  then have "CountActiveRuns d' = CountActiveRuns d + 1"
    by (cases rule: CreateWithShards_cases) (auto simp: CountActiveRuns_def sharded_row_def new_run_row_def)
  moreover have "\<exists>r ids. create_commit 3 True (\<lambda>_. True) good_request d = Some (r, d', ids)"
    using C by (cases x) (simp add: create_commit_def vus on_db_def)
  ultimately show ?thesis by blast
qed

lemma checks_first:
  "j \<le> n \<Longrightarrow> intake_reach ascii_lib sample_handler n empty_db \<lparr>in_db = empty_db, in_admitted = replicate j good_request\<rparr>"
proof (induction j)
  case 0
  show ?case by (simp add: intake_reach.start)
next
  case (Suc j)
  let ?s = "\<lparr>in_db = empty_db, in_admitted = replicate j good_request\<rparr>"
  have "intake_step ascii_lib sample_handler ?s (?s\<lparr>in_admitted := good_request # in_admitted ?s\<rparr>)"
    by (rule intake_step.check [where up = True and decoded = "Inr good_request"]) (simp add: empty_check)
  from intake_reach.step [OF Suc.IH this] Suc.prems show ?case by simp
qed

lemma commits_follow:
  assumes "intake_reach ascii_lib sample_handler n empty_db \<lparr>in_db = d, in_admitted = replicate j good_request\<rparr>" and "j \<le> n"
  shows "\<exists>d'. intake_reach ascii_lib sample_handler n empty_db \<lparr>in_db = d', in_admitted = []\<rparr> \<and>
    CountActiveRuns d' = CountActiveRuns d + int j"
  using assms
proof (induction j arbitrary: d)
  case (Suc j)
  let ?s = "\<lparr>in_db = d, in_admitted = replicate (Suc j) good_request\<rparr>"
  obtain r d1 ids where d1: "create_commit 3 True (\<lambda>_. True) good_request (in_db ?s) = Some (r, d1, ids)"
    "CountActiveRuns d1 = CountActiveRuns d + 1" using good_commit [of d] by auto
  have "intake_step ascii_lib sample_handler ?s (?s\<lparr>in_db := d1, in_admitted := remove1 good_request (in_admitted ?s)\<rparr>)"
    by (rule intake_step.commit [OF _ d1(1)]) simp
  from intake_reach.step [OF Suc.prems(1) this] Suc.prems(2)
  have "intake_reach ascii_lib sample_handler n empty_db \<lparr>in_db = d1, in_admitted = replicate j good_request\<rparr>" by simp
  from Suc.IH [OF this] Suc.prems(2) d1(2) show ?case by auto
qed auto

lemma cap_exceeded: "\<exists>s. intake_reach ascii_lib sample_handler n empty_db s \<and> CountActiveRuns (in_db s) = int n"
  using commits_follow [OF checks_first [OF order.refl] order.refl, of n]
  by (force simp: CountActiveRuns_def empty_db_def)

subsection \<open>Property\<close>

text \<open>
  C24: what the concurrency cap guarantees. The capacity check is best-effort: while at most
  \<open>n\<close> create requests are between their check and their insert, among any other requests, the
  active runs stay within MAX_CONCURRENT_RUNS - 1 + \<open>n\<close>, and a request that was let in has its
  place counted in. For creates that are served one at a time (\<open>n = 1\<close>) that is the cap; with
  more, the cap can be exceeded by \<open>n - 1\<close> (\<open>cap_exceeded\<close> reaches the bound for a cap of 1).
\<close>

theorem admission_bound:
  assumes "intake_reach lib h n d s" and "0 < h_MaxConcurrentRuns h" and "store_reach d"
    and "CountActiveRuns d \<le> h_MaxConcurrentRuns h" and "0 < n"
  shows "CountActiveRuns (in_db s) + int (length (in_admitted s)) \<le> h_MaxConcurrentRuns h - 1 + int n"
proof -
  have "store_reach (in_db s) \<and>
      CountActiveRuns (in_db s) + int (length (in_admitted s)) \<le> h_MaxConcurrentRuns h - 1 + int n"
    using assms(1)
  proof (induction rule: intake_reach.induct)
    case start
    then show ?case using assms(3-5) by simp
  next
    case (step s s')
    from intake_step_keeps [OF step(2) assms(2) _ _ step(3)] step.IH show ?case by blast
  qed
  then show ?thesis ..
qed

theorem admission_bound_witness:
  "\<exists>s. intake_reach ascii_lib sample_handler 3 empty_db s \<and> CountActiveRuns (in_db s) = 3 \<and>
     3 + int (length (in_admitted s)) \<le> 1 - 1 + int 3"
proof -
  obtain s where s: "intake_reach ascii_lib sample_handler 3 empty_db s" "CountActiveRuns (in_db s) = int 3"
    using cap_exceeded by blast
  have "0 < h_MaxConcurrentRuns sample_handler" "CountActiveRuns empty_db \<le> h_MaxConcurrentRuns sample_handler" "0 < (3 :: nat)"
    by (simp_all add: sample_handler_def CountActiveRuns_def empty_db_def)
  from admission_bound [OF s(1) this(1) store_reach.empty this(2,3)] s show ?thesis
    by (auto simp: sample_handler_def)
qed

end
