(* ===== verification/Worker_Client.thy ===== *)
theory Worker_Client
  imports Api_Handlers
begin

section \<open>The worker's API client\<close>

text \<open>
  \<^verbatim>\<open>worker/internal/client/client.go\<close>. The backend is a function from a request and a state
  to a response and a state (\<open>None\<close>: the handler panicked and the connection was closed);
  \<open>serve_call\<close> makes one of the model's own \<open>serve\<close>. The network can lose the request, the
  response, or the response's body. A method returns an error, or a value: \<open>Some\<close> or \<open>None\<close>
  where the Go method returns a pointer and a bool.

  Worker and backend share no types; the structs have the same JSON tags, so encoding one and
  decoding the other keeps every field. The locale \<open>shard_api\<close> states what the worker relies
  on; it is interpreted on the client talking to the backend's handlers.
\<close>

subsection \<open>Data\<close>

record client =
  cl_baseURL :: string

record client_run =
  ct_ID :: int
  ct_Name :: string
  ct_TargetURL :: string
  ct_Method :: string
  ct_VirtualUsers :: int
  ct_DurationSeconds :: int

datatype network = Net_ok | Request_lost | Response_lost | Body_lost

datatype client_error = Err_url | Err_do | Err_decode | Err_status int

type_synonym backend = "http_request \<Rightarrow> db \<Rightarrow> (response \<times> db) option"

definition serve_call :: "go_lib \<Rightarrow> handler \<Rightarrow> time \<Rightarrow> bool \<times> bool \<Rightarrow> backend" where
  "serve_call lib h now up rq d =
     map_option (\<lambda>(hs, r, d', ids). (r, d')) (serve lib h now (fst up) (snd up) (\<lambda>_. True) rq d)"

subsection \<open>Sending a request\<close>

text \<open>A request without a body, and with a body that decodes as the given values.\<close>

definition plain_rq :: "string \<Rightarrow> string \<Rightarrow> http_request" where
  "plain_rq method path =
     \<lparr>rq_method = method, rq_path = path, rq_limit = [], rq_create = Inl ''EOF'',
      rq_complete = Inl ''EOF'', rq_shard = Inl ''EOF'', rq_reason = Inl ''EOF''\<rparr>"

definition shard_rq :: "string \<Rightarrow> complete_shard_request \<Rightarrow> http_request" where
  "shard_rq path body = (plain_rq ''POST'' path)\<lparr>rq_shard := Inr body\<rparr>"

definition run_rq :: "string \<Rightarrow> complete_run_request \<Rightarrow> http_request" where
  "run_rq path body = (plain_rq ''POST'' path)\<lparr>rq_complete := Inr body\<rparr>"

definition reason_rq :: "string \<Rightarrow> string \<Rightarrow> http_request" where
  "reason_rq path reason = (plain_rq ''POST'' path)\<lparr>rq_reason := Inr reason\<rparr>"

text \<open>\<^verbatim>\<open>NewRequestWithContext\<close> and \<^verbatim>\<open>c.http.Do\<close>: the response, or the error.\<close>

definition http_do ::
  "go_lib \<Rightarrow> client \<Rightarrow> backend \<Rightarrow> network \<Rightarrow> http_request \<Rightarrow> db \<Rightarrow> (client_error + response) \<times> db" where
  "http_do lib c backend net rq d =
     (if url_parse lib (cl_baseURL c @ rq_path rq) = None then (Inl Err_url, d)
      else if net = Request_lost then (Inl Err_do, d)
      else case backend rq d of
             None \<Rightarrow> (Inl Err_do, d)
           | Some (r, d') \<Rightarrow> if net = Response_lost then (Inl Err_do, d') else (Inr r, d'))"

text \<open>\<^verbatim>\<open>json.NewDecoder(resp.Body).Decode\<close> of the bodies the endpoints answer 200 with.\<close>

fun decode_run :: "network \<Rightarrow> body \<Rightarrow> client_run option" where
  "decode_run Net_ok (B_Run t) =
     Some \<lparr>ct_ID = tr_ID t, ct_Name = tr_Name t, ct_TargetURL = tr_TargetURL t, ct_Method = tr_Method t,
           ct_VirtualUsers = tr_VirtualUsers t, ct_DurationSeconds = tr_DurationSeconds t\<rparr>"
| "decode_run _ _ = None"

fun decode_assignment :: "network \<Rightarrow> body \<Rightarrow> shard_assignment option" where
  "decode_assignment Net_ok (B_Assignment a) = Some a"
| "decode_assignment _ _ = None"

fun decode_status :: "network \<Rightarrow> body \<Rightarrow> string option" where
  "decode_status Net_ok (B_Run t) = Some (status_text (tr_Status t))"
| "decode_status _ _ = None"

subsection \<open>Claiming and starting\<close>

definition ClaimNext_rpc ::
  "go_lib \<Rightarrow> client \<Rightarrow> backend \<Rightarrow> network \<Rightarrow> db \<Rightarrow> (client_error + client_run option) \<times> db" where
  "ClaimNext_rpc lib c backend net d =
     (case http_do lib c backend net (plain_rq ''POST'' ''/internal/workers/claim'') d of
        (Inl e, d') \<Rightarrow> (Inl e, d')
      | (Inr r, d') \<Rightarrow>
          (if rs_code r = 204 then (Inr None, d')
           else if rs_code r = 200
           then (case decode_run net (rs_body r) of None \<Rightarrow> (Inl Err_decode, d') | Some run \<Rightarrow> (Inr (Some run), d'))
           else (Inl (Err_status (rs_code r)), d')))"

text \<open>The part of \<^verbatim>\<open>StartRun\<close> and \<^verbatim>\<open>TakeOverRun\<close> after the URL, the same in both.\<close>

definition run_rpc ::
  "go_lib \<Rightarrow> client \<Rightarrow> backend \<Rightarrow> network \<Rightarrow> string \<Rightarrow> db \<Rightarrow> (client_error + client_run option) \<times> db" where
  "run_rpc lib c backend net path d =
     (case http_do lib c backend net (plain_rq ''POST'' path) d of
        (Inl e, d') \<Rightarrow> (Inl e, d')
      | (Inr r, d') \<Rightarrow>
          (if rs_code r = 200
           then (case decode_run net (rs_body r) of None \<Rightarrow> (Inl Err_decode, d') | Some run \<Rightarrow> (Inr (Some run), d'))
           else if rs_code r = 409 \<or> rs_code r = 404 then (Inr None, d')
           else (Inl (Err_status (rs_code r)), d')))"

definition StartRun_rpc ::
  "go_lib \<Rightarrow> client \<Rightarrow> backend \<Rightarrow> network \<Rightarrow> int \<Rightarrow> db \<Rightarrow> (client_error + client_run option) \<times> db" where
  "StartRun_rpc lib c backend net i d =
     run_rpc lib c backend net (''/internal/test-runs/'' @ FormatInt i @ ''/start'') d"

definition TakeOverRun_rpc ::
  "go_lib \<Rightarrow> client \<Rightarrow> backend \<Rightarrow> network \<Rightarrow> int \<Rightarrow> db \<Rightarrow> (client_error + client_run option) \<times> db" where
  "TakeOverRun_rpc lib c backend net i d =
     run_rpc lib c backend net (''/internal/test-runs/'' @ FormatInt i @ ''/takeover'') d"

definition claimShard_rpc ::
  "go_lib \<Rightarrow> client \<Rightarrow> backend \<Rightarrow> network \<Rightarrow> string \<Rightarrow> int \<Rightarrow> db
    \<Rightarrow> (client_error + shard_assignment option) \<times> db" where
  "claimShard_rpc lib c backend net path i d =
     (case http_do lib c backend net (plain_rq ''POST'' (''/internal/shards/'' @ FormatInt i @ path)) d of
        (Inl e, d') \<Rightarrow> (Inl e, d')
      | (Inr r, d') \<Rightarrow>
          (if rs_code r = 200
           then (case decode_assignment net (rs_body r) of
                   None \<Rightarrow> (Inl Err_decode, d') | Some a \<Rightarrow> (Inr (Some a), d'))
           else if rs_code r = 409 \<or> rs_code r = 404 then (Inr None, d')
           else (Inl (Err_status (rs_code r)), d')))"

definition StartShard_rpc ::
  "go_lib \<Rightarrow> client \<Rightarrow> backend \<Rightarrow> network \<Rightarrow> int \<Rightarrow> db
    \<Rightarrow> (client_error + shard_assignment option) \<times> db" where
  "StartShard_rpc lib c backend net i d = claimShard_rpc lib c backend net ''/start'' i d"

definition TakeOverShard_rpc ::
  "go_lib \<Rightarrow> client \<Rightarrow> backend \<Rightarrow> network \<Rightarrow> int \<Rightarrow> db
    \<Rightarrow> (client_error + shard_assignment option) \<times> db" where
  "TakeOverShard_rpc lib c backend net i d = claimShard_rpc lib c backend net ''/takeover'' i d"

subsection \<open>Reporting\<close>

text \<open>The reports of a run and of a shard: any status but 200 is an error.\<close>

definition expect_200 :: "(client_error + response) \<times> db \<Rightarrow> (client_error + unit) \<times> db" where
  "expect_200 x =
     (case x of
        (Inl e, d') \<Rightarrow> (Inl e, d')
      | (Inr r, d') \<Rightarrow> if rs_code r \<noteq> 200 then (Inl (Err_status (rs_code r)), d') else (Inr (), d'))"

definition FailRun_rpc ::
  "go_lib \<Rightarrow> client \<Rightarrow> backend \<Rightarrow> network \<Rightarrow> int \<Rightarrow> string \<Rightarrow> db \<Rightarrow> (client_error + unit) \<times> db" where
  "FailRun_rpc lib c backend net i reason d =
     expect_200 (http_do lib c backend net
       (reason_rq (''/internal/test-runs/'' @ FormatInt i @ ''/fail'') reason) d)"

definition Complete_rpc ::
  "go_lib \<Rightarrow> client \<Rightarrow> backend \<Rightarrow> network \<Rightarrow> int \<Rightarrow> complete_run_request \<Rightarrow> db \<Rightarrow> (client_error + unit) \<times> db" where
  "Complete_rpc lib c backend net i body d =
     expect_200 (http_do lib c backend net
       (run_rq (''/internal/test-runs/'' @ FormatInt i @ ''/complete'') body) d)"

definition postJSON ::
  "go_lib \<Rightarrow> client \<Rightarrow> backend \<Rightarrow> network \<Rightarrow> http_request \<Rightarrow> db \<Rightarrow> (client_error + unit) \<times> db" where
  "postJSON lib c backend net rq d = expect_200 (http_do lib c backend net rq d)"

definition CompleteShard_rpc ::
  "go_lib \<Rightarrow> client \<Rightarrow> backend \<Rightarrow> network \<Rightarrow> int \<Rightarrow> complete_shard_request \<Rightarrow> db \<Rightarrow> (client_error + unit) \<times> db" where
  "CompleteShard_rpc lib c backend net i body d =
     postJSON lib c backend net (shard_rq (''/internal/shards/'' @ FormatInt i @ ''/complete'') body) d"

definition FailShard_rpc ::
  "go_lib \<Rightarrow> client \<Rightarrow> backend \<Rightarrow> network \<Rightarrow> int \<Rightarrow> string \<Rightarrow> db \<Rightarrow> (client_error + unit) \<times> db" where
  "FailShard_rpc lib c backend net i reason d =
     postJSON lib c backend net (reason_rq (''/internal/shards/'' @ FormatInt i @ ''/fail'') reason) d"

definition RunStatus_rpc ::
  "go_lib \<Rightarrow> client \<Rightarrow> backend \<Rightarrow> network \<Rightarrow> int \<Rightarrow> db \<Rightarrow> (client_error + string) \<times> db" where
  "RunStatus_rpc lib c backend net i d =
     (case http_do lib c backend net (plain_rq ''GET'' (''/test-runs/'' @ FormatInt i)) d of
        (Inl e, d') \<Rightarrow> (Inl e, d')
      | (Inr r, d') \<Rightarrow>
          (if rs_code r \<noteq> 200 then (Inl (Err_status (rs_code r)), d')
           else case decode_status net (rs_body r) of
                  None \<Rightarrow> (Inl Err_decode, d') | Some st \<Rightarrow> (Inr st, d')))"

subsection \<open>From the client through the routes to the handler\<close>

text \<open>Decimal ids contain nothing that splits or unescapes.\<close>

lemma split_on_join:
  "c \<notin> set a \<Longrightarrow> split_on c (a @ c # b) = a # split_on c b"
  by (induction a) auto

lemma split_on_last: "c \<notin> set a \<Longrightarrow> split_on c a = [a]"
  by (induction a) auto

lemma FormatInt_no_slash: "CHR ''/'' \<notin> set (FormatInt i)" "CHR ''%'' \<notin> set (FormatInt i)"
  using FormatInt_chars [of "CHR ''/''" i] FormatInt_chars [of "CHR ''%''" i]
  by (auto simp: is_digit_def)

lemma FormatInt_nonempty: "FormatInt i \<noteq> []"
  by (simp add: FormatInt_def format_nat_nonempty)

lemma unescape_id: "CHR ''%'' \<notin> set s \<Longrightarrow> unescape EncOther s = Some s"
  by (induction s) auto

lemma segment_FormatInt: "segment_value (FormatInt i) = FormatInt i"
  by (simp add: segment_value_def unescape_id FormatInt_no_slash)

lemma path_id_FormatInt: "int64_ok i \<Longrightarrow> path_id (FormatInt i) = (if i \<le> 0 then None else Some i)"
  by (simp add: path_id_def ParseInt_FormatInt)

lemma path_segments_shard:
  assumes "CHR ''/'' \<notin> set act"
  shows "path_segments (''/internal/shards/'' @ FormatInt i @ ''/'' @ act) =
    [''internal'', ''shards'', FormatInt i, act]"
proof -
  have "split_on CHR ''/'' (''internal'' @ CHR ''/'' # ''shards'' @ CHR ''/'' # FormatInt i @ CHR ''/'' # act) =
      [''internal'', ''shards'', FormatInt i, act]"
    using assms FormatInt_no_slash by (subst split_on_join; (subst split_on_join)?; (subst split_on_join)?)
      (auto simp: split_on_last)
  then show ?thesis by (simp add: path_segments_def)
qed

lemma serve_call_shard:
  "serve_call lib h now up (plain_rq ''POST'' (''/internal/shards/'' @ FormatInt i @ ''/start'')) d =
     Some (StartShard_http now (fst up) (snd up) (FormatInt i) d)"
  "serve_call lib h now up (plain_rq ''POST'' (''/internal/shards/'' @ FormatInt i @ ''/takeover'')) d =
     Some (TakeoverShard_http now (fst up) (snd up) (FormatInt i) d)"
  "serve_call lib h now up (shard_rq (''/internal/shards/'' @ FormatInt i @ ''/complete'') body) d =
     Some (CompleteShard_http now (fst up) (FormatInt i) (Inr body) d)"
  "serve_call lib h now up (reason_rq (''/internal/shards/'' @ FormatInt i @ ''/fail'') reason) d =
     Some (FailShard_http now (fst up) (FormatInt i) (Inr reason) d)"
  using path_segments_shard [of "''start''" i] path_segments_shard [of "''takeover''" i]
    path_segments_shard [of "''complete''" i] path_segments_shard [of "''fail''" i]
  by (simp_all add: serve_call_def serve_def routes_def plain_rq_def shard_rq_def reason_rq_def
      endpoints_def shard_action_def segment_FormatInt matched_def dispatch_def FormatInt_nonempty
      case_prod_unfold Let_def)

text \<open>What a call can do to the state, and what its answer says about it, whatever the network does.\<close>

lemma http_do_cases:
  assumes "http_do lib c (serve_call lib' h now up) net rq d = (x, d')"
    and "serve_call lib' h now up rq d = Some (r, d1)"
  shows "d' = d \<or> d' = d1" "x = Inr r' \<Longrightarrow> r' = r \<and> d' = d1"
  using assms by (auto simp: http_do_def split: if_splits)

lemma claimShard_rpc_cases:
  assumes "claimShard_rpc lib c (serve_call lib' h now up) net path i d = (x, d')"
    and "serve_call lib' h now up (plain_rq ''POST'' (''/internal/shards/'' @ FormatInt i @ path)) d = Some (r, d1)"
  shows "d' = d \<or> d' = d1"
    and "x = Inr (Some a) \<Longrightarrow> d' = d1 \<and> rs_code r = 200 \<and> rs_body r = B_Assignment a"
    and "x = Inr None \<Longrightarrow> d' = d1 \<and> (rs_code r = 409 \<or> rs_code r = 404)"
proof -
  obtain z dz where Z: "http_do lib c (serve_call lib' h now up) net
      (plain_rq ''POST'' (''/internal/shards/'' @ FormatInt i @ path)) d = (z, dz)" by fastforce
  note sent = http_do_cases [OF Z assms(2)]
  note eq = assms(1) [unfolded claimShard_rpc_def Z]
  have d': "d' = dz" using eq by (auto split: sum.splits if_splits option.splits)
  then show "d' = d \<or> d' = d1" using sent(1) by simp
  have dec: "decode_assignment net b = Some a \<Longrightarrow> b = B_Assignment a" for b
    by (cases net; cases b) auto
  show "d' = d1 \<and> rs_code r = 200 \<and> rs_body r = B_Assignment a" if "x = Inr (Some a)"
    using eq that d' sent(2) dec by (auto split: sum.splits if_splits option.splits)
  show "d' = d1 \<and> (rs_code r = 409 \<or> rs_code r = 404)" if "x = Inr None"
    using eq that d' sent(2) by (auto split: sum.splits if_splits option.splits)
qed

lemma expect_200_cases:
  assumes "expect_200 (http_do lib c (serve_call lib' h now up) net rq d) = (x, d')"
    and "serve_call lib' h now up rq d = Some (r, d1)"
  shows "d' = d \<or> d' = d1" and "x = Inr () \<Longrightarrow> d' = d1 \<and> rs_code r = 200"
proof -
  obtain z dz where Z: "http_do lib c (serve_call lib' h now up) net rq d = (z, dz)" by fastforce
  note sent = http_do_cases [OF Z assms(2)]
  note eq = assms(1) [unfolded expect_200_def Z]
  have d': "d' = dz" using eq by (auto split: sum.splits if_splits)
  then show "d' = d \<or> d' = d1" using sent(1) by simp
  show "d' = d1 \<and> rs_code r = 200" if "x = Inr ()"
    using eq that d' sent(2) by (auto split: sum.splits if_splits)
qed

lemmas codes = writeJSON_def writeError_def bad_id_def on_db_def path_id_FormatInt

text \<open>What the handlers' status codes say about the store operation behind them.\<close>

lemma StartShard_http_codes:
  assumes "StartShard_http now up1 up2 (FormatInt i) d = (r, d1)" and "int64_ok i"
  shows "d1 = d \<or> d1 = snd (StartShard now i d) \<or> d1 = run_call now (CallStartShardHalf False i) d"
    and "rs_code r = 200 \<Longrightarrow> rs_body r = B_Assignment a \<Longrightarrow> StartShard now i d = (Inr a, d1)"
    and "rs_code r = 409 \<or> rs_code r = 404 \<Longrightarrow>
      StartShard now i d \<in> {(Inl ErrNotQueued, d1), (Inl ErrNotFound, d1)}"
  using assms
  by (auto simp: StartShard_http_def start_half_def codes split: prod.splits sum.splits store_error.splits if_splits)

lemma TakeoverShard_http_codes:
  assumes "TakeoverShard_http now up1 up2 (FormatInt i) d = (r, d1)" and "int64_ok i"
  shows "d1 = d \<or> d1 = snd (TakeOverShard now i d) \<or> d1 = run_call now (CallStartShardHalf True i) d"
    and "rs_code r = 200 \<Longrightarrow> rs_body r = B_Assignment a \<Longrightarrow> TakeOverShard now i d = (Inr a, d1)"
    and "rs_code r = 409 \<or> rs_code r = 404 \<Longrightarrow>
      TakeOverShard now i d \<in> {(Inl ErrAlreadyDone, d1), (Inl ErrNotFound, d1)}"
  using assms
  by (auto simp: TakeoverShard_http_def start_half_def codes split: prod.splits sum.splits store_error.splits if_splits)

lemma CompleteShard_http_codes:
  assumes "CompleteShard_http now up (FormatInt i) (Inr body) d = (r, d1)" and "int64_ok i"
    and "outcome_text (cs_Status body)"
  shows "d1 = d \<or> d1 = snd (CompleteShard now i body d)"
    and "rs_code r = 200 \<Longrightarrow> CompleteShard now i body d = (Inr (), d1)"
  using assms
  by (auto simp: CompleteShard_http_def codes outcome_text_def
      split: prod.splits sum.splits store_error.splits if_splits)

lemma FailShard_http_codes:
  assumes "FailShard_http now up (FormatInt i) (Inr reason) d = (r, d1)" and "int64_ok i"
    and "reason \<noteq> []"
  shows "d1 = d \<or> d1 = snd (FailShard now i reason d)"
    and "rs_code r = 200 \<Longrightarrow> FailShard now i reason d = (Inr (), d1)"
  using assms
  by (auto simp: FailShard_http_def codes split: prod.splits sum.splits store_error.splits if_splits)

subsection \<open>The calls of the worker\<close>

text \<open>
  For each call: the state is untouched or the store operation has run, even when the worker
  sees an error; and what the worker is told has happened.
\<close>

lemma StartShard_rpc_facts:
  assumes "StartShard_rpc lib c (serve_call lib' h now up) net i d = (x, d')" and "int64_ok i"
  shows "d' = d \<or> d' = snd (StartShard now i d) \<or> d' = run_call now (CallStartShardHalf False i) d"
    and "x = Inr (Some a) \<Longrightarrow> StartShard now i d = (Inr a, d')"
    and "x = Inr None \<Longrightarrow> StartShard now i d \<in> {(Inl ErrNotQueued, d'), (Inl ErrNotFound, d')}"
proof -
  obtain r d1 where H: "StartShard_http now (fst up) (snd up) (FormatInt i) d = (r, d1)" by fastforce
  note rpc = claimShard_rpc_cases [OF assms(1) [unfolded StartShard_rpc_def] trans [OF serve_call_shard(1) arg_cong [OF H, of Some]]]
  note http = StartShard_http_codes [OF H assms(2)]
  show "d' = d \<or> d' = snd (StartShard now i d) \<or> d' = run_call now (CallStartShardHalf False i) d" using rpc(1) http(1) by auto
  show "x = Inr (Some a) \<Longrightarrow> StartShard now i d = (Inr a, d')" using rpc(2) http(2) by auto
  show "x = Inr None \<Longrightarrow> StartShard now i d \<in> {(Inl ErrNotQueued, d'), (Inl ErrNotFound, d')}"
    using rpc(3) http(3) by simp
qed

lemma TakeOverShard_rpc_facts:
  assumes "TakeOverShard_rpc lib c (serve_call lib' h now up) net i d = (x, d')" and "int64_ok i"
  shows "d' = d \<or> d' = snd (TakeOverShard now i d) \<or> d' = run_call now (CallStartShardHalf True i) d"
    and "x = Inr (Some a) \<Longrightarrow> TakeOverShard now i d = (Inr a, d')"
    and "x = Inr None \<Longrightarrow> TakeOverShard now i d \<in> {(Inl ErrAlreadyDone, d'), (Inl ErrNotFound, d')}"
proof -
  obtain r d1 where H: "TakeoverShard_http now (fst up) (snd up) (FormatInt i) d = (r, d1)" by fastforce
  note rpc = claimShard_rpc_cases [OF assms(1) [unfolded TakeOverShard_rpc_def] trans [OF serve_call_shard(2) arg_cong [OF H, of Some]]]
  note http = TakeoverShard_http_codes [OF H assms(2)]
  show "d' = d \<or> d' = snd (TakeOverShard now i d) \<or> d' = run_call now (CallStartShardHalf True i) d" using rpc(1) http(1) by auto
  show "x = Inr (Some a) \<Longrightarrow> TakeOverShard now i d = (Inr a, d')" using rpc(2) http(2) by auto
  show "x = Inr None \<Longrightarrow> TakeOverShard now i d \<in> {(Inl ErrAlreadyDone, d'), (Inl ErrNotFound, d')}"
    using rpc(3) http(3) by simp
qed

lemma CompleteShard_rpc_facts:
  assumes "CompleteShard_rpc lib c (serve_call lib' h now up) net i body d = (x, d')" and "int64_ok i"
    and "outcome_text (cs_Status body)"
  shows "d' = d \<or> d' = snd (CompleteShard now i body d)"
    and "x = Inr () \<Longrightarrow> CompleteShard now i body d = (Inr (), d')"
proof -
  obtain r d1 where H: "CompleteShard_http now (fst up) (FormatInt i) (Inr body) d = (r, d1)" by fastforce
  note rpc = expect_200_cases [OF assms(1) [unfolded CompleteShard_rpc_def postJSON_def] trans [OF serve_call_shard(3) arg_cong [OF H, of Some]]]
  note http = CompleteShard_http_codes [OF H assms(2,3)]
  show "d' = d \<or> d' = snd (CompleteShard now i body d)" using rpc(1) http(1) by auto
  show "x = Inr () \<Longrightarrow> CompleteShard now i body d = (Inr (), d')" using rpc(2) http(2) by auto
qed

lemma FailShard_rpc_facts:
  assumes "FailShard_rpc lib c (serve_call lib' h now up) net i reason d = (x, d')" and "int64_ok i"
    and "reason \<noteq> []"
  shows "d' = d \<or> d' = snd (FailShard now i reason d)"
    and "x = Inr () \<Longrightarrow> FailShard now i reason d = (Inr (), d')"
proof -
  obtain r d1 where H: "FailShard_http now (fst up) (FormatInt i) (Inr reason) d = (r, d1)" by fastforce
  note rpc = expect_200_cases [OF assms(1) [unfolded FailShard_rpc_def postJSON_def] trans [OF serve_call_shard(4) arg_cong [OF H, of Some]]]
  note http = FailShard_http_codes [OF H assms(2,3)]
  show "d' = d \<or> d' = snd (FailShard now i reason d)" using rpc(1) http(1) by auto
  show "x = Inr () \<Longrightarrow> FailShard now i reason d = (Inr (), d')" using rpc(2) http(2) by auto
qed

end
