(* ===== verification/Run_Stats.thy ===== *)
theory Run_Stats
  imports Histogram
begin

section \<open>Per-user tallies and their merge\<close>

text \<open>
  \<^verbatim>\<open>worker/internal/runner/stats.go\<close> and the \<^verbatim>\<open>Result\<close> of \<^verbatim>\<open>runner.go\<close>: the tally
  \<^verbatim>\<open>vuStats\<close> of one virtual user, \<^verbatim>\<open>record\<close> (here \<open>record_sample\<close>) and \<^verbatim>\<open>mergeStats\<close>.
  The field names carry the prefixes \<open>vu_\<close> and \<open>res_\<close>.

  The lemmas say what the counters stand for: recording a list of observations computes
  \<open>stats_of\<close> of the list, and merging the tallies of several users is the tally of all
  their observations together. The locale \<open>rounded_sums\<close> is the contract between the
  averages and the floating-point arithmetic underneath.
\<close>

record vuStats =
  vu_total :: int
  vu_success :: int
  vu_failed :: int
  vu_latencyCount :: int
  vu_sumLatencyMs :: float64
  vu_minLatencyMs :: float64
  vu_maxLatencyMs :: float64
  vu_buckets :: "int list"

text \<open>The zero value of the struct, which \<^verbatim>\<open>make([]vuStats, n)\<close> fills the slots with.\<close>

definition vu_zero :: vuStats where
  "vu_zero = \<lparr>vu_total = 0, vu_success = 0, vu_failed = 0, vu_latencyCount = 0,
     vu_sumLatencyMs = 0, vu_minLatencyMs = 0, vu_maxLatencyMs = 0,
     vu_buckets = replicate numLatencyBuckets 0\<rparr>"

definition record_sample :: "vuStats \<Rightarrow> float64 \<Rightarrow> bool \<Rightarrow> bool \<Rightarrow> vuStats" where
  "record_sample s latencyMs success gotResponse =
     (let s1 = s\<lparr>vu_total := add64 (vu_total s) 1\<rparr>;
          s2 = (if success then s1\<lparr>vu_success := add64 (vu_success s1) 1\<rparr>
                else s1\<lparr>vu_failed := add64 (vu_failed s1) 1\<rparr>)
      in if gotResponse then
           (let i = bucketIndex latencyMs;
                s3 = s2\<lparr>vu_sumLatencyMs := fl64 (vu_sumLatencyMs s2 + latencyMs),
                        vu_buckets := (vu_buckets s2)[i := add64 (vu_buckets s2 ! i) 1]\<rparr>;
                s4 = (if vu_latencyCount s3 = 0 \<or> latencyMs < vu_minLatencyMs s3
                      then s3\<lparr>vu_minLatencyMs := latencyMs\<rparr> else s3);
                s5 = (if vu_latencyCount s4 = 0 \<or> vu_maxLatencyMs s4 < latencyMs
                      then s4\<lparr>vu_maxLatencyMs := latencyMs\<rparr> else s4)
            in s5\<lparr>vu_latencyCount := add64 (vu_latencyCount s5) 1\<rparr>)
         else s2)"

record run_result =
  res_TotalRequests :: int
  res_SuccessfulRequests :: int
  res_FailedRequests :: int
  res_LatencyCount :: int
  res_AvgLatencyMs :: float64
  res_MinLatencyMs :: float64
  res_MaxLatencyMs :: float64
  res_P50LatencyMs :: float64
  res_P95LatencyMs :: float64
  res_P99LatencyMs :: float64
  res_LatencyBuckets :: "int list"

text \<open>One iteration of the merge loop over the running totals.\<close>

definition merge_step :: "vuStats \<Rightarrow> vuStats \<Rightarrow> vuStats" where
  "merge_step a vu =
     (let min' = (if 0 < vu_latencyCount vu \<and>
                     (vu_latencyCount a = 0 \<or> vu_minLatencyMs vu < vu_minLatencyMs a)
                  then vu_minLatencyMs vu else vu_minLatencyMs a);
          max' = (if 0 < vu_latencyCount vu \<and>
                     (vu_latencyCount a = 0 \<or> vu_maxLatencyMs a < vu_maxLatencyMs vu)
                  then vu_maxLatencyMs vu else vu_maxLatencyMs a)
      in \<lparr>vu_total = add64 (vu_total a) (vu_total vu),
          vu_success = add64 (vu_success a) (vu_success vu),
          vu_failed = add64 (vu_failed a) (vu_failed vu),
          vu_latencyCount = add64 (vu_latencyCount a) (vu_latencyCount vu),
          vu_sumLatencyMs = fl64 (vu_sumLatencyMs a + vu_sumLatencyMs vu),
          vu_minLatencyMs = min', vu_maxLatencyMs = max',
          vu_buckets = map2 add64 (vu_buckets a) (vu_buckets vu)\<rparr>)"

definition mergeStats :: "vuStats list \<Rightarrow> run_result" where
  "mergeStats all =
     (let a = foldl merge_step vu_zero all;
          avg = (if 0 < vu_latencyCount a
                 then fl64 (vu_sumLatencyMs a / fl64 (of_int (vu_latencyCount a))) else 0)
      in \<lparr>res_TotalRequests = vu_total a,
          res_SuccessfulRequests = vu_success a,
          res_FailedRequests = vu_failed a,
          res_LatencyCount = vu_latencyCount a,
          res_AvgLatencyMs = avg,
          res_MinLatencyMs = vu_minLatencyMs a,
          res_MaxLatencyMs = vu_maxLatencyMs a,
          res_P50LatencyMs = percentile (vu_buckets a) (fl64 (50 / 100)),
          res_P95LatencyMs = percentile (vu_buckets a) (fl64 (95 / 100)),
          res_P99LatencyMs = percentile (vu_buckets a) (fl64 (99 / 100)),
          res_LatencyBuckets = vu_buckets a\<rparr>)"

subsection \<open>Observations\<close>

text \<open>
  An observation is what one request yields: \<open>Answered\<close> with its latency and whether the
  status was below 400, or \<open>No_answer\<close>. \<open>stats_of\<close> is the tally as a function of the
  observations alone.
\<close>

datatype observation = Answered float64 bool | No_answer

fun latencies :: "observation list \<Rightarrow> float64 list" where
  "latencies [] = []"
| "latencies (Answered l ok # obs) = l # latencies obs"
| "latencies (No_answer # obs) = latencies obs"

fun successes :: "observation list \<Rightarrow> nat" where
  "successes [] = 0"
| "successes (Answered l ok # obs) = (if ok then 1 else 0) + successes obs"
| "successes (No_answer # obs) = successes obs"

fun record_obs :: "vuStats \<Rightarrow> observation \<Rightarrow> vuStats" where
  "record_obs s (Answered l ok) = record_sample s l ok True"
| "record_obs s No_answer = record_sample s 0 False False"

definition fl_sum :: "float64 list \<Rightarrow> float64" where
  "fl_sum xs = foldl (\<lambda>s x. fl64 (s + x)) 0 xs"

definition least :: "float64 list \<Rightarrow> float64" where
  "least xs = (if xs = [] then 0 else Min (set xs))"

definition greatest :: "float64 list \<Rightarrow> float64" where
  "greatest xs = (if xs = [] then 0 else Max (set xs))"

definition stats_of :: "observation list \<Rightarrow> vuStats" where
  "stats_of obs =
     \<lparr>vu_total = int (length obs), vu_success = int (successes obs),
      vu_failed = int (length obs) - int (successes obs),
      vu_latencyCount = int (length (latencies obs)),
      vu_sumLatencyMs = fl_sum (latencies obs),
      vu_minLatencyMs = least (latencies obs), vu_maxLatencyMs = greatest (latencies obs),
      vu_buckets = hist (latencies obs)\<rparr>"

lemma latencies_append [simp]: "latencies (xs @ ys) = latencies xs @ latencies ys"
  by (induction xs rule: latencies.induct) auto

lemma successes_append [simp]: "successes (xs @ ys) = successes xs + successes ys"
  by (induction xs rule: successes.induct) auto

lemma successes_le: "successes obs \<le> length obs"
  by (induction obs rule: successes.induct) auto

lemma latencies_le: "length (latencies obs) \<le> length obs"
  by (induction obs rule: latencies.induct) auto

lemma least_snoc:
  "least (xs @ [l]) = (if xs = [] \<or> l < least xs then l else least xs)"
proof (cases "xs = []")
  case False
  then have "Min (insert l (set xs)) = min l (Min (set xs))" by (intro Min_insert) auto
  then have "least (xs @ [l]) = min l (least xs)" using False by (simp add: least_def)
  then show ?thesis using False by (auto simp: min_def)
qed (simp add: least_def)

lemma greatest_snoc:
  "greatest (xs @ [l]) = (if xs = [] \<or> greatest xs < l then l else greatest xs)"
proof (cases "xs = []")
  case False
  then have "Max (insert l (set xs)) = max l (Max (set xs))" by (intro Max_insert) auto
  then have "greatest (xs @ [l]) = max l (greatest xs)" using False by (simp add: greatest_def)
  then show ?thesis using False by (auto simp: max_def)
qed (simp add: greatest_def)

lemma hist_snoc:
  "hist (xs @ [l]) = (hist xs)[bucketIndex l := hist xs ! bucketIndex l + 1]"
  by (rule nth_equalityI) (auto simp: hist_nth nth_list_update)

lemma hist_nth_le: "i < 13 \<Longrightarrow> hist xs ! i \<le> int (length xs)"
  by (simp add: hist_nth)

lemma hist_nth_nonneg: "i < 13 \<Longrightarrow> 0 \<le> hist xs ! i"
  by (simp add: hist_nth)

lemma add64_small: "0 \<le> a \<Longrightarrow> 0 \<le> b \<Longrightarrow> a + b < 2 ^ 63 \<Longrightarrow> add64 a b = a + b"
  by (simp add: add64_exact int64_ok_def)

lemma record_answered:
  "record_sample s l ok True =
     \<lparr>vu_total = add64 (vu_total s) 1,
      vu_success = (if ok then add64 (vu_success s) 1 else vu_success s),
      vu_failed = (if ok then vu_failed s else add64 (vu_failed s) 1),
      vu_latencyCount = add64 (vu_latencyCount s) 1,
      vu_sumLatencyMs = fl64 (vu_sumLatencyMs s + l),
      vu_minLatencyMs =
        (if vu_latencyCount s = 0 \<or> l < vu_minLatencyMs s then l else vu_minLatencyMs s),
      vu_maxLatencyMs =
        (if vu_latencyCount s = 0 \<or> vu_maxLatencyMs s < l then l else vu_maxLatencyMs s),
      vu_buckets =
        (vu_buckets s)[bucketIndex l := add64 (vu_buckets s ! bucketIndex l) 1]\<rparr>"
  by (simp add: record_sample_def Let_def)

lemma record_obs_stats_of:
  assumes "int (length obs) + 1 < 2 ^ 63"
  shows "record_obs (stats_of obs) ob = stats_of (obs @ [ob])"
proof -
  have t: "add64 (int (length obs)) 1 = int (length obs) + 1"
    "add64 (int (successes obs)) 1 = int (successes obs) + 1"
    "add64 (int (length obs) - int (successes obs)) 1 = int (length obs) - int (successes obs) + 1"
    "add64 (int (length (latencies obs))) 1 = int (length (latencies obs)) + 1"
    using assms successes_le [of obs] latencies_le [of obs] by (auto intro!: add64_small simp del: of_nat_Suc)
  have h: "add64 (hist (latencies obs) ! bucketIndex l) 1 = hist (latencies obs) ! bucketIndex l + 1" for l
    using assms latencies_le [of obs] hist_nth_le [of "bucketIndex l" "latencies obs"]
      bucketIndex_less [of l] hist_nonneg [OF nth_mem, of "bucketIndex l" "latencies obs"]
    by (intro add64_small) auto
  show ?thesis
  proof (cases ob)
    case (Answered l ok)
    then show ?thesis
      by (simp add: record_answered stats_of_def t h least_snoc greatest_snoc hist_snoc fl_sum_def)
  next
    case No_answer
    then show ?thesis by (simp add: stats_of_def record_sample_def Let_def t)
  qed
qed

lemma vu_zero_stats_of: "vu_zero = stats_of []"
  by (simp add: vu_zero_def stats_of_def hist_def fl_sum_def least_def greatest_def
      replicate_length_same [symmetric] map_replicate_const)

lemma record_all:
  assumes "int (length obs) < 2 ^ 63"
  shows "foldl record_obs vu_zero obs = stats_of obs"
  using assms
proof (induction obs rule: rev_induct)
  case (snoc ob obs)
  then show ?case by (simp add: record_obs_stats_of)
qed (simp add: vu_zero_stats_of)

subsection \<open>Merging tallies\<close>

lemma least_append:
  "least (xs @ ys) = (if ys \<noteq> [] \<and> (xs = [] \<or> least ys < least xs) then least ys else least xs)"
proof (cases "xs = [] \<or> ys = []")
  case False
  then have "least (xs @ ys) = min (least xs) (least ys)" by (simp add: least_def Min_Un)
  then show ?thesis using False by (auto simp: min_def)
qed (auto simp: least_def)

lemma greatest_append:
  "greatest (xs @ ys) =
     (if ys \<noteq> [] \<and> (xs = [] \<or> greatest xs < greatest ys) then greatest ys else greatest xs)"
proof (cases "xs = [] \<or> ys = []")
  case False
  then have "greatest (xs @ ys) = max (greatest xs) (greatest ys)"
    by (simp add: greatest_def Max_Un)
  then show ?thesis using False by (auto simp: max_def)
qed (auto simp: greatest_def)

lemma hist_append:
  assumes "int (length xs) + int (length ys) < 2 ^ 63"
  shows "map2 add64 (hist xs) (hist ys) = hist (xs @ ys)"
proof (rule nth_equalityI)
  fix i assume "i < length (map2 add64 (hist xs) (hist ys))"
  then have i: "i < 13" by simp
  have "add64 (hist xs ! i) (hist ys ! i) = hist xs ! i + hist ys ! i"
    using i assms hist_nth_le [OF i, of xs] hist_nth_le [OF i, of ys]
    by (intro add64_small) (simp_all add: hist_nth_nonneg)
  then show "map2 add64 (hist xs) (hist ys) ! i = hist (xs @ ys) ! i"
    using i by (simp add: hist_nth)
qed simp

lemma merge_step_stats_of:
  assumes "int (length obs) + int (length obs') < 2 ^ 63"
  shows "merge_step ((stats_of obs)\<lparr>vu_sumLatencyMs := s\<rparr>) (stats_of obs') =
    (stats_of (obs @ obs'))\<lparr>vu_sumLatencyMs := fl64 (s + fl_sum (latencies obs'))\<rparr>"
proof -
  note le = successes_le [of obs] successes_le [of obs'] latencies_le [of obs] latencies_le [of obs']
  have t: "add64 (int (length obs)) (int (length obs')) = int (length obs) + int (length obs')"
    "add64 (int (successes obs)) (int (successes obs')) = int (successes obs) + int (successes obs')"
    "add64 (int (length obs) - int (successes obs)) (int (length obs') - int (successes obs'))
       = int (length obs) - int (successes obs) + (int (length obs') - int (successes obs'))"
    "add64 (int (length (latencies obs))) (int (length (latencies obs')))
       = int (length (latencies obs)) + int (length (latencies obs'))"
    using assms le by (auto intro!: add64_small)
  have h: "map2 add64 (hist (latencies obs)) (hist (latencies obs'))
      = hist (latencies obs @ latencies obs')"
    using assms le by (intro hist_append) linarith
  show ?thesis
    by (simp add: merge_step_def stats_of_def Let_def t h least_append greatest_append)
qed

lemma merge_all:
  assumes "int (length (concat obss)) < 2 ^ 63"
  shows "foldl merge_step vu_zero (map stats_of obss) =
    (stats_of (concat obss))\<lparr>vu_sumLatencyMs := fl_sum (map (fl_sum \<circ> latencies) obss)\<rparr>"
  using assms
proof (induction obss rule: rev_induct)
  case Nil
  then show ?case by (simp add: vu_zero_stats_of) (simp add: stats_of_def fl_sum_def)
next
  case (snoc obs obss)
  then show ?case by (simp add: merge_step_stats_of) (simp add: fl_sum_def)
qed

lemma mergeStats_stats_of:
  assumes "int (length (concat obss)) < 2 ^ 63"
  defines "ls \<equiv> latencies (concat obss)"
  shows "mergeStats (map stats_of obss) =
    \<lparr>res_TotalRequests = int (length (concat obss)),
     res_SuccessfulRequests = int (successes (concat obss)),
     res_FailedRequests = int (length (concat obss)) - int (successes (concat obss)),
     res_LatencyCount = int (length ls),
     res_AvgLatencyMs = (if ls = [] then 0
       else fl64 (fl_sum (map (fl_sum \<circ> latencies) obss) / fl64 (of_int (int (length ls))))),
     res_MinLatencyMs = least ls, res_MaxLatencyMs = greatest ls,
     res_P50LatencyMs = percentile (hist ls) (fl64 (50 / 100)),
     res_P95LatencyMs = percentile (hist ls) (fl64 (95 / 100)),
     res_P99LatencyMs = percentile (hist ls) (fl64 (99 / 100)),
     res_LatencyBuckets = hist ls\<rparr>"
  unfolding mergeStats_def Let_def merge_all [OF assms(1)]
  by (simp add: stats_of_def ls_def)

subsection \<open>Averages under rounding\<close>

text \<open>
  The contract of the rounding function that the averages rely on: a relative error of at
  most \<open>u\<close> on non-negative numbers. It is interpreted on \<open>fl64\<close>.
\<close>

locale rounded_sums =
  fixes fl :: "rat \<Rightarrow> rat" and u :: rat
  assumes u_bounds: "0 \<le> u" "u \<le> 1"
    and fl_lower: "0 \<le> x \<Longrightarrow> x * (1 - u) \<le> fl x"
    and fl_upper: "0 \<le> x \<Longrightarrow> fl x \<le> x * (1 + u)"
begin

lemma fl_pos: "0 \<le> x \<Longrightarrow> 0 \<le> fl x"
proof -
  assume x: "0 \<le> x"
  then have "0 \<le> x * (1 - u)" using u_bounds by simp
  with fl_lower [OF x] show ?thesis by linarith
qed

lemma one_minus_u: "0 \<le> 1 - u" "0 \<le> (1 - u) ^ n" "(1 - u) ^ n \<le> 1"
  using u_bounds by (auto intro: power_le_one)

lemma one_plus_u: "0 \<le> 1 + u" "1 \<le> (1 + u) ^ n"
  using u_bounds by auto

lemma fold_upper:
  assumes "0 \<le> s" "\<forall>x \<in> set xs. 0 \<le> x"
  shows "0 \<le> foldl (\<lambda>s x. fl (s + x)) s xs \<and>
    foldl (\<lambda>s x. fl (s + x)) s xs \<le> (s + sum_list xs) * (1 + u) ^ length xs"
  using assms
proof (induction xs arbitrary: s)
  case (Cons x xs)
  have sx: "0 \<le> s + x" and tail: "0 \<le> sum_list xs"
    using Cons.prems by (auto intro: sum_list_nonneg)
  have IH: "0 \<le> foldl (\<lambda>s x. fl (s + x)) (fl (s + x)) xs \<and>
      foldl (\<lambda>s x. fl (s + x)) (fl (s + x)) xs
        \<le> (fl (s + x) + sum_list xs) * (1 + u) ^ length xs"
    using Cons.prems sx by (intro Cons.IH) (auto intro: fl_pos)
  have "fl (s + x) + sum_list xs \<le> (s + x + sum_list xs) * (1 + u)"
    using fl_upper [OF sx] mult_nonneg_nonneg [OF u_bounds(1) tail]
    by (simp add: algebra_simps)
  then have "(fl (s + x) + sum_list xs) * (1 + u) ^ length xs
      \<le> (s + x + sum_list xs) * (1 + u) * (1 + u) ^ length xs"
    using one_plus_u by (intro mult_right_mono) auto
  with IH show ?case by (simp add: ac_simps)
qed simp

lemma fold_lower:
  assumes "0 \<le> s" "\<forall>x \<in> set xs. 0 \<le> x"
  shows "(s + sum_list xs) * (1 - u) ^ length xs \<le> foldl (\<lambda>s x. fl (s + x)) s xs"
  using assms
proof (induction xs arbitrary: s)
  case (Cons x xs)
  have sx: "0 \<le> s + x" and tail: "0 \<le> sum_list xs"
    using Cons.prems by (auto intro: sum_list_nonneg)
  have IH: "(fl (s + x) + sum_list xs) * (1 - u) ^ length xs
      \<le> foldl (\<lambda>s x. fl (s + x)) (fl (s + x)) xs"
    using Cons.prems sx by (intro Cons.IH) (auto intro: fl_pos)
  have "(s + x + sum_list xs) * (1 - u) \<le> fl (s + x) + sum_list xs"
    using fl_lower [OF sx] mult_nonneg_nonneg [OF u_bounds(1) tail]
    by (simp add: algebra_simps)
  then have "(s + x + sum_list xs) * (1 - u) * (1 - u) ^ length xs
      \<le> (fl (s + x) + sum_list xs) * (1 - u) ^ length xs"
    using one_minus_u by (intro mult_right_mono) auto
  with IH show ?case by (simp add: ac_simps)
qed simp

text \<open>A rounded sum of terms that are each within some roundings of the exact ones.\<close>

lemma sum_of_close:
  fixes w g :: "'a \<Rightarrow> rat"
  assumes each: "\<And>a. a \<in> set as \<Longrightarrow> 0 \<le> w a \<and> g a * (1 - u) ^ n \<le> w a \<and> w a \<le> g a * (1 + u) ^ n"
  shows "(\<Sum>a\<leftarrow>as. g a) * (1 - u) ^ (n + length as) \<le> foldl (\<lambda>s x. fl (s + x)) 0 (map w as)"
    and "foldl (\<lambda>s x. fl (s + x)) 0 (map w as) \<le> (\<Sum>a\<leftarrow>as. g a) * (1 + u) ^ (n + length as)"
proof -
  have lo: "(\<Sum>a\<leftarrow>as. g a) * (1 - u) ^ n \<le> sum_list (map w as)"
    using each by (simp flip: sum_list_mult_const) (auto intro: sum_list_mono)
  have hi: "sum_list (map w as) \<le> (\<Sum>a\<leftarrow>as. g a) * (1 + u) ^ n"
    using each by (simp flip: sum_list_mult_const) (auto intro: sum_list_mono)
  have "(\<Sum>a\<leftarrow>as. g a) * (1 - u) ^ n * (1 - u) ^ length as \<le> sum_list (map w as) * (1 - u) ^ length as"
    using lo one_minus_u by (intro mult_right_mono) auto
  also have "\<dots> \<le> foldl (\<lambda>s x. fl (s + x)) 0 (map w as)"
    using fold_lower [of 0 "map w as"] each by auto
  finally show "(\<Sum>a\<leftarrow>as. g a) * (1 - u) ^ (n + length as) \<le> foldl (\<lambda>s x. fl (s + x)) 0 (map w as)"
    by (simp add: power_add mult.assoc)
  have "foldl (\<lambda>s x. fl (s + x)) 0 (map w as) \<le> sum_list (map w as) * (1 + u) ^ length as"
    using fold_upper [of 0 "map w as"] each by auto
  also have "\<dots> \<le> (\<Sum>a\<leftarrow>as. g a) * (1 + u) ^ n * (1 + u) ^ length as"
    using hi one_plus_u by (intro mult_right_mono) auto
  finally show "foldl (\<lambda>s x. fl (s + x)) 0 (map w as) \<le> (\<Sum>a\<leftarrow>as. g a) * (1 + u) ^ (n + length as)"
    by (simp add: power_add mult.assoc)
qed

text \<open>A sum of sums: one rounded sum per list, then a rounded sum of the results.\<close>

lemma sum_of_sums:
  fixes f :: "'a \<Rightarrow> rat list"
  defines "inner \<equiv> \<lambda>a. foldl (\<lambda>s x. fl (s + x)) 0 (f a)"
  assumes nn: "\<forall>a \<in> set as. \<forall>x \<in> set (f a). 0 \<le> x"
    and n: "\<forall>a \<in> set as. length (f a) \<le> n"
  shows "(\<Sum>a\<leftarrow>as. sum_list (f a)) * (1 - u) ^ (n + length as)
      \<le> foldl (\<lambda>s x. fl (s + x)) 0 (map inner as)"
    and "foldl (\<lambda>s x. fl (s + x)) 0 (map inner as)
      \<le> (\<Sum>a\<leftarrow>as. sum_list (f a)) * (1 + u) ^ (n + length as)"
proof -
  have each: "0 \<le> inner a \<and> sum_list (f a) * (1 - u) ^ n \<le> inner a \<and>
      inner a \<le> sum_list (f a) * (1 + u) ^ n" if a: "a \<in> set as" for a
  proof -
    have s: "0 \<le> sum_list (f a)" using nn a by (auto intro: sum_list_nonneg)
    have "(1 + u) ^ length (f a) \<le> (1 + u) ^ n"
      using n a u_bounds by (intro power_increasing) auto
    moreover have "(1 - u) ^ n \<le> (1 - u) ^ length (f a)"
      using n a u_bounds by (intro power_decreasing) auto
    ultimately show ?thesis
      using fold_upper [of 0 "f a"] fold_lower [of 0 "f a"] nn a s
        mult_left_mono [OF _ s, of "(1 + u) ^ length (f a)" "(1 + u) ^ n"]
        mult_left_mono [OF _ s, of "(1 - u) ^ n" "(1 - u) ^ length (f a)"]
      by (auto simp: inner_def)
  qed
  from sum_of_close [of as inner "\<lambda>a. sum_list (f a)" n, OF each]
  show "(\<Sum>a\<leftarrow>as. sum_list (f a)) * (1 - u) ^ (n + length as)
      \<le> foldl (\<lambda>s x. fl (s + x)) 0 (map inner as)"
    and "foldl (\<lambda>s x. fl (s + x)) 0 (map inner as)
      \<le> (\<Sum>a\<leftarrow>as. sum_list (f a)) * (1 + u) ^ (n + length as)" by simp_all
qed

end

interpretation fl64_sums: rounded_sums fl64 "pow2 (- 53)"
proof unfold_locales
  show "0 \<le> pow2 (- 53)" "pow2 (- 53) \<le> 1" by (simp_all add: pow2_def power_int_minus)
qed (use fl64_rel in blast)+

end
