(* ===== verification/Latency_Properties.thy ===== *)
theory Latency_Properties
  imports Run_Stats
begin

section \<open>What the latency numbers mean\<close>

text \<open>
  The theorems about measuring: every number of a worker's result is a function of the
  observations alone, however they were spread over virtual users, and the percentiles are
  nearest-rank percentiles up to the width of a bucket.
\<close>

text \<open>The bucket boundary reported for the \<open>c\<close>-th percentile of the samples \<open>ls\<close>.\<close>

definition nearest_rank_ms :: "int \<Rightarrow> float64 list \<Rightarrow> float64" where
  "nearest_rank_ms c ls =
     (if ls = [] then 0
      else latencyBoundariesMs !
        min (bucketIndex (sort ls ! (nat ((c * int (length ls) + 99) div 100) - 1))) 11)"

lemma percentile_hist_rank:
  assumes n: "int (length ls) \<le> 2 ^ 45" and c: "c \<in> {50, 95, 99}"
  shows "percentile (hist ls) (fl64 (of_int c / 100)) = nearest_rank_ms c ls"
proof (cases "ls = []")
  case True
  then have "sum_list (hist ls) = 0" by (simp add: sum_hist)
  then show ?thesis
    using True hist_counts_ok [of ls] by (simp add: percentile_def counts_ok_sum nearest_rank_ms_def)
next
  case False
  let ?n = "int (length ls)"
  have pos: "0 < ?n" using False by simp
  have rank: "ceil_rank (fl64 (of_int c / 100)) ?n = (c * ?n + 99) div 100"
    using c ceil_rank_50 [OF pos n] ceil_rank_95 [OF pos n] ceil_rank_99 [OF pos n] by auto
  moreover have "1 \<le> (c * ?n + 99) div 100"
  proof -
    have "0 < c * ?n" using c pos by (intro mult_pos_pos) auto
    then have "100 \<le> c * ?n + 99" by linarith
    from zdiv_mono1 [OF this, of 100] show ?thesis by simp
  qed
  moreover have "(c * ?n + 99) div 100 \<le> ?n" using c pos by auto
  ultimately show ?thesis
    using False n percentile_hist [of ls "fl64 (of_int c / 100)"]
    by (simp add: nearest_rank_ms_def)
qed

lemma percentiles_hist:
  assumes "int (length ls) \<le> 2 ^ 45"
  shows "percentile (hist ls) (fl64 (50 / 100)) = nearest_rank_ms 50 ls"
    and "percentile (hist ls) (fl64 (95 / 100)) = nearest_rank_ms 95 ls"
    and "percentile (hist ls) (fl64 (99 / 100)) = nearest_rank_ms 99 ls"
  using percentile_hist_rank [OF assms, of 50] percentile_hist_rank [OF assms, of 95]
    percentile_hist_rank [OF assms, of 99] by simp_all

lemma record_all_map:
  assumes "int (length (concat obss)) < 2 ^ 63"
  shows "map (foldl record_obs vu_zero) obss = map stats_of obss"
proof (rule map_cong [OF refl])
  fix obs assume "obs \<in> set obss"
  then have "length obs \<le> length (concat obss)"
    by (induction obss) auto
  then show "foldl record_obs vu_zero obs = stats_of obs" using assms by (intro record_all) simp
qed

text \<open>
  C15: a worker's result depends only on what its requests observed. Whatever virtual
  user made which request, the counts are the numbers of observations, of successes and of
  failures, min and max are the extreme latencies, the histogram counts every answered
  request in its bucket, and p50, p95, p99 are nearest-rank percentiles over all the samples.
\<close>

theorem mergeStats_result:
  assumes "int (length (concat obss)) \<le> 2 ^ 45"
  defines "all \<equiv> concat obss" and "res \<equiv> mergeStats (map (foldl record_obs vu_zero) obss)"
  shows "res_TotalRequests res = int (length all) \<and>
    res_SuccessfulRequests res = int (successes all) \<and>
    res_FailedRequests res = int (length all) - int (successes all) \<and>
    res_LatencyCount res = int (length (latencies all)) \<and>
    res_MinLatencyMs res = least (latencies all) \<and>
    res_MaxLatencyMs res = greatest (latencies all) \<and>
    res_P50LatencyMs res = nearest_rank_ms 50 (latencies all) \<and>
    res_P95LatencyMs res = nearest_rank_ms 95 (latencies all) \<and>
    res_P99LatencyMs res = nearest_rank_ms 99 (latencies all) \<and>
    res_LatencyBuckets res = hist (latencies all)"
proof -
  have "int (length (concat obss)) < 2 ^ 63" using assms(1) by simp
  note eq = mergeStats_stats_of [OF this, folded record_all_map [OF this], folded res_def all_def]
  have "int (length (latencies all)) \<le> 2 ^ 45"
    using assms(1) latencies_le [of all] by (simp add: all_def)
  from eq percentiles_hist [OF this] show ?thesis by simp
qed

definition sample_obs :: "observation list list" where
  "sample_obs = [[Answered 3 True, No_answer], [], [Answered 40 True, Answered 700 False]]"

theorem mergeStats_result_witness:
  "res_TotalRequests (mergeStats (map (foldl record_obs vu_zero) sample_obs)) = 4 \<and>
   res_P50LatencyMs (mergeStats (map (foldl record_obs vu_zero) sample_obs)) = 50 \<and>
   res_P99LatencyMs (mergeStats (map (foldl record_obs vu_zero) sample_obs)) = 1000"
proof -
  have "int (length (concat sample_obs)) \<le> 2 ^ 45" by (simp add: sample_obs_def)
  from mergeStats_result [OF this] show ?thesis
    by (simp add: sample_obs_def nearest_rank_ms_def bucketIndex_eq latencyBoundariesMs_def)
qed

text \<open>The average times the number of samples is the exact sum, up to rounding.\<close>

lemma average_times_count:
  fixes obss :: "observation list list"
  assumes small: "int (length (concat obss)) \<le> 2 ^ 45"
    and nonneg: "\<forall>l \<in> set (latencies (concat obss)). 0 \<le> l"
    and n: "\<forall>obs \<in> set obss. length (latencies obs) \<le> n"
  defines "S \<equiv> sum_list (latencies (concat obss))" and "m \<equiv> of_nat (length (latencies (concat obss)))"
    and "k \<equiv> n + length obss + 1"
    and "avg \<equiv> res_AvgLatencyMs (mergeStats (map (foldl record_obs vu_zero) obss))"
  shows "0 \<le> avg" and "S * (1 - pow2 (- 53)) ^ k \<le> avg * m" and "avg * m \<le> S * (1 + pow2 (- 53)) ^ k"
proof -
  let ?u = "pow2 (- 53)" and ?ls = "latencies (concat obss)"
  let ?S = "fl_sum (map (fl_sum \<circ> latencies) obss)"
  have lt: "int (length (concat obss)) < 2 ^ 63" using small by simp
  have sum: "(\<Sum>obs\<leftarrow>obss. sum_list (latencies obs)) = S" unfolding S_def by (induction obss) simp_all
  have each: "\<forall>obs \<in> set obss. \<forall>x \<in> set (latencies obs). 0 \<le> x"
    using nonneg by (induction obss) auto
  have S: "S * (1 - ?u) ^ (n + length obss) \<le> ?S" "?S \<le> S * (1 + ?u) ^ (n + length obss)"
    using fl64_sums.sum_of_sums [of obss latencies n, OF each n]
    by (simp_all add: sum fl_sum_def comp_def)
  have m: "fl64 m = m" unfolding m_def
    using fl64_int [of "int (length ?ls)"] small latencies_le [of "concat obss"] by simp
  have avg: "avg = (if ?ls = [] then 0 else fl64 (?S / m))"
    using mergeStats_stats_of [OF lt] m by (simp add: avg_def record_all_map [OF lt] m_def)
  have nn: "0 \<le> S" unfolding S_def using nonneg by (auto intro: sum_list_nonneg)
  have u: "0 \<le> (1 - ?u)" "0 \<le> (1 + ?u)" using fl64_sums.u_bounds by auto
  have "0 \<le> avg \<and> S * (1 - ?u) ^ k \<le> avg * m \<and> avg * m \<le> S * (1 + ?u) ^ k"
  proof (cases "?ls = []")
    case True
    then show ?thesis by (simp add: avg S_def m_def)
  next
    case False
    then have pos: "0 < m" by (simp add: m_def)
    have "0 \<le> S * (1 - ?u) ^ (n + length obss)" using nn u by simp
    then have q: "0 \<le> ?S / m" using S(1) pos by (intro divide_nonneg_pos) auto
    have rel: "?S / m * (1 - ?u) \<le> avg" "avg \<le> ?S / m * (1 + ?u)"
      using fl64_rel [OF q] avg False by simp_all
    have "S * (1 - ?u) ^ k \<le> ?S * (1 - ?u)"
      using mult_right_mono [OF S(1) u(1)] by (simp add: k_def ac_simps)
    moreover have "?S * (1 - ?u) \<le> avg * m" using mult_right_mono [OF rel(1), of m] pos by simp
    moreover have "avg * m \<le> ?S * (1 + ?u)" using mult_right_mono [OF rel(2), of m] pos by simp
    moreover have "?S * (1 + ?u) \<le> S * (1 + ?u) ^ k"
      using mult_right_mono [OF S(2) u(2)] by (simp add: k_def ac_simps)
    moreover have "0 \<le> avg"
      using rel(1) mult_nonneg_nonneg [OF q u(1)] by linarith
    ultimately show ?thesis by linarith
  qed
  then show "0 \<le> avg" and "S * (1 - ?u) ^ k \<le> avg * m" and "avg * m \<le> S * (1 + ?u) ^ k" by simp_all
qed

text \<open>
  The average survives floating point. The reported average of \<open>k\<close> virtual users that
  each answered at most \<open>n\<close> requests is within the factor \<open>(1 \<plusminus> 2\<^sup>-\<^sup>5\<^sup>3)\<close> to the power
  \<open>n + k + 1\<close> of the exact mean of all the latencies.
\<close>

lemma average_accuracy:
  fixes obss :: "observation list list"
  assumes small: "int (length (concat obss)) \<le> 2 ^ 45"
    and nonneg: "\<forall>l \<in> set (latencies (concat obss)). 0 \<le> l"
    and some: "latencies (concat obss) \<noteq> []"
    and n: "\<forall>obs \<in> set obss. length (latencies obs) \<le> n"
  defines "mean \<equiv> sum_list (latencies (concat obss)) / of_nat (length (latencies (concat obss)))"
    and "k \<equiv> n + length obss + 1"
    and "avg \<equiv> res_AvgLatencyMs (mergeStats (map (foldl record_obs vu_zero) obss))"
  shows "mean * (1 - pow2 (- 53)) ^ k \<le> avg \<and> avg \<le> mean * (1 + pow2 (- 53)) ^ k"
proof -
  have pos: "0 < (of_nat (length (latencies (concat obss))) :: rat)" using some by simp
  from average_times_count(2,3) [OF small nonneg n] show ?thesis
    using pos by (simp add: mean_def k_def avg_def pos_divide_le_eq pos_le_divide_eq
        times_divide_eq_left)
qed

text \<open>
  C26: the two modules measure alike. The backend's merged histogram of the shards' samples
  is the histogram of all the samples, in whatever order the shards are read, and the
  percentile the backend computes from it is the one the runner would have computed.
\<close>

theorem merged_percentiles:
  assumes "int (length (concat xss)) < 2 ^ 63" and "mset bss = mset (map hist xss)"
  shows "mergeBuckets bss = hist (concat xss) \<and>
    store_percentile (mergeBuckets bss) p = percentile (hist (concat xss)) p"
  using mergeBuckets_hist [OF assms(1)] mergeBuckets_perm [OF assms(2)] by (simp add: percentiles_agree)

theorem merged_percentiles_witness:
  "mergeBuckets [hist [700], hist [3, 40]] = hist [3, 40, 700] \<and>
   store_percentile (mergeBuckets [hist [700], hist [3, 40]]) (1 / 2) = percentile (hist [3, 40, 700]) (1 / 2)"
proof -
  have "int (length (concat [[3, 40], [700 :: float64]])) < 2 ^ 63"
    "mset [hist [700], hist [3, 40]] = mset (map hist [[3, 40], [700]])" by simp_all
  from merged_percentiles [OF this, of "1 / 2"] show ?thesis
    unfolding concat.simps append.simps .
qed

text \<open>
  A latency is counted in the bucket it belongs to: above the boundary before it, at
  or below its own; the last bucket has no upper boundary.
\<close>

lemma bucketIndex_spec:
  "bucketIndex x \<le> 12 \<and>
   (bucketIndex x = 12 \<or> x \<le> latencyBoundariesMs ! bucketIndex x) \<and>
   (bucketIndex x = 0 \<or> latencyBoundariesMs ! (bucketIndex x - 1) < x)"
  using bucketIndex_less [of x] bucketIndex_upper [of x] bucketIndex_lower [of "bucketIndex x - 1" x]
  by (cases "bucketIndex x = 0"; cases "bucketIndex x < 12") (simp_all add: less_Suc_eq)

end
