(* ===== verification/Load_Runner.thy ===== *)
theory Load_Runner
  imports Latency_Properties Api_Validation
begin

section \<open>The load engine\<close>

text \<open>
  \<^verbatim>\<open>worker/internal/runner/runner.go\<close> and the counters of \<^verbatim>\<open>metrics.go\<close>. Time is nanoseconds on
  the monotonic clock. Each virtual user is a loop over time; what the network does to its
  requests is a script of \<open>attempt\<close>s, one per iteration: how long building the request takes,
  what \<^verbatim>\<open>client.Do\<close> meets (a response whose headers and body take given times, or a
  transport error after a given time; redirects included), how long after the end of the
  exchange the goroutine goes on, and how long after the end of the pause. A context that ends
  sooner cuts the exchange and the pause off. The metrics are the sequence of increments and observations the loop
  makes.

  The loop returns \<open>None\<close> only when the script is too short for it; \<open>vu_returns\<close> says how
  long a script is enough. The lemmas say what a virtual user's tally stands for, when the
  loop ends and what latencies it can record.
\<close>

subsection \<open>Configuration, requests, network\<close>

record config =
  cfg_TargetURL :: string
  cfg_Method :: string
  cfg_VirtualUsers :: int
  cfg_Duration :: int
  cfg_RequestTimeout :: int
  cfg_Headers :: "(string \<times> string) list"
  cfg_Body :: string
  cfg_ThinkTime :: int

record sent_request =
  sq_method :: string
  sq_url :: string
  sq_headers :: "(string \<times> string) list"
  sq_body :: "string option"

datatype exchange = Reply int nat nat | Transport_error nat

record attempt =
  at_build :: nat
  at_exchange :: exchange
  at_late :: nat
  at_wake :: nat

text \<open>An iteration of the loop: when it begins, when \<^verbatim>\<open>client.Do\<close> is called, and what goes out.\<close>

record issued =
  is_begin :: int
  is_start :: int
  is_sent :: "sent_request option"

datatype metric =
    Requests_total string string
  | Request_duration string float64
  | Active_inc
  | Active_dec

text \<open>\<^verbatim>\<open>http.NewRequestWithContext\<close>: an empty method is GET, another must be a token, the URL must parse.\<close>

definition token_char :: "char \<Rightarrow> bool" where
  "token_char c \<longleftrightarrow> is_alpha c \<or> is_digit c \<or> c \<in> set ''!#$%&*+-.^_|~'' \<or>
     (of_char c :: nat) = 39 \<or> (of_char c :: nat) = 96"

definition NewRequest :: "go_lib \<Rightarrow> config \<Rightarrow> sent_request option" where
  "NewRequest lib cfg =
     (let method = (if cfg_Method cfg = [] then ''GET'' else cfg_Method cfg)
      in if list_all token_char method \<and> url_parse lib (cfg_TargetURL cfg) \<noteq> None
         then Some \<lparr>sq_method = method, sq_url = cfg_TargetURL cfg, sq_headers = [],
                    sq_body = (if cfg_Body cfg \<noteq> [] then Some (cfg_Body cfg) else None)\<rparr>
         else None)"

text \<open>\<^verbatim>\<open>Header.Set\<close>: the key in canonical form (unless it is no token), the last value wins.\<close>

fun canonical_chars :: "bool \<Rightarrow> string \<Rightarrow> string" where
  "canonical_chars upper [] = []"
| "canonical_chars upper (c # cs) =
     (if upper then ascii_upper c else ascii_lower c) # canonical_chars (c = CHR ''-'') cs"

definition CanonicalHeaderKey :: "string \<Rightarrow> string" where
  "CanonicalHeaderKey k = (if list_all token_char k then canonical_chars True k else k)"

definition header_set :: "string \<Rightarrow> string \<Rightarrow> (string \<times> string) list \<Rightarrow> (string \<times> string) list" where
  "header_set k v hs = filter (\<lambda>(k', _). k' \<noteq> CanonicalHeaderKey k) hs @ [(CanonicalHeaderKey k, v)]"

definition set_headers :: "config \<Rightarrow> sent_request \<Rightarrow> sent_request" where
  "set_headers cfg req =
     req\<lparr>sq_headers := foldl (\<lambda>hs (k, v). header_set k v hs) (sq_headers req) (cfg_Headers cfg)\<rparr>"

text \<open>
  \<^verbatim>\<open>client.Do\<close> under a context that ends at \<open>cutoff\<close>: an error with the time it comes back at,
  or the status with the times the headers are in and the body would be.
\<close>

definition client_Do :: "int \<Rightarrow> int \<Rightarrow> exchange \<Rightarrow> int + int \<times> int \<times> int" where
  "client_Do cutoff start e =
     (case e of
        Transport_error after \<Rightarrow> Inl (max start (min (start + int after) cutoff))
      | Reply status header body \<Rightarrow>
          if start + int header < cutoff
          then Inr (status, start + int header, start + int header + int body)
          else Inl (max start cutoff))"

subsection \<open>One request\<close>

definition statusClass :: "int \<Rightarrow> string" where
  "statusClass code = FormatInt (code sdiv 100) @ ''xx''"

definition elapsed_ms :: "int \<Rightarrow> float64" where
  "elapsed_ms ns = fl64 (fl64 (of_int ns) / 1000000)"

text \<open>
  The result is the time the call returns, the iteration, the new tally, and the metrics.
  Draining the body stops when the context ends too. With a context that has ended nothing
  goes out.
\<close>

definition doRequest ::
  "go_lib \<Rightarrow> config \<Rightarrow> int \<Rightarrow> int \<Rightarrow> attempt \<Rightarrow> vuStats
    \<Rightarrow> int \<times> issued \<times> vuStats \<times> metric list" where
  "doRequest lib cfg stop now x s =
     (let cutoff = min (now + cfg_RequestTimeout cfg) stop;
          start = now + int (at_build x)
      in case NewRequest lib cfg of
           None \<Rightarrow>
             (start, \<lparr>is_begin = now, is_start = start, is_sent = None\<rparr>, record_sample s 0 False False,
              [Requests_total ''error'' (cfg_Method cfg)])
         | Some req0 \<Rightarrow>
             let req = set_headers cfg req0;
                 iss = \<lparr>is_begin = now, is_start = start, is_sent = (if start < cutoff then Some req else None)\<rparr>
             in (case client_Do cutoff start (at_exchange x) of
                  Inl t \<Rightarrow>
                    (t + int (at_late x), iss, record_sample s 0 False False,
                     [Requests_total ''error'' (cfg_Method cfg)])
                | Inr (status, header, body) \<Rightarrow>
                    let t = max header (min body cutoff) + int (at_late x);
                        elapsedMs = elapsed_ms (t - start);
                        success = (status < 400)
                    in (t, iss, record_sample s elapsedMs success True,
                        [Requests_total (statusClass status) (cfg_Method cfg),
                         Request_duration (cfg_Method cfg) (fl64 (elapsedMs / 1000))])))"

subsection \<open>A virtual user\<close>

fun runVirtualUser ::
  "go_lib \<Rightarrow> config \<Rightarrow> int \<Rightarrow> int \<Rightarrow> attempt list \<Rightarrow> vuStats
    \<Rightarrow> (int \<times> issued list \<times> vuStats \<times> metric list) option" where
  "runVirtualUser lib cfg stop now script s =
     (if stop \<le> now then Some (now, [], s, [])
      else case script of
        [] \<Rightarrow> None
      | x # rest \<Rightarrow>
          (case doRequest lib cfg stop now x s of
             (t, req, s', ms) \<Rightarrow>
               (if 0 < cfg_ThinkTime cfg
                then (if stop < t + cfg_ThinkTime cfg then Some (max t stop + int (at_wake x), [req], s', ms)
                      else map_option (\<lambda>(e, reqs, s'', ms'). (e, req # reqs, s'', ms @ ms'))
                             (runVirtualUser lib cfg stop (t + cfg_ThinkTime cfg + int (at_wake x)) rest s'))
                else map_option (\<lambda>(e, reqs, s'', ms'). (e, req # reqs, s'', ms @ ms'))
                       (runVirtualUser lib cfg stop t rest s'))))"

declare runVirtualUser.simps [simp del]

text \<open>
  \<open>Run\<close> starts all virtual users at once and waits for all of them. \<open>cancel\<close> is when the
  parent context is cancelled, if it is. The result is an error text, or the aggregated
  result, when the last user ended, the iterations and the metrics of each user.
\<close>

definition Run ::
  "go_lib \<Rightarrow> config \<Rightarrow> int \<Rightarrow> int option \<Rightarrow> (nat \<Rightarrow> attempt list)
    \<Rightarrow> (string + run_result \<times> int \<times> issued list list \<times> metric list list) option" where
  "Run lib cfg start cancel scripts =
     (if cfg_VirtualUsers cfg \<le> 0 then Some (Inl ''virtual users must be greater than 0'')
      else if cfg_TargetURL cfg = [] then Some (Inl ''target URL must not be empty'')
      else
        let stop = (case cancel of None \<Rightarrow> start + cfg_Duration cfg
                                 | Some c \<Rightarrow> min (start + cfg_Duration cfg) c)
        in case those (map (\<lambda>i. runVirtualUser lib cfg stop start (scripts i) vu_zero)
                           [0..<nat (cfg_VirtualUsers cfg)]) of
             None \<Rightarrow> None
           | Some vus \<Rightarrow>
               Some (Inr (mergeStats (map (\<lambda>(e, reqs, s, ms). s) vus),
                          foldl (\<lambda>t (e, reqs, s, ms). max t e) start vus,
                          map (\<lambda>(e, reqs, s, ms). reqs) vus,
                          map (\<lambda>(e, reqs, s, ms). Active_inc # ms @ [Active_dec]) vus)))"

subsection \<open>What one request observes\<close>

text \<open>Counting the increments of \<^verbatim>\<open>requestsTotal\<close>, those of its error class, and the observations.\<close>

fun incs :: "metric list \<Rightarrow> nat" where
  "incs [] = 0"
| "incs (Requests_total c m # ms) = Suc (incs ms)"
| "incs (_ # ms) = incs ms"

fun errs :: "metric list \<Rightarrow> nat" where
  "errs [] = 0"
| "errs (Requests_total c m # ms) = (if c = ''error'' then 1 else 0) + errs ms"
| "errs (_ # ms) = errs ms"

fun durs :: "metric list \<Rightarrow> nat" where
  "durs [] = 0"
| "durs (Request_duration m x # ms) = Suc (durs ms)"
| "durs (_ # ms) = durs ms"

lemma counts_append [simp]:
  "incs (xs @ ys) = incs xs + incs ys" "errs (xs @ ys) = errs xs + errs ys"
  "durs (xs @ ys) = durs xs + durs ys"
  by (induction xs rule: incs.induct; simp)+

lemma statusClass_not_error: "statusClass c \<noteq> ''error''"
proof
  assume "statusClass c = ''error''"
  moreover have "last (statusClass c) = CHR ''x''" by (simp add: statusClass_def)
  ultimately show False by simp
qed

lemma elapsed_ms_mono: "0 \<le> a \<Longrightarrow> a \<le> b \<Longrightarrow> elapsed_ms a \<le> elapsed_ms b"
  unfolding elapsed_ms_def by (intro fl64_mono divide_right_mono divide_nonneg_pos fl64_nonneg) auto

lemma elapsed_ms_nonneg: "0 \<le> a \<Longrightarrow> 0 \<le> elapsed_ms a"
  unfolding elapsed_ms_def by (intro fl64_nonneg divide_nonneg_pos) auto

text \<open>What the tally and the metrics of a user have in common, for the observations it made.\<close>

definition vu_facts ::
  "config \<Rightarrow> issued list \<Rightarrow> metric list \<Rightarrow> observation list \<Rightarrow> bool" where
  "vu_facts cfg reqs ms obs \<longleftrightarrow>
     incs ms = length obs \<and> durs ms = length (latencies obs) \<and> errs ms + durs ms = incs ms \<and>
     length reqs = length obs \<and>
     (\<forall>l \<in> set (latencies obs). 0 \<le> l)"

lemma vu_facts_append:
  "vu_facts cfg reqs ms obs \<Longrightarrow> vu_facts cfg reqs' ms' obs' \<Longrightarrow>
   vu_facts cfg (reqs @ reqs') (ms @ ms') (obs @ obs')"
  by (auto simp: vu_facts_def)

lemma vu_facts_Nil: "vu_facts cfg [] [] []"
  by (simp add: vu_facts_def)

lemma doRequest_cases:
  assumes "doRequest lib cfg stop now x s = (t, req, s', ms)"
  obtains
    (failed) "s' = record_obs s No_answer" "ms = [Requests_total ''error'' (cfg_Method cfg)]"
      "t \<le> max (now + int (at_build x)) stop + int (at_late x)" "now + int (at_build x) \<le> t"
      "NewRequest lib cfg = None \<or>
         (\<exists>d. at_exchange x = Transport_error d) \<or>
         (\<exists>c h b. at_exchange x = Reply c h b \<and>
            min (now + cfg_RequestTimeout cfg) stop \<le> now + int (at_build x) + int h \<and>
            min (now + cfg_RequestTimeout cfg) stop \<le> t)"
  | (answered) c h b el where "at_exchange x = Reply c h b"
      "s' = record_obs s (Answered (elapsed_ms el) (c < 400))"
      "ms = [Requests_total (statusClass c) (cfg_Method cfg),
             Request_duration (cfg_Method cfg) (fl64 (elapsed_ms el / 1000))]"
      "int h \<le> el" "el \<le> cfg_RequestTimeout cfg + int (at_late x)" "now + int (at_build x) \<le> t"
      "t \<le> stop + int (at_late x)"
proof (cases "NewRequest lib cfg")
  case None
  then show thesis using assms by (intro failed) (auto simp: doRequest_def Let_def)
next
  case (Some req0)
  show thesis
  proof (cases "at_exchange x")
    case (Transport_error d)
    then show thesis using assms Some
      by (intro failed) (auto simp: doRequest_def Let_def client_Do_def)
  next
    case (Reply c h b)
    show thesis
    proof (cases "now + int (at_build x) + int h < min (now + cfg_RequestTimeout cfg) stop")
      case True
      then show thesis using assms Some Reply
        by (intro answered [of c h b "t - (now + int (at_build x))"])
          (auto simp: doRequest_def Let_def client_Do_def)
    next
      case False
      then show thesis using assms Some Reply
        by (intro failed) (auto simp: doRequest_def Let_def client_Do_def)
    qed
  qed
qed

lemma doRequest_facts:
  assumes "doRequest lib cfg stop now x s = (t, req, s', ms)"
  shows "\<exists>ob. s' = record_obs s ob \<and> vu_facts cfg [req] ms [ob]"
  using assms
proof (cases rule: doRequest_cases)
  case failed
  then show ?thesis by (intro exI [of _ No_answer]) (simp add: vu_facts_def)
next
  case (answered c h b el)
  then show ?thesis
    by (intro exI [of _ "Answered (elapsed_ms el) (c < 400)"])
      (simp add: vu_facts_def statusClass_not_error elapsed_ms_nonneg)
qed

lemma doRequest_time:
  assumes "doRequest lib cfg stop now x s = (t, req, s', ms)"
  shows "now + int (at_build x) \<le> t" "t \<le> max (now + int (at_build x)) stop + int (at_late x)"
  using assms by (cases rule: doRequest_cases; auto)+

subsection \<open>What a virtual user does\<close>

text \<open>The loop by cases: it is over, or it makes a request and stops or goes on.\<close>

lemma vu_cases:
  assumes "runVirtualUser lib cfg stop now script s = Some (e, reqs, s', ms)"
  obtains
    (over) "stop \<le> now" "e = now" "reqs = []" "s' = s" "ms = []"
  | (stops) x rest t req where "now < stop" "script = x # rest"
      "doRequest lib cfg stop now x s = (t, req, s', ms)" "0 < cfg_ThinkTime cfg"
      "e = max t stop + int (at_wake x)" "reqs = [req]"
  | (goes_on) x rest t t' req s1 ms1 reqs2 ms2 where "now < stop" "script = x # rest"
      "doRequest lib cfg stop now x s = (t, req, s1, ms1)" "t \<le> t'"
      "t' \<le> max t stop + int (at_wake x)"
      "runVirtualUser lib cfg stop t' rest s1 = Some (e, reqs2, s', ms2)"
      "reqs = req # reqs2" "ms = ms1 @ ms2"
proof (cases "stop \<le> now")
  case True
  then show thesis using assms by (intro over) (simp_all add: runVirtualUser.simps [of _ _ _ now])
next
  case False
  then obtain x rest where sc: "script = x # rest"
    using assms by (cases script) (auto simp: runVirtualUser.simps [of _ _ _ now])
  obtain t req s1 ms1 where D: "doRequest lib cfg stop now x s = (t, req, s1, ms1)"
    by (metis prod_cases4)
  note eq = assms [unfolded runVirtualUser.simps [of _ _ _ now] sc]
  show thesis
  proof (cases "0 < cfg_ThinkTime cfg")
    case True
    show thesis
    proof (cases "stop < t + cfg_ThinkTime cfg")
      case True
      then show thesis using eq False sc D \<open>0 < cfg_ThinkTime cfg\<close> by (intro stops) auto
    next
      case False
      then obtain reqs2 ms2 where
        "runVirtualUser lib cfg stop (t + cfg_ThinkTime cfg + int (at_wake x)) rest s1 = Some (e, reqs2, s', ms2)"
        "reqs = req # reqs2" "ms = ms1 @ ms2"
        using eq \<open>\<not> stop \<le> now\<close> D True by auto
      then show thesis using False \<open>\<not> stop \<le> now\<close> sc D True by (intro goes_on) auto
    qed
  next
    case no_think: False
    then obtain reqs2 ms2 where
      "runVirtualUser lib cfg stop t rest s1 = Some (e, reqs2, s', ms2)"
      "reqs = req # reqs2" "ms = ms1 @ ms2"
      using eq False D by auto
    then show thesis using False sc D by (intro goes_on) auto
  qed
qed

lemma vu_observes:
  assumes "runVirtualUser lib cfg stop now script s = Some (e, reqs, s', ms)"
  shows "\<exists>obs. s' = foldl record_obs s obs \<and> vu_facts cfg reqs ms obs \<and> length obs \<le> length script"
  using assms
proof (induction script arbitrary: now s e reqs s' ms)
  case Nil
  then show ?case by (cases rule: vu_cases) (auto intro!: exI [of _ "[]"] vu_facts_Nil)
next
  case (Cons x script)
  from Cons.prems show ?case
  proof (cases rule: vu_cases)
    case over
    then show ?thesis by (auto intro!: exI [of _ "[]"] vu_facts_Nil)
  next
    case (stops y rest t req)
    then obtain ob where "s' = record_obs s ob" "vu_facts cfg [req] ms [ob]"
      using doRequest_facts by blast
    then show ?thesis using stops by (intro exI [of _ "[ob]"]) simp
  next
    case (goes_on y rest t t' req s1 ms1 reqs2 ms2)
    then obtain ob where ob: "s1 = record_obs s ob" "vu_facts cfg [req] ms1 [ob]"
      using doRequest_facts by blast
    obtain obs where "s' = foldl record_obs s1 obs" "vu_facts cfg reqs2 ms2 obs"
      "length obs \<le> length script" using Cons.IH goes_on by blast
    then show ?thesis using goes_on ob vu_facts_append [OF ob(2)]
      by (intro exI [of _ "ob # obs"]) fastforce
  qed
qed

text \<open>
  The time an iteration spends outside the exchange and the pause. With at most \<open>B\<close> of it the
  loop ends at most \<open>B\<close> after the stop time, and not before it.
\<close>

definition overhead :: "attempt \<Rightarrow> nat" where
  "overhead x = at_build x + at_late x + at_wake x"

lemma vu_ends:
  assumes "runVirtualUser lib cfg stop now script s = Some (e, reqs, s', ms)"
    and "now \<le> max u (stop + int B)" and "\<forall>x \<in> set script. overhead x \<le> B"
  shows "e \<le> max u (stop + int B)" and "stop \<le> e"
proof -
  have "e \<le> max u (stop + int B) \<and> stop \<le> e"
    using assms
  proof (induction script arbitrary: now s e reqs s' ms)
    case Nil
    from Nil.prems(1) show ?case using Nil.prems(2) by (cases rule: vu_cases) auto
  next
    case (Cons x script)
    from Cons.prems(1) show ?case
    proof (cases rule: vu_cases)
      case over
      then show ?thesis using Cons.prems(2) by simp
    next
      case (stops y rest t req)
      then have "int (at_build y) + int (at_late y) + int (at_wake y) \<le> int B"
        using Cons.prems(3) by (simp add: overhead_def)
      then show ?thesis using stops(1,5) doRequest_time(2) [OF stops(3)] by (auto simp: max_def split: if_splits)
    next
      case (goes_on y rest t t' req s1 ms1 reqs2 ms2)
      then have "int (at_build y) + int (at_late y) + int (at_wake y) \<le> int B"
        using Cons.prems(3) by (simp add: overhead_def)
      then have "t' \<le> max u (stop + int B)"
        using goes_on(1,5) doRequest_time(2) [OF goes_on(3)] by (auto simp: overhead_def max_def split: if_splits)
      then show ?thesis using Cons.IH [of t' s1] goes_on Cons.prems(3) by simp
    qed
  qed
  then show "e \<le> max u (stop + int B)" "stop \<le> e" by simp_all
qed

text \<open>No iteration begins at the stop time or later, and nothing goes out then.\<close>

definition in_time :: "config \<Rightarrow> int \<Rightarrow> issued \<Rightarrow> bool" where
  "in_time cfg stop q \<longleftrightarrow> is_begin q < stop \<and> is_begin q \<le> is_start q \<and>
     (is_sent q \<noteq> None \<longrightarrow> is_start q < stop \<and> is_start q < is_begin q + cfg_RequestTimeout cfg)"

lemma doRequest_issued:
  assumes "doRequest lib cfg stop now x s = (t, q, s', ms)"
  shows "is_begin q = now" and "is_start q = now + int (at_build x)"
    and "is_sent q \<noteq> None \<Longrightarrow> now + int (at_build x) < min (now + cfg_RequestTimeout cfg) stop"
proof -
  let ?cut = "min (now + cfg_RequestTimeout cfg) stop" and ?start = "now + int (at_build x)"
  have "is_begin q = now \<and> is_start q = ?start \<and> (is_sent q \<noteq> None \<longrightarrow> ?start < ?cut)"
  proof (cases "NewRequest lib cfg")
    case None
    then show ?thesis using assms by (auto simp: doRequest_def Let_def)
  next
    case (Some req0)
    let ?iss = "\<lparr>is_begin = now, is_start = ?start, is_sent = (if ?start < ?cut then Some (set_headers cfg req0) else None)\<rparr>"
    have "q = ?iss"
      using assms Some by (cases "client_Do ?cut ?start (at_exchange x)") (auto simp: doRequest_def Let_def)
    then show ?thesis by (cases "?start < ?cut") simp_all
  qed
  then show "is_begin q = now" "is_start q = ?start" "is_sent q \<noteq> None \<Longrightarrow> ?start < ?cut" by simp_all
qed

lemma doRequest_in_time:
  assumes "now < stop" and "doRequest lib cfg stop now x s = (t, q, s', ms)"
  shows "in_time cfg stop q"
  using assms(1) doRequest_issued [OF assms(2)] unfolding in_time_def by simp

lemma vu_in_time:
  assumes "runVirtualUser lib cfg stop now script s = Some (e, reqs, s', ms)"
  shows "\<forall>q \<in> set reqs. in_time cfg stop q"
  using assms
proof (induction script arbitrary: now s e reqs s' ms)
  case Nil
  then show ?case by (cases rule: vu_cases) auto
next
  case (Cons x script)
  from Cons.prems show ?case
  proof (cases rule: vu_cases)
    case (stops y rest t req)
    then show ?thesis using doRequest_in_time by auto
  next
    case (goes_on y rest t t' req s1 ms1 reqs2 ms2)
    then show ?thesis using doRequest_in_time Cons.IH by auto
  qed simp
qed

text \<open>The loop returns: every iteration takes at least a nanosecond, so there are not more than the nanoseconds left.\<close>

lemma vu_returns:
  assumes "\<forall>x \<in> set script. 1 \<le> at_build x" and "stop - now \<le> int (length script)"
  shows "runVirtualUser lib cfg stop now script s \<noteq> None"
  using assms
proof (induction script arbitrary: now s)
  case Nil
  then show ?case by (simp add: runVirtualUser.simps)
next
  case (Cons x script)
  obtain t req s1 ms1 where D: "doRequest lib cfg stop now x s = (t, req, s1, ms1)"
    by (metis prod_cases4)
  have "now + 1 \<le> t" using doRequest_time(1) [OF D] Cons.prems(1) by simp
  then have later: "runVirtualUser lib cfg stop t' script s1 \<noteq> None" if "t \<le> t'" for t'
    using that Cons.IH [of t' s1] Cons.prems by simp
  show ?case using later [of t] later [of "t + cfg_ThinkTime cfg + int (at_wake x)"]
    by (cases "0 < cfg_ThinkTime cfg") (auto simp: runVirtualUser.simps [of _ _ _ now] D)
qed

text \<open>A target that answers below 400 within the request timeout, whenever it is asked.\<close>

definition healthy :: "config \<Rightarrow> attempt \<Rightarrow> bool" where
  "healthy cfg x \<longleftrightarrow> (case at_exchange x of
     Reply c h b \<Rightarrow> c < 400 \<and> int (at_build x) + int h < cfg_RequestTimeout cfg
   | Transport_error d \<Rightarrow> False)"

lemma doRequest_healthy:
  assumes "doRequest lib cfg stop now x s = (t, req, s', ms)"
    and "healthy cfg x" and "NewRequest lib cfg \<noteq> None"
  shows "stop \<le> t \<and> s' = record_obs s No_answer \<or> (\<exists>l. s' = record_obs s (Answered l True))"
  using assms by (cases rule: doRequest_cases) (auto simp: healthy_def)

lemma vu_healthy:
  assumes "runVirtualUser lib cfg stop now script s = Some (e, reqs, s', ms)"
    and "\<forall>x \<in> set script. healthy cfg x" and "NewRequest lib cfg \<noteq> None"
  shows "\<exists>obs. s' = foldl record_obs s obs \<and> length obs \<le> length script \<and>
    length obs \<le> successes obs + 1"
  using assms
proof (induction script arbitrary: now s e reqs s' ms)
  case Nil
  from Nil.prems(1) show ?case by (cases rule: vu_cases) (auto intro!: exI [of _ "[]"])
next
  case (Cons x script)
  from Cons.prems(1) show ?case
  proof (cases rule: vu_cases)
    case over
    then show ?thesis by (auto intro!: exI [of _ "[]"])
  next
    case (stops y rest t req)
    then obtain ob where "s' = record_obs s ob" using doRequest_facts by blast
    then show ?thesis by (intro exI [of _ "[ob]"]) simp
  next
    case (goes_on y rest t t' req s1 ms1 reqs2 ms2)
    then have y: "healthy cfg y" "\<forall>x \<in> set rest. healthy cfg x" using Cons.prems(2) by auto
    from doRequest_healthy [OF goes_on(3) y(1) Cons.prems(3)] show ?thesis
    proof
      assume last: "stop \<le> t \<and> s1 = record_obs s No_answer"
      then have "s' = s1" using goes_on(4,6) by (simp add: runVirtualUser.simps [of _ _ _ t'])
      then show ?thesis using last by (intro exI [of _ "[No_answer]"]) simp
    next
      assume "\<exists>l. s1 = record_obs s (Answered l True)"
      then obtain l where l: "s1 = record_obs s (Answered l True)" by blast
      obtain obs where "s' = foldl record_obs s1 obs" "length obs \<le> length script"
        "length obs \<le> successes obs + 1"
        using Cons.IH [OF _ _ Cons.prems(3), of t' s1] goes_on y(2) by blast
      then show ?thesis using l by (intro exI [of _ "Answered l True # obs"]) simp
    qed
  qed
qed

text \<open>An observation that an attempt can yield.\<close>

definition explains :: "config \<Rightarrow> attempt \<Rightarrow> observation \<Rightarrow> bool" where
  "explains cfg x ob \<longleftrightarrow>
     ob = No_answer \<or>
     (\<exists>c h b el. at_exchange x = Reply c h b \<and> ob = Answered (elapsed_ms el) (c < 400) \<and> int h \<le> el \<and>
        el \<le> cfg_RequestTimeout cfg + int (at_late x))"

lemma doRequest_explained:
  assumes "doRequest lib cfg stop now x s = (t, req, s', ms)"
  shows "\<exists>ob. s' = record_obs s ob \<and> explains cfg x ob"
  using assms
proof (cases rule: doRequest_cases)
  case failed
  then show ?thesis by (intro exI [of _ No_answer]) (simp add: explains_def)
next
  case (answered c h b el)
  then show ?thesis
    by (intro exI [of _ "Answered (elapsed_ms el) (c < 400)"]) (auto simp: explains_def)
qed

lemma vu_explained:
  assumes "runVirtualUser lib cfg stop now script s = Some (e, reqs, s', ms)"
  shows "\<exists>obs. s' = foldl record_obs s obs \<and> length obs \<le> length script \<and>
    (\<forall>ob \<in> set obs. \<exists>x \<in> set script. explains cfg x ob)"
  using assms
proof (induction script arbitrary: now s e reqs s' ms)
  case Nil
  then show ?case by (cases rule: vu_cases) (auto intro!: exI [of _ "[]"])
next
  case (Cons x script)
  from Cons.prems show ?case
  proof (cases rule: vu_cases)
    case over
    then show ?thesis by (auto intro!: exI [of _ "[]"])
  next
    case (stops y rest t req)
    then obtain ob where "s' = record_obs s ob" "explains cfg y ob" using doRequest_explained by blast
    then show ?thesis using stops(2) by (intro exI [of _ "[ob]"]) simp
  next
    case (goes_on y rest t t' req s1 ms1 reqs2 ms2)
    then obtain ob where ob: "s1 = record_obs s ob" "explains cfg y ob" using doRequest_explained by blast
    obtain obs where "s' = foldl record_obs s1 obs" "length obs \<le> length script"
      "\<forall>ob \<in> set obs. \<exists>x \<in> set script. explains cfg x ob" using Cons.IH goes_on by blast
    then show ?thesis using goes_on(2) ob by (intro exI [of _ "ob # obs"]) auto
  qed
qed

subsection \<open>What a run is made of\<close>

lemma those_Some: "those xs = Some ys \<longleftrightarrow> xs = map Some ys"
  by (induction xs arbitrary: ys) (auto split: option.splits)

lemma list_choice:
  assumes "\<And>i. i < n \<Longrightarrow> \<exists>y. P i y"
  shows "\<exists>ys. length ys = n \<and> (\<forall>i < n. P i (ys ! i))"
proof -
  from assms obtain f where "\<And>i. i < n \<Longrightarrow> P i (f i)" by metis
  then show ?thesis by (intro exI [of _ "map f [0..<n]"]) simp
qed

text \<open>When the run context ends.\<close>

definition run_stop :: "config \<Rightarrow> int \<Rightarrow> int option \<Rightarrow> int" where
  "run_stop cfg start cancel = (case cancel of None \<Rightarrow> start + cfg_Duration cfg
     | Some c \<Rightarrow> min (start + cfg_Duration cfg) c)"

lemma Run_users:
  assumes "Run lib cfg start cancel scripts = Some (Inr (res, e, reqs, mss))"
  obtains vus where "length vus = nat (cfg_VirtualUsers cfg)"
    "\<And>i. i < length vus \<Longrightarrow>
       runVirtualUser lib cfg (run_stop cfg start cancel) start (scripts i) vu_zero = Some (vus ! i)"
    "res = mergeStats (map (\<lambda>(e, reqs, s, ms). s) vus)"
    "e = foldl (\<lambda>t (e, reqs, s, ms). max t e) start vus"
    "reqs = map (\<lambda>(e, reqs, s, ms). reqs) vus"
    "mss = map (\<lambda>(e, reqs, s, ms). Active_inc # ms @ [Active_dec]) vus"
proof -
  from assms obtain vus where *: "map (\<lambda>i. runVirtualUser lib cfg (run_stop cfg start cancel) start
        (scripts i) vu_zero) [0..<nat (cfg_VirtualUsers cfg)] = map Some vus"
    "res = mergeStats (map (\<lambda>(e, reqs, s, ms). s) vus)"
    "e = foldl (\<lambda>t (e, reqs, s, ms). max t e) start vus"
    "reqs = map (\<lambda>(e, reqs, s, ms). reqs) vus"
    "mss = map (\<lambda>(e, reqs, s, ms). Active_inc # ms @ [Active_dec]) vus"
    by (auto simp: Run_def run_stop_def [symmetric] those_Some split: if_splits option.splits)
  from arg_cong [OF *(1), of length] have len: "length vus = nat (cfg_VirtualUsers cfg)" by simp
  have "runVirtualUser lib cfg (run_stop cfg start cancel) start (scripts i) vu_zero = Some (vus ! i)"
    if "i < length vus" for i
    using arg_cong [OF *(1), of "\<lambda>xs. xs ! i"] that len by simp
  from that [OF len this *(2-5)] show thesis .
qed

text \<open>The users' observations, and the bookkeeping that goes with them.\<close>

lemma Run_observations:
  assumes "Run lib cfg start cancel scripts = Some (Inr (res, e, reqs, mss))"
  obtains obss where "length obss = nat (cfg_VirtualUsers cfg)"
    "res = mergeStats (map (foldl record_obs vu_zero) obss)"
    "\<And>i. i < length obss \<Longrightarrow> length (obss ! i) \<le> length (scripts i)"
    "length (concat reqs) = length (concat obss)"
    "incs (concat mss) = length (concat obss)" "durs (concat mss) = length (latencies (concat obss))"
    "errs (concat mss) + durs (concat mss) = incs (concat mss)"
    "\<forall>l \<in> set (latencies (concat obss)). 0 \<le> l"
proof -
  from Run_users [OF assms] obtain vus where vus: "length vus = nat (cfg_VirtualUsers cfg)"
    "\<And>i. i < length vus \<Longrightarrow>
       runVirtualUser lib cfg (run_stop cfg start cancel) start (scripts i) vu_zero = Some (vus ! i)"
    "res = mergeStats (map (\<lambda>(e, reqs, s, ms). s) vus)"
    "reqs = map (\<lambda>(e, reqs, s, ms). reqs) vus"
    "mss = map (\<lambda>(e, reqs, s, ms). Active_inc # ms @ [Active_dec]) vus" by metis
  let ?P = "\<lambda>i obs. case vus ! i of (e, reqs, s, ms) \<Rightarrow> s = foldl record_obs vu_zero obs \<and>
      vu_facts cfg reqs ms obs \<and> length obs \<le> length (scripts i)"
  have "\<exists>obs. ?P i obs" if "i < length vus" for i
    using vus(2) [OF that] vu_observes by (cases "vus ! i") fastforce
  then obtain obss where obss: "length obss = length vus" "\<And>i. i < length vus \<Longrightarrow> ?P i (obss ! i)"
    using list_choice [of "length vus" ?P] by auto
  have P: "fst (snd (snd (vus ! i))) = foldl record_obs vu_zero (obss ! i)"
    "case vus ! i of (e, reqs, s, ms) \<Rightarrow> vu_facts cfg reqs ms (obss ! i)"
    "length (obss ! i) \<le> length (scripts i)" if "i < length vus" for i
    using obss(2) [OF that] by (auto split: prod.splits)
  have res: "map (\<lambda>(e, reqs, s, ms). s) vus = map (foldl record_obs vu_zero) obss"
    using obss(1) P(1) by (intro nth_equalityI) (auto simp: case_prod_unfold)
  have "list_all2 (\<lambda>(e, reqs, s, ms) obs. vu_facts cfg reqs ms obs) vus obss"
    unfolding list_all2_conv_all_nth using obss(1) P(2) by (simp add: case_prod_unfold)
  then have "vu_facts cfg (concat reqs) (concat (map (\<lambda>(e, reqs, s, ms). Active_inc # ms @ [Active_dec]) vus))
      (concat obss)"
    unfolding vus(4)
    by (induction rule: list_all2_induct) (auto simp: vu_facts_def)
  then show thesis
    using that [of obss] obss(1) P(3) res vus by (simp add: vu_facts_def)
qed

lemma concat_length_le:
  assumes "length xss = n" and "\<And>i. i < n \<Longrightarrow> length (xss ! i) \<le> f i"
  shows "length (concat xss) \<le> (\<Sum>i<n. f i)"
proof -
  have "length (concat xss) = (\<Sum>i<n. length (xss ! i))"
    using assms(1) by (simp add: length_concat sum_list_sum_nth atLeast0LessThan)
  also have "\<dots> \<le> (\<Sum>i<n. f i)" using assms(2) by (intro sum_mono) simp
  finally show ?thesis .
qed

lemma Run_explained:
  assumes "Run lib cfg start cancel scripts = Some (Inr (res, e, reqs, mss))"
  obtains obss where "res = mergeStats (map (foldl record_obs vu_zero) obss)"
    "length (concat obss) \<le> (\<Sum>i<nat (cfg_VirtualUsers cfg). length (scripts i))"
    "\<forall>ob \<in> set (concat obss). \<exists>i. \<exists>x \<in> set (scripts i). explains cfg x ob"
proof -
  from Run_users [OF assms] obtain vus where vus: "length vus = nat (cfg_VirtualUsers cfg)"
    "\<And>i. i < length vus \<Longrightarrow>
       runVirtualUser lib cfg (run_stop cfg start cancel) start (scripts i) vu_zero = Some (vus ! i)"
    "res = mergeStats (map (\<lambda>(e, reqs, s, ms). s) vus)" by metis
  let ?P = "\<lambda>i obs. fst (snd (snd (vus ! i))) = foldl record_obs vu_zero obs \<and>
      length obs \<le> length (scripts i) \<and> (\<forall>ob \<in> set obs. \<exists>x \<in> set (scripts i). explains cfg x ob)"
  have "\<exists>obs. ?P i obs" if "i < length vus" for i
  proof -
    obtain e' reqs' s' ms' where v: "vus ! i = (e', reqs', s', ms')" by (cases "vus ! i")
    from vu_explained [OF vus(2) [OF that, unfolded v]] show ?thesis by (simp add: v)
  qed
  then obtain obss where o: "length obss = length vus" "\<And>i. i < length vus \<Longrightarrow> ?P i (obss ! i)"
    using list_choice [of "length vus" ?P] by auto
  have "map (\<lambda>(e, reqs, s, ms). s) vus = map (foldl record_obs vu_zero) obss"
    using o by (intro nth_equalityI) (auto simp: case_prod_unfold)
  moreover have "length (concat obss) \<le> (\<Sum>i<nat (cfg_VirtualUsers cfg). length (scripts i))"
    using o vus(1) by (intro concat_length_le) auto
  moreover have "\<forall>ob \<in> set (concat obss). \<exists>i. \<exists>x \<in> set (scripts i). explains cfg x ob"
  proof
    fix ob assume "ob \<in> set (concat obss)"
    then obtain obs where "obs \<in> set obss" "ob \<in> set obs" by auto
    moreover from this(1) obtain i where "i < length obss" "obss ! i = obs" by (metis in_set_conv_nth)
    ultimately have "i < length obss" "ob \<in> set (obss ! i)" by simp_all
    then show "\<exists>i. \<exists>x \<in> set (scripts i). explains cfg x ob" using o by metis
  qed
  ultimately show thesis using that vus(3) by metis
qed

lemma latencies_mem: "l \<in> set (latencies obs) \<Longrightarrow> \<exists>ok. Answered l ok \<in> set obs"
  by (induction obs rule: latencies.induct) auto

lemma successes_latencies: "successes obs \<le> length (latencies obs)"
  by (induction obs rule: successes.induct) auto

lemma least_le_greatest: "ls \<noteq> [] \<Longrightarrow> greatest ls \<in> set ls"
  by (simp add: greatest_def)

lemma Run_total:
  assumes "\<forall>i. \<forall>x \<in> set (scripts i). 1 \<le> at_build x"
    and "\<forall>i. cfg_Duration cfg \<le> int (length (scripts i))"
  shows "\<exists>r. Run lib cfg start cancel scripts = Some r \<and>
    (\<forall>msg. r = Inl msg \<longrightarrow> cfg_VirtualUsers cfg \<le> 0 \<or> cfg_TargetURL cfg = [])"
proof -
  let ?f = "\<lambda>i. runVirtualUser lib cfg (run_stop cfg start cancel) start (scripts i) vu_zero"
  have "run_stop cfg start cancel - start \<le> int (length (scripts i))" for i
    using assms(2) [rule_format, of i] by (auto simp: run_stop_def split: option.splits)
  then have "?f i \<noteq> None" for i using vu_returns assms(1) by blast
  then have "map ?f [0..<n] = map Some (map (the \<circ> ?f) [0..<n])" for n by simp
  then have "\<exists>vus. those (map ?f [0..<n]) = Some vus" for n using those_Some by blast
  then obtain vus where "those (map ?f [0..<nat (cfg_VirtualUsers cfg)]) = Some vus" by blast
  then show ?thesis by (auto simp: Run_def run_stop_def [symmetric])
qed

text \<open>When the iterations of a run begin, and when it ends.\<close>

lemma Run_in_time:
  assumes "Run lib cfg start cancel scripts = Some (Inr (res, e, reqs, mss))"
  shows "\<forall>q \<in> set (concat reqs). in_time cfg (run_stop cfg start cancel) q"
proof -
  from Run_users [OF assms] obtain vus where vus:
    "\<And>i. i < length vus \<Longrightarrow>
       runVirtualUser lib cfg (run_stop cfg start cancel) start (scripts i) vu_zero = Some (vus ! i)"
    "reqs = map (\<lambda>(e, reqs, s, ms). reqs) vus" by metis
  have "\<forall>q \<in> set (fst (snd v)). in_time cfg (run_stop cfg start cancel) q" if v: "v \<in> set vus" for v
  proof -
    obtain i where i: "i < length vus" "vus ! i = v" using v by (metis in_set_conv_nth)
    obtain e' reqs' s' ms' where "v = (e', reqs', s', ms')" by (cases v)
    with vu_in_time [of lib cfg _ start "scripts i" vu_zero e' reqs' s' ms'] vus(1) [OF i(1)] i(2)
    show ?thesis by simp
  qed
  then show ?thesis using vus(2) by (auto simp: case_prod_unfold)
qed

lemma Run_ends:
  assumes "Run lib cfg start cancel scripts = Some (Inr (res, e, reqs, mss))"
    and "\<forall>i. \<forall>x \<in> set (scripts i). overhead x \<le> B"
  shows "e \<le> max start (run_stop cfg start cancel + int B)" and "run_stop cfg start cancel \<le> e"
proof -
  let ?s = "run_stop cfg start cancel"
  from Run_users [OF assms(1)] obtain vus where vus: "length vus = nat (cfg_VirtualUsers cfg)"
    "\<And>i. i < length vus \<Longrightarrow> runVirtualUser lib cfg ?s start (scripts i) vu_zero = Some (vus ! i)"
    "e = foldl (\<lambda>t (e, reqs, s, ms). max t e) start vus" by metis
  have each: "fst v \<le> max start (?s + int B) \<and> ?s \<le> fst v" if "v \<in> set vus" for v
  proof -
    obtain i where i: "i < length vus" "v = vus ! i" using \<open>v \<in> set vus\<close> by (metis in_set_conv_nth)
    obtain e' reqs' s' ms' where v: "v = (e', reqs', s', ms')" by (cases v)
    then have "vus ! i = (e', reqs', s', ms')" using i(2) by simp
    from vu_ends [OF vus(2) [OF i(1), unfolded this], of start B] assms(2) show ?thesis by (simp add: v)
  qed
  have upper: "foldl (\<lambda>t (e, reqs, s, ms). max t e) a vus \<le> max a (max start (?s + int B))" for a
    using each
  proof (induction vus arbitrary: a)
    case (Cons v vus)
    then have "fst v \<le> max start (?s + int B)" by simp
    then show ?case using Cons.IH [of "max a (fst v)"] Cons.prems
      by (simp add: case_prod_unfold max.assoc max.absorb2)
  qed simp
  have lower: "a \<le> foldl (\<lambda>t (e, reqs, s, ms). max t e) a vs" for a and vs :: "(int \<times> issued list \<times> vuStats \<times> metric list) list"
  proof (induction vs arbitrary: a)
    case (Cons v vs)
    then show ?case using order.trans [OF max.cobounded1 Cons.IH] by (simp add: case_prod_unfold)
  qed simp
  show "e \<le> max start (?s + int B)" using upper [of start] vus(3) by simp
  have "vus \<noteq> []" using vus(1) assms(1) by (auto simp: Run_def split: if_splits)
  then obtain v vs where "vus = v # vs" by (cases vus) auto
  then show "?s \<le> e" using each [of v] lower [of "max start (fst v)" vs] vus(3) by (simp add: case_prod_unfold)
qed

subsection \<open>A sample run\<close>

definition sample_cfg :: config where
  "sample_cfg = \<lparr>cfg_TargetURL = ''http://target/'', cfg_Method = ''GET'', cfg_VirtualUsers = 2,
     cfg_Duration = 1000, cfg_RequestTimeout = 5 * 10 ^ 9, cfg_Headers = [(''x-test-token'', ''abc'')],
     cfg_Body = [], cfg_ThinkTime = 0\<rparr>"

definition sample_script :: "nat \<Rightarrow> attempt list" where
  "sample_script i = replicate 1000 \<lparr>at_build = 1, at_exchange = Reply 200 (300 + i mod 2) 100, at_late = 2, at_wake = 1\<rparr>"

lemma sample_NewRequest: "NewRequest ascii_lib sample_cfg \<noteq> None"
proof -
  have "url_parse ascii_lib ''http://target/'' \<noteq> None" "list_all token_char ''GET''" by code_simp+
  then show ?thesis by (simp add: NewRequest_def sample_cfg_def)
qed

lemma sample_short: "(\<Sum>i<nat (cfg_VirtualUsers sample_cfg). length (sample_script i)) \<le> 2 ^ 45"
  by (simp add: sample_cfg_def sample_script_def lessThan_nat_numeral)

lemma sample_script_builds:
  "\<forall>i. \<forall>x \<in> set (sample_script i). 1 \<le> at_build x"
  "\<forall>i. cfg_Duration sample_cfg \<le> int (length (sample_script i))"
  "\<forall>i. \<forall>x \<in> set (sample_script i). overhead x \<le> 4"
  by (simp_all add: sample_script_def sample_cfg_def overhead_def)

lemma sample_runs:
  "\<exists>res e reqs mss. Run ascii_lib sample_cfg 0 cancel sample_script = Some (Inr (res, e, reqs, mss))"
proof -
  from Run_total [OF sample_script_builds(1,2)] obtain r where r:
    "Run ascii_lib sample_cfg 0 cancel sample_script = Some r"
    "\<forall>msg. r = Inl msg \<longrightarrow> cfg_VirtualUsers sample_cfg \<le> 0 \<or> cfg_TargetURL sample_cfg = []" by blast
  then show ?thesis by (cases r) (auto simp: sample_cfg_def)
qed

subsection \<open>Properties\<close>

text \<open>
  C20: a run returns. If building a request takes time at all, a virtual user makes at most
  one request per nanosecond of the duration, so the loop ends and \<open>Run\<close> reports a result or
  one of its two configuration errors, whatever the target does.
\<close>

theorem Run_returns:
  assumes "\<forall>i. \<forall>x \<in> set (scripts i). 1 \<le> at_build x"
    and "\<forall>i. cfg_Duration cfg \<le> int (length (scripts i))"
  shows "\<exists>r. Run lib cfg start cancel scripts = Some r \<and>
    (\<forall>msg. r = Inl msg \<longrightarrow> cfg_VirtualUsers cfg \<le> 0 \<or> cfg_TargetURL cfg = [])"
  using assms by (rule Run_total)

theorem Run_returns_witness:
  "\<exists>r. Run ascii_lib sample_cfg 0 None sample_script = Some r"
  using Run_returns [OF sample_script_builds(1,2), of ascii_lib 0 None] by blast

text \<open>
  C21: a run keeps its deadline. No iteration begins at the end of the duration or later, nor
  once the run is cancelled, and no request goes out then; requests in flight and pauses are
  cut short, so the run ends at most the overhead of one iteration (building the request, and
  waking up after the exchange and the pause) after the deadline, or after the cancellation.
\<close>

theorem Run_deadline:
  assumes "Run lib cfg start cancel scripts = Some (Inr (res, e, reqs, mss))"
    and "0 \<le> cfg_Duration cfg" and "\<forall>i. \<forall>x \<in> set (scripts i). overhead x \<le> B"
  shows "(\<forall>q \<in> set (concat reqs). is_begin q < start + cfg_Duration cfg \<and>
      (is_sent q \<noteq> None \<longrightarrow> is_start q < start + cfg_Duration cfg) \<and>
      (\<forall>c. cancel = Some c \<longrightarrow> is_begin q < c \<and> (is_sent q \<noteq> None \<longrightarrow> is_start q < c))) \<and>
    e \<le> start + cfg_Duration cfg + int B \<and> (\<forall>c. cancel = Some c \<longrightarrow> e \<le> max start (c + int B))"
proof -
  have "in_time cfg (run_stop cfg start cancel) q" if "q \<in> set (concat reqs)" for q
    using Run_in_time [OF assms(1)] that by blast
  moreover have "e \<le> max start (run_stop cfg start cancel + int B)" using Run_ends(1) [OF assms(1,3)] .
  ultimately show ?thesis using assms(2) by (cases cancel) (fastforce simp: run_stop_def in_time_def)+
qed

theorem Run_deadline_witness:
  "\<exists>res e reqs mss. Run ascii_lib sample_cfg 0 (Some 700) sample_script = Some (Inr (res, e, reqs, mss)) \<and>
     e \<le> 704 \<and> (\<forall>q \<in> set (concat reqs). is_begin q < 700)"
proof -
  obtain res e reqs mss where r:
    "Run ascii_lib sample_cfg 0 (Some 700) sample_script = Some (Inr (res, e, reqs, mss))"
    using sample_runs by blast
  have "0 \<le> cfg_Duration sample_cfg" by (simp add: sample_cfg_def)
  from Run_deadline [OF r this sample_script_builds(3)] r show ?thesis by fastforce
qed

text \<open>
  C16: the live metrics agree with the reported result. The requests counter grows by the
  total that is reported, the duration histogram by the number of latency samples; every
  request is a success or a failure and those without an answer are failures; a request goes
  out for every one counted.
\<close>

theorem Run_metrics:
  assumes "Run lib cfg start cancel scripts = Some (Inr (res, e, reqs, mss))"
    and "(\<Sum>i<nat (cfg_VirtualUsers cfg). length (scripts i)) \<le> 2 ^ 45"
  shows "res_TotalRequests res = int (incs (concat mss)) \<and>
    res_LatencyCount res = int (durs (concat mss)) \<and>
    res_SuccessfulRequests res + res_FailedRequests res = res_TotalRequests res \<and>
    res_SuccessfulRequests res \<le> res_LatencyCount res \<and>
    int (errs (concat mss)) \<le> res_FailedRequests res \<and>
    res_TotalRequests res = int (length (concat reqs))"
proof -
  from Run_observations [OF assms(1)] obtain obss where o:
    "length obss = nat (cfg_VirtualUsers cfg)" "res = mergeStats (map (foldl record_obs vu_zero) obss)"
    "\<And>i. i < length obss \<Longrightarrow> length (obss ! i) \<le> length (scripts i)"
    "length (concat reqs) = length (concat obss)" "incs (concat mss) = length (concat obss)"
    "durs (concat mss) = length (latencies (concat obss))"
    "errs (concat mss) + durs (concat mss) = incs (concat mss)" by metis
  have "length (concat obss) \<le> (\<Sum>i<length obss. length (scripts i))"
    using o(3) by (intro concat_length_le) auto
  then have small: "int (length (concat obss)) < 2 ^ 63" using assms(2) o(1) by simp
  note res = mergeStats_stats_of [OF small, folded record_all_map [OF small], folded o(2)]
  show ?thesis using res o(4-7) successes_latencies [of "concat obss"] by simp
qed

theorem Run_metrics_witness:
  "\<exists>res e reqs mss. Run ascii_lib sample_cfg 0 None sample_script = Some (Inr (res, e, reqs, mss)) \<and>
     res_TotalRequests res = int (incs (concat mss))"
proof -
  obtain res e reqs mss where r:
    "Run ascii_lib sample_cfg 0 None sample_script = Some (Inr (res, e, reqs, mss))"
    using sample_runs by blast
  from Run_metrics [OF r sample_short] r show ?thesis by blast
qed

text \<open>
  C36: the request timeout bounds what is measured. A latency exceeds the timeout by at most
  the time \<open>L\<close> the goroutine takes to go on after the exchange was cut off. In particular, with
  the worker's five seconds, a sample lands in the overflow bucket, whose percentile would be
  reported as 5000 ms, only through such a delay.
\<close>

theorem Run_latency_bound:
  assumes "Run lib cfg start cancel scripts = Some (Inr (res, e, reqs, mss))"
    and "(\<Sum>i<nat (cfg_VirtualUsers cfg). length (scripts i)) \<le> 2 ^ 45"
    and "0 \<le> cfg_RequestTimeout cfg" and "\<forall>i. \<forall>x \<in> set (scripts i). at_late x \<le> L"
  shows "0 \<le> res_MinLatencyMs res \<and> res_MinLatencyMs res \<le> res_MaxLatencyMs res \<and>
    res_MaxLatencyMs res \<le> elapsed_ms (cfg_RequestTimeout cfg + int L) \<and>
    (cfg_RequestTimeout cfg = 5 * 10 ^ 9 \<and> L = 0 \<longrightarrow>
      res_MaxLatencyMs res \<le> 5000 \<and> res_LatencyBuckets res ! 12 = 0)"
proof -
  let ?top = "elapsed_ms (cfg_RequestTimeout cfg + int L)"
  obtain obss where o: "res = mergeStats (map (foldl record_obs vu_zero) obss)"
    "length (concat obss) \<le> (\<Sum>i<nat (cfg_VirtualUsers cfg). length (scripts i))"
    "\<forall>ob \<in> set (concat obss). \<exists>i. \<exists>x \<in> set (scripts i). explains cfg x ob"
    using assms(1) by (rule Run_explained)
  have small: "int (length (concat obss)) < 2 ^ 63" using o(2) assms(2) by simp
  note res = mergeStats_stats_of [OF small, folded record_all_map [OF small], folded o(1)]
  have ls: "0 \<le> l \<and> l \<le> ?top" if l: "l \<in> set (latencies (concat obss))" for l
  proof -
    obtain ok where "Answered l ok \<in> set (concat obss)" using latencies_mem [OF l] by blast
    then obtain i x where x: "x \<in> set (scripts i)" "explains cfg x (Answered l ok)" using o(3) by blast
    then obtain el where el: "l = elapsed_ms el" "0 \<le> el" "el \<le> cfg_RequestTimeout cfg + int (at_late x)"
      by (fastforce simp: explains_def)
    moreover have "at_late x \<le> L" using assms(4) x(1) by blast
    ultimately show ?thesis by (simp add: elapsed_ms_nonneg elapsed_ms_mono)
  qed
  have "0 \<le> ?top" using assms(3) by (simp add: elapsed_ms_nonneg)
  then have "0 \<le> least (latencies (concat obss)) \<and>
      least (latencies (concat obss)) \<le> greatest (latencies (concat obss)) \<and>
      greatest (latencies (concat obss)) \<le> ?top"
    using ls by (auto simp: least_def greatest_def Min_le_iff intro: Min_in)
  moreover have "?top = 5000 \<and> hist (latencies (concat obss)) ! 12 = 0"
    if "cfg_RequestTimeout cfg = 5 * 10 ^ 9 \<and> L = 0"
  proof -
    have top: "?top = 5000" using that fl64_int [of "5 * 10 ^ 9"] fl64_int [of 5000] by (simp add: elapsed_ms_def)
    then have "filter (\<lambda>x. bucketIndex x = 12) (latencies (concat obss)) = []"
      using ls by (fastforce simp: filter_empty_conv bucketIndex_eq)
    then show ?thesis using top by (simp add: hist_nth)
  qed
  ultimately show ?thesis using res by auto
qed

theorem Run_latency_bound_witness:
  "\<exists>res e reqs mss. Run ascii_lib sample_cfg 0 None sample_script = Some (Inr (res, e, reqs, mss)) \<and>
     res_MaxLatencyMs res \<le> elapsed_ms (5 * 10 ^ 9 + 2)"
proof -
  obtain res e reqs mss where r:
    "Run ascii_lib sample_cfg 0 None sample_script = Some (Inr (res, e, reqs, mss))"
    using sample_runs by blast
  have "0 \<le> cfg_RequestTimeout sample_cfg" "\<forall>i. \<forall>x \<in> set (sample_script i). at_late x \<le> 2"
    by (simp_all add: sample_cfg_def sample_script_def)
  from Run_latency_bound [OF r sample_short this] r show ?thesis by (auto simp: sample_cfg_def)
qed

text \<open>
  C31: against a healthy target nearly every request succeeds. If the target answers every
  request below 400 within the request timeout, the only failures are the requests in flight
  when the run ends, at most one for each virtual user.
\<close>

theorem healthy_target:
  assumes "Run lib cfg start cancel scripts = Some (Inr (res, e, reqs, mss))"
    and "(\<Sum>i<nat (cfg_VirtualUsers cfg). length (scripts i)) \<le> 2 ^ 45"
    and "\<forall>i. \<forall>x \<in> set (scripts i). healthy cfg x" and "NewRequest lib cfg \<noteq> None"
  shows "res_FailedRequests res \<le> cfg_VirtualUsers cfg"
proof -
  let ?n = "nat (cfg_VirtualUsers cfg)"
  from Run_users [OF assms(1)] obtain vus where vus: "length vus = ?n"
    "\<And>i. i < length vus \<Longrightarrow>
       runVirtualUser lib cfg (run_stop cfg start cancel) start (scripts i) vu_zero = Some (vus ! i)"
    "res = mergeStats (map (\<lambda>(e, reqs, s, ms). s) vus)" by metis
  let ?P = "\<lambda>i obs. fst (snd (snd (vus ! i))) = foldl record_obs vu_zero obs \<and>
      length obs \<le> length (scripts i) \<and> length obs \<le> successes obs + 1"
  have "\<exists>obs. ?P i obs" if "i < length vus" for i
  proof -
    obtain e' reqs' s' ms' where v: "vus ! i = (e', reqs', s', ms')" by (cases "vus ! i")
    from vu_healthy [OF vus(2) [OF that, unfolded v] assms(3) [rule_format, THEN ballI] assms(4)]
    show ?thesis by (simp add: v)
  qed
  then obtain obss where o: "length obss = length vus" "\<And>i. i < length vus \<Longrightarrow> ?P i (obss ! i)"
    using list_choice [of "length vus" ?P] by auto
  have eq: "map (\<lambda>(e, reqs, s, ms). s) vus = map (foldl record_obs vu_zero) obss"
    using o by (intro nth_equalityI) (auto simp: case_prod_unfold)
  have "length (concat obss) \<le> (\<Sum>i<?n. length (scripts i))"
    using o vus(1) by (intro concat_length_le) auto
  then have small: "int (length (concat obss)) < 2 ^ 63" using assms(2) by simp
  note res = mergeStats_stats_of [OF small, folded record_all_map [OF small], folded eq, folded vus(3)]
  have "\<forall>obs \<in> set obss. length obs \<le> successes obs + 1" using o by (auto simp: in_set_conv_nth)
  then have "length (concat obss) \<le> successes (concat obss) + length obss"
    by (induction obss) fastforce+
  then show ?thesis using res o(1) vus(1) assms(1) by (auto simp: Run_def split: if_splits)
qed

theorem healthy_target_witness:
  "\<exists>res e reqs mss. Run ascii_lib sample_cfg 0 None sample_script = Some (Inr (res, e, reqs, mss)) \<and>
     res_FailedRequests res \<le> 2"
proof -
  obtain res e reqs mss where r:
    "Run ascii_lib sample_cfg 0 None sample_script = Some (Inr (res, e, reqs, mss))"
    using sample_runs by blast
  have "\<forall>i. \<forall>x \<in> set (sample_script i). healthy sample_cfg x"
    using order.strict_trans2 [OF mod_less_divisor [of 2]]
    by (simp add: healthy_def sample_script_def sample_cfg_def)
  from healthy_target [OF r sample_short this sample_NewRequest] r show ?thesis
    by (simp add: sample_cfg_def)
qed

end
