(* ===== verification/Worker_Job.thy ===== *)
theory Worker_Job
  imports Worker_Client Load_Runner
begin

section \<open>The worker's jobs\<close>

text \<open>
  The functions of \<^verbatim>\<open>worker/cmd/worker/main.go\<close> that process one message of the Redis stream:
  \<open>handleMessage\<close>, \<open>executeShard\<close>, \<open>deadLetter\<close>, \<open>reclaimStuck\<close>, and the two background loops
  \<open>heartbeat\<close> and \<open>watchCancel\<close>. What they ask of the broker is a list of commands; what the
  broker answers is an argument. The operations of the backend are arguments too, functions
  on a state of any type; the locale \<open>shard_api\<close> states what the worker relies on, and is
  interpreted on the API client talking to the backend's handlers.
\<close>

subsection \<open>Messages and commands\<close>

record message =
  msg_ID :: string
  msg_Values :: "(string \<times> string) list"

record pending =
  p_ID :: string
  p_RetryCount :: int

datatype command =
    XAck string
  | XAdd_dead int string int

definition ack :: "string \<Rightarrow> command list" where
  "ack msgID = [XAck msgID]"

subsection \<open>Running a shard\<close>

text \<open>A \<^verbatim>\<open>time.Duration\<close> is an int64 of nanoseconds.\<close>

definition shard_config :: "shard_assignment \<Rightarrow> config" where
  "shard_config a =
     \<lparr>cfg_TargetURL = sa_TargetURL a, cfg_Method = sa_Method a,
      cfg_VirtualUsers = sa_VirtualUsers a,
      cfg_Duration = wrap64 (sa_DurationSeconds a * 10 ^ 9),
      cfg_RequestTimeout = 5 * 10 ^ 9,
      cfg_Headers = sa_Headers a, cfg_Body = sa_Body a,
      cfg_ThinkTime = wrap64 (sa_ThinkTimeMs a * 10 ^ 6)\<rparr>"

definition report_failed :: "string \<Rightarrow> complete_shard_request" where
  "report_failed msg =
     \<lparr>cs_Status = ''failed'', cs_TotalRequests = None, cs_SuccessfulRequests = None,
      cs_FailedRequests = None, cs_LatencyCount = None, cs_AvgLatencyMs = None,
      cs_MinLatencyMs = None, cs_MaxLatencyMs = None, cs_LatencyBuckets = [],
      cs_ErrorMessage = Some msg\<rparr>"

definition report_completed :: "run_result \<Rightarrow> complete_shard_request" where
  "report_completed res =
     \<lparr>cs_Status = ''completed'',
      cs_TotalRequests = Some (res_TotalRequests res),
      cs_SuccessfulRequests = Some (res_SuccessfulRequests res),
      cs_FailedRequests = Some (res_FailedRequests res),
      cs_LatencyCount = Some (res_LatencyCount res),
      cs_AvgLatencyMs = Some (res_AvgLatencyMs res),
      cs_MinLatencyMs = Some (res_MinLatencyMs res),
      cs_MaxLatencyMs = Some (res_MaxLatencyMs res),
      cs_LatencyBuckets = res_LatencyBuckets res,
      cs_ErrorMessage = None\<rparr>"

definition executeShard ::
  "go_lib \<Rightarrow> int \<Rightarrow> int option \<Rightarrow> (nat \<Rightarrow> attempt list) \<Rightarrow> shard_assignment \<Rightarrow> complete_shard_request option" where
  "executeShard lib start cancel scripts a =
     map_option (\<lambda>r. case r of
         Inl msg \<Rightarrow> report_failed msg
       | Inr (res, e, reqs, ms) \<Rightarrow> report_completed res)
       (Run lib (shard_config a) start cancel scripts)"

subsection \<open>Handling a message\<close>

text \<open>
  The function up to the load and from the load on. \<open>Discard\<close>: acknowledge and forget;
  \<open>Retry\<close>: leave the message pending; \<open>Work\<close>: run the load.
\<close>

datatype job_step = Discard | Retry | Work shard_assignment

definition message_shard :: "message \<Rightarrow> int option" where
  "message_shard msg =
     (case ParseInt (case map_of (msg_Values msg) ''shard_id'' of None \<Rightarrow> [] | Some s \<Rightarrow> s) of
        (i, None) \<Rightarrow> Some i
      | (_, Some e) \<Rightarrow> None)"

lemma message_shard_int64:
  assumes "message_shard msg = Some i" shows "int64_ok i"
proof -
  define str where "str = (case map_of (msg_Values msg) ''shard_id'' of None \<Rightarrow> [] | Some s \<Rightarrow> s)"
  have "ParseInt str = (i, None)"
    using assms by (auto simp: message_shard_def str_def [symmetric] split: prod.splits option.splits)
  then show ?thesis using ParseInt_ok [of str] by simp
qed

definition claim_job ::
  "(int \<Rightarrow> 's \<Rightarrow> ('e + shard_assignment option) \<times> 's) \<Rightarrow> (int \<Rightarrow> 's \<Rightarrow> ('e + shard_assignment option) \<times> 's)
    \<Rightarrow> bool \<Rightarrow> message \<Rightarrow> 's \<Rightarrow> job_step \<times> 's" where
  "claim_job start takeover reclaimed msg s =
     (case message_shard msg of
        None \<Rightarrow> (Discard, s)
      | Some i \<Rightarrow>
          (case (if reclaimed then takeover i s else start i s) of
             (Inl e, s') \<Rightarrow> (Retry, s')
           | (Inr None, s') \<Rightarrow> (Discard, s')
           | (Inr (Some a), s') \<Rightarrow> (Work a, s')))"

definition report_job ::
  "(int \<Rightarrow> complete_shard_request \<Rightarrow> 's \<Rightarrow> ('e + unit) \<times> 's) \<Rightarrow> shard_assignment \<Rightarrow> complete_shard_request
    \<Rightarrow> 's \<Rightarrow> job_step \<times> 's" where
  "report_job report a result s =
     (case report (sa_ShardID a) result s of
        (Inl e, s') \<Rightarrow> (Retry, s')
      | (Inr u, s') \<Rightarrow> (Discard, s'))"

text \<open>
  What happens around a job: when its load starts, when it is cancelled, what its requests
  meet, and what the rest of the world does to the backend while the load runs.
\<close>

record 's job_env =
  je_start :: int
  je_cancel :: "int option"
  je_scripts :: "nat \<Rightarrow> attempt list"
  je_meanwhile :: "'s \<Rightarrow> 's"

definition handleMessage ::
  "go_lib \<Rightarrow> (int \<Rightarrow> 's \<Rightarrow> ('e + shard_assignment option) \<times> 's)
    \<Rightarrow> (int \<Rightarrow> 's \<Rightarrow> ('e + shard_assignment option) \<times> 's)
    \<Rightarrow> (int \<Rightarrow> complete_shard_request \<Rightarrow> 's \<Rightarrow> ('e + unit) \<times> 's) \<Rightarrow> 's job_env
    \<Rightarrow> bool \<Rightarrow> message \<Rightarrow> 's \<Rightarrow> ('s \<times> command list) option" where
  "handleMessage lib start takeover report env reclaimed msg s =
     (case claim_job start takeover reclaimed msg s of
        (Discard, s1) \<Rightarrow> Some (s1, ack (msg_ID msg))
      | (Retry, s1) \<Rightarrow> Some (s1, [])
      | (Work a, s1) \<Rightarrow>
          (case executeShard lib (je_start env) (je_cancel env) (je_scripts env) a of
             None \<Rightarrow> None
           | Some result \<Rightarrow>
               (case report_job report a result (je_meanwhile env s1) of
                  (Discard, s2) \<Rightarrow> Some (s2, ack (msg_ID msg))
                | (_, s2) \<Rightarrow> Some (s2, []))))"

subsection \<open>Dead letters and reclaiming\<close>

text \<open>
  \<open>found\<close> is what \<^verbatim>\<open>XRANGE\<close> yields for the message, \<open>None\<close> if it fails. Go's \<^verbatim>\<open>ParseInt\<close> has a
  value even when it has an error.
\<close>

definition dead_shard :: "message list option \<Rightarrow> int" where
  "dead_shard found =
     (case found of
        Some [m] \<Rightarrow> (case map_of (msg_Values m) ''shard_id'' of
                       Some s \<Rightarrow> fst (ParseInt s) | None \<Rightarrow> 0)
      | _ \<Rightarrow> 0)"

definition dead_reason :: string where
  "dead_reason = ''dead-lettered after too many delivery attempts''"

definition deadLetter ::
  "(int \<Rightarrow> string \<Rightarrow> 's \<Rightarrow> ('e + unit) \<times> 's) \<Rightarrow> message list option \<Rightarrow> string \<Rightarrow> int \<Rightarrow> 's
    \<Rightarrow> 's \<times> command list" where
  "deadLetter fail found msgID deliveries s =
     (let shardID = dead_shard found;
          s' = (if 0 < shardID then snd (fail shardID dead_reason s) else s)
      in (s', XAdd_dead shardID msgID deliveries # ack msgID))"

text \<open>
  One pass over the idle messages. \<open>dead\<close> is \<open>deadLetter\<close> for an entry, \<open>xclaim\<close> the answer to
  its XCLAIM (\<open>None\<close> if it fails), \<open>handle\<close> is \<open>handleMessage\<close> with \<open>reclaimed\<close> set.
\<close>

fun handle_all ::
  "(message \<Rightarrow> 's \<Rightarrow> ('s \<times> command list) option) \<Rightarrow> message list \<Rightarrow> 's \<Rightarrow> ('s \<times> command list) option" where
  "handle_all handle [] s = Some (s, [])"
| "handle_all handle (m # ms) s =
     (case handle m s of
        None \<Rightarrow> None
      | Some (s', cs) \<Rightarrow> map_option (\<lambda>(s'', cs'). (s'', cs @ cs')) (handle_all handle ms s'))"

fun reclaim_loop ::
  "int \<Rightarrow> (pending \<Rightarrow> 's \<Rightarrow> 's \<times> command list) \<Rightarrow> (pending \<Rightarrow> message list option)
    \<Rightarrow> (message \<Rightarrow> 's \<Rightarrow> ('s \<times> command list) option) \<Rightarrow> pending list \<Rightarrow> 's \<Rightarrow> ('s \<times> command list) option" where
  "reclaim_loop maxDeliveries dead xclaim handle [] s = Some (s, [])"
| "reclaim_loop maxDeliveries dead xclaim handle (p # ps) s =
     (case (if maxDeliveries < p_RetryCount p then Some (dead p s)
            else case xclaim p of
                   None \<Rightarrow> Some (s, [])
                 | Some ms \<Rightarrow> handle_all handle ms s) of
        None \<Rightarrow> None
      | Some (s', cs) \<Rightarrow>
          map_option (\<lambda>(s'', cs'). (s'', cs @ cs')) (reclaim_loop maxDeliveries dead xclaim handle ps s'))"

definition reclaimStuck ::
  "int \<Rightarrow> (pending \<Rightarrow> 's \<Rightarrow> 's \<times> command list) \<Rightarrow> (pending \<Rightarrow> message list option)
    \<Rightarrow> (message \<Rightarrow> 's \<Rightarrow> ('s \<times> command list) option) \<Rightarrow> pending list option \<Rightarrow> 's \<Rightarrow> ('s \<times> command list) option" where
  "reclaimStuck maxDeliveries dead xclaim handle scan s =
     (case scan of None \<Rightarrow> Some (s, []) | Some ps \<Rightarrow> reclaim_loop maxDeliveries dead xclaim handle ps s)"

subsection \<open>Background loops\<close>

text \<open>
  Both loops wait on a ticker. It panics unless its interval is positive; it fires at the
  multiples of the interval after \<open>t0\<close>, and a receiver that comes late finds one tick waiting
  and no more: \<open>next_tick\<close> is the next tick to be received after one was received at \<open>t\<close>.
\<close>

definition next_tick :: "int \<Rightarrow> int \<Rightarrow> int \<Rightarrow> int" where
  "next_tick t0 interval t = t0 + interval * ((t - t0) div interval + 1)"

text \<open>
  \<open>heartbeat\<close>: at each tick an XCLAIM, from the time it is sent to the time it is answered,
  until the job is over. The script says how long each takes and whether it succeeds; a failure
  is only logged. The result lists the calls: when each was sent, when it was answered, and
  whether it renewed the claim.
\<close>

fun heartbeat_loop ::
  "int \<Rightarrow> int \<Rightarrow> int \<Rightarrow> int \<Rightarrow> int \<Rightarrow> (nat \<times> bool) list \<Rightarrow> (int \<times> int \<times> bool) list option" where
  "heartbeat_loop t0 interval over now tick takes =
     (let t = max now tick
      in if over \<le> t then Some []
         else case takes of
                [] \<Rightarrow> None
              | (x, ok) # rest \<Rightarrow>
                  map_option ((#) (t, t + int x, ok))
                    (heartbeat_loop t0 interval over (t + int x) (next_tick t0 interval t) rest))"

definition heartbeat :: "int \<Rightarrow> int \<Rightarrow> int \<Rightarrow> (nat \<times> bool) list \<Rightarrow> (string + (int \<times> int \<times> bool) list) option" where
  "heartbeat t0 interval over takes =
     (if interval \<le> 0 then Some (Inl ''non-positive interval for NewTicker'')
      else map_option Inr (heartbeat_loop t0 interval over t0 (t0 + interval) takes))"

text \<open>
  \<open>watchCancel\<close>: at each tick a status poll. \<open>status\<close> is the run's status at a time; the script
  says how long each poll takes and whether it is answered. The result is when the load was
  cancelled, if it was.
\<close>

fun watch_loop ::
  "int \<Rightarrow> int \<Rightarrow> int \<Rightarrow> (int \<Rightarrow> string) \<Rightarrow> int \<Rightarrow> int \<Rightarrow> (nat \<times> bool) list \<Rightarrow> int option option" where
  "watch_loop t0 interval over status now tick takes =
     (let t = max now tick
      in if over \<le> t then Some None
         else case takes of
                [] \<Rightarrow> None
              | (x, ok) # rest \<Rightarrow>
                  (if ok \<and> (status t = ''cancelling'' \<or> status t = ''cancelled'')
                   then Some (Some (t + int x))
                   else watch_loop t0 interval over status (t + int x) (next_tick t0 interval t) rest))"

definition watchCancel ::
  "int \<Rightarrow> int \<Rightarrow> int \<Rightarrow> (int \<Rightarrow> string) \<Rightarrow> (nat \<times> bool) list \<Rightarrow> (string + int option) option" where
  "watchCancel t0 interval over status takes =
     (if interval \<le> 0 then Some (Inl ''non-positive interval for NewTicker'')
      else map_option Inr (watch_loop t0 interval over status t0 (t0 + interval) takes))"

declare heartbeat_loop.simps [simp del] watch_loop.simps [simp del]

end
