(* ===== verification/Sharded_Result.thy ===== *)
theory Sharded_Result
  imports Worker_Job
begin

section \<open>A sharded run measures what one worker would have measured\<close>

text \<open>
  The way of the numbers from the virtual users to the row of the run: each shard's worker
  merges its users' tallies (\<open>mergeStats\<close>) and reports them (\<open>report_completed\<close>), the store
  keeps the report in the shard's row (\<open>CompleteShard\<close>), and the last report aggregates the
  rows into the run. The counts, the extremes and the percentiles of the run are those of one
  \<open>mergeStats\<close> over all the virtual users of all the shards; the average is within rounding of
  the exact mean.
\<close>

subsection \<open>Shards and their measurements\<close>

text \<open>The result of a worker whose virtual users made the observations \<open>obss\<close>.\<close>

definition worker_result :: "observation list list \<Rightarrow> run_result" where
  "worker_result obss = mergeStats (map (foldl record_obs vu_zero) obss)"

definition measured :: "observation list list \<Rightarrow> shard_row \<Rightarrow> bool" where
  "measured obss s \<longleftrightarrow>
     (\<exists>now s0. s = set_shard_outcome now Completed (report_completed (worker_result obss)) s0)"

definition few :: "observation list list \<Rightarrow> bool" where
  "few obss \<longleftrightarrow> int (length (concat obss)) \<le> 2 ^ 45"

abbreviation lats :: "observation list list \<Rightarrow> float64 list" where
  "lats obss \<equiv> latencies (concat obss)"

lemma worker_result_fields:
  assumes "few obss"
  shows "res_TotalRequests (worker_result obss) = int (length (concat obss))"
    "res_SuccessfulRequests (worker_result obss) = int (successes (concat obss))"
    "res_FailedRequests (worker_result obss) = int (length (concat obss)) - int (successes (concat obss))"
    "res_LatencyCount (worker_result obss) = int (length (lats obss))"
    "res_MinLatencyMs (worker_result obss) = least (lats obss)"
    "res_MaxLatencyMs (worker_result obss) = greatest (lats obss)"
    "res_P50LatencyMs (worker_result obss) = percentile (hist (lats obss)) (fl64 (50 / 100))"
    "res_P95LatencyMs (worker_result obss) = percentile (hist (lats obss)) (fl64 (95 / 100))"
    "res_P99LatencyMs (worker_result obss) = percentile (hist (lats obss)) (fl64 (99 / 100))"
    "res_LatencyBuckets (worker_result obss) = hist (lats obss)"
proof -
  have lt: "int (length (concat obss)) < 2 ^ 63" using assms by (simp add: few_def)
  have eq: "worker_result obss = mergeStats (map stats_of obss)"
    by (simp add: worker_result_def record_all_map [OF lt])
  note eq = eq [unfolded mergeStats_stats_of [OF lt]]
  show "res_TotalRequests (worker_result obss) = int (length (concat obss))"
    "res_SuccessfulRequests (worker_result obss) = int (successes (concat obss))"
    "res_FailedRequests (worker_result obss) = int (length (concat obss)) - int (successes (concat obss))"
    "res_LatencyCount (worker_result obss) = int (length (lats obss))"
    "res_MinLatencyMs (worker_result obss) = least (lats obss)"
    "res_MaxLatencyMs (worker_result obss) = greatest (lats obss)"
    "res_P50LatencyMs (worker_result obss) = percentile (hist (lats obss)) (fl64 (50 / 100))"
    "res_P95LatencyMs (worker_result obss) = percentile (hist (lats obss)) (fl64 (95 / 100))"
    "res_P99LatencyMs (worker_result obss) = percentile (hist (lats obss)) (fl64 (99 / 100))"
    "res_LatencyBuckets (worker_result obss) = hist (lats obss)"
    unfolding eq by simp_all
qed

lemma hist_not_Nil: "hist xs \<noteq> []"
  using length_hist [of xs] by (metis length_0_conv numeral_eq_Suc nat.distinct(1))

lemma measured_columns:
  assumes "measured obss s" and "few obss"
  shows "sh_status s = Completed" "sh_total_requests s = Some (int (length (concat obss)))"
    "sh_successful_requests s = Some (int (successes (concat obss)))"
    "sh_failed_requests s = Some (int (length (concat obss)) - int (successes (concat obss)))"
    "sh_latency_count s = Some (int (length (lats obss)))"
    "sh_avg_latency_ms s = Some (res_AvgLatencyMs (worker_result obss))"
    "sh_min_latency_ms s = Some (least (lats obss))" "sh_max_latency_ms s = Some (greatest (lats obss))"
    "sh_latency_buckets s = Some (hist (lats obss))"
  using assms(1) worker_result_fields [OF assms(2)] hist_not_Nil
  by (auto simp: measured_def set_shard_outcome_def report_completed_def)

subsection \<open>Sums, extremes and histograms of lists of lists\<close>

lemma latencies_concat: "latencies (concat obs) = concat (map latencies obs)"
  by (induction obs) auto

lemma successes_concat: "successes (concat obs) = (\<Sum>x\<leftarrow>obs. successes x)"
  by (induction obs) auto

lemma min_of_mins:
  assumes "filter (\<lambda>l. l \<noteq> []) lss \<noteq> []"
  shows "Min (least ` set (filter (\<lambda>l. l \<noteq> []) lss)) = least (concat lss)"
proof -
  let ?lss = "filter (\<lambda>l. l \<noteq> []) lss"
  have mem: "least l \<in> set (concat lss)" if "l \<in> set ?lss" for l
  proof -
    have "l \<in> set lss" "least l \<in> set l" using that Min_in [of "set l"] by (auto simp: least_def)
    then show ?thesis by auto
  qed
  have ne: "concat lss \<noteq> []" using assms by (auto simp: filter_empty_conv)
  have "Min (set (concat lss)) = Min (least ` set ?lss)"
  proof (rule Min_eqI)
    fix x assume "x \<in> set (concat lss)"
    then obtain l where "l \<in> set lss" "x \<in> set l" by auto
    then have l: "l \<in> set ?lss" "x \<in> set l" by auto
    then have "Min (least ` set ?lss) \<le> least l" by (intro Min_le) auto
    also have "least l \<le> x" using l by (auto simp: least_def)
    finally show "Min (least ` set ?lss) \<le> x" .
  next
    have "Min (least ` set ?lss) \<in> least ` set ?lss" using assms by (intro Min_in) (auto simp: filter_empty_conv)
    then show "Min (least ` set ?lss) \<in> set (concat lss)" using mem by auto
  qed simp
  moreover have "least (concat lss) = Min (set (concat lss))" using ne unfolding least_def by (simp only: if_False)
  ultimately show ?thesis by (simp only:)
qed

lemma max_of_maxs:
  assumes "filter (\<lambda>l. l \<noteq> []) lss \<noteq> []"
  shows "Max (greatest ` set (filter (\<lambda>l. l \<noteq> []) lss)) = greatest (concat lss)"
proof -
  let ?lss = "filter (\<lambda>l. l \<noteq> []) lss"
  have mem: "greatest l \<in> set (concat lss)" if "l \<in> set ?lss" for l
  proof -
    have "l \<in> set lss" "greatest l \<in> set l" using that Max_in [of "set l"] by (auto simp: greatest_def)
    then show ?thesis by auto
  qed
  have ne: "concat lss \<noteq> []" using assms by (auto simp: filter_empty_conv)
  have "Max (set (concat lss)) = Max (greatest ` set ?lss)"
  proof (rule Max_eqI)
    fix x assume "x \<in> set (concat lss)"
    then obtain l where "l \<in> set lss" "x \<in> set l" by auto
    then have l: "l \<in> set ?lss" "x \<in> set l" by auto
    then have "x \<le> greatest l" by (auto simp: greatest_def)
    also have "greatest l \<le> Max (greatest ` set ?lss)" using l(1) by (intro Max_ge) auto
    finally show "x \<le> Max (greatest ` set ?lss)" .
  next
    have "Max (greatest ` set ?lss) \<in> greatest ` set ?lss" using assms by (intro Max_in) (auto simp: filter_empty_conv)
    then show "Max (greatest ` set ?lss) \<in> set (concat lss)" using mem by auto
  qed simp
  moreover have "greatest (concat lss) = Max (set (concat lss))" using ne unfolding greatest_def by (simp only: if_False)
  ultimately show ?thesis by (simp only:)
qed

lemma sql_min_Some: "sql_min (map (\<lambda>x. Some (f x)) xs) = (if xs = [] then None else Some (Min (f ` set xs)))"
  by (cases xs) (simp_all add: sql_min_def foldl_min_Min)

lemma sql_max_Some: "sql_max (map (\<lambda>x. Some (f x)) xs) = (if xs = [] then None else Some (Max (f ` set xs)))"
  by (cases xs) (simp_all add: sql_max_def foldl_max_Max)

text \<open>\<^verbatim>\<open>MIN\<close> and \<^verbatim>\<open>MAX\<close> over the shards that have samples.\<close>

lemma null_extremes:
  fixes ls :: "'a \<Rightarrow> float64 list"
  shows "null_float (sql_min (map (\<lambda>s. Some (least (ls s))) (filter (\<lambda>s. ls s \<noteq> []) ss))) = least (concat (map ls ss))"
    and "null_float (sql_max (map (\<lambda>s. Some (greatest (ls s))) (filter (\<lambda>s. ls s \<noteq> []) ss))) = greatest (concat (map ls ss))"
proof -
  have f: "filter (\<lambda>l. l \<noteq> []) (map ls ss) = map ls (filter (\<lambda>s. ls s \<noteq> []) ss)"
    by (simp add: filter_map comp_def)
  have e: "filter (\<lambda>s. ls s \<noteq> []) ss = [] \<longleftrightarrow> concat (map ls ss) = []" by (auto simp: filter_empty_conv)
  note mins = min_of_mins [of "map ls ss", unfolded f, unfolded set_map image_image]
  note maxs = max_of_maxs [of "map ls ss", unfolded f, unfolded set_map image_image]
  show "null_float (sql_min (map (\<lambda>s. Some (least (ls s))) (filter (\<lambda>s. ls s \<noteq> []) ss))) = least (concat (map ls ss))"
  proof (cases "filter (\<lambda>s. ls s \<noteq> []) ss = []")
    case True
    then show ?thesis using e by (simp add: sql_min_def null_float_def least_def)
  next
    case False
    then show ?thesis using mins by (simp add: sql_min_Some null_float_def)
  qed
  show "null_float (sql_max (map (\<lambda>s. Some (greatest (ls s))) (filter (\<lambda>s. ls s \<noteq> []) ss))) = greatest (concat (map ls ss))"
  proof (cases "filter (\<lambda>s. ls s \<noteq> []) ss = []")
    case True
    then show ?thesis using e by (simp add: sql_max_def null_float_def greatest_def)
  next
    case False
    then show ?thesis using maxs by (simp add: sql_max_Some null_float_def)
  qed
qed

subsection \<open>The aggregate of measured shards\<close>

text \<open>All the observations of the run, user by user.\<close>

definition all_users :: "(shard_row \<Rightarrow> observation list list) \<Rightarrow> shard_row list \<Rightarrow> observation list list" where
  "all_users obs ss = concat (map obs ss)"

lemma concat_all_users: "concat (all_users obs ss) = concat (map (\<lambda>s. concat (obs s)) ss)"
  by (induction ss) (simp_all add: all_users_def)

lemma lats_all_users: "lats (all_users obs ss) = concat (map (\<lambda>s. lats (obs s)) ss)"
  by (simp add: concat_all_users latencies_concat comp_def)

lemma few_each:
  assumes "few (all_users obs ss)" and "s \<in> set ss"
  shows "few (obs s)"
proof -
  have "length (concat (obs s)) \<le> length (concat (all_users obs ss))"
    using assms(2) unfolding concat_all_users by (induction ss) auto
  then show ?thesis using assms(1) by (simp add: few_def)
qed

lemma sum_of_lengths: "int (length (concat (map f ss))) = (\<Sum>s\<leftarrow>ss. int (length (f s)))"
  by (induction ss) auto

lemma sum_of_successes: "int (successes (concat (map f ss))) = (\<Sum>s\<leftarrow>ss. int (successes (f s)))"
  by (induction ss) auto

lemma column_sum:
  assumes "\<And>s. s \<in> set ss \<Longrightarrow> col s = Some (f s)"
  shows "sql_sum (map col ss) = (\<Sum>s\<leftarrow>ss. f s)"
proof -
  have "map col ss = map (\<lambda>s. Some (f s)) ss" using assms by simp
  then show ?thesis unfolding sql_sum_def by (simp only: not_null_map_Some)
qed

lemma aggregate_measured:
  fixes now cur r
  assumes shards: "\<And>s. s \<in> set ss \<Longrightarrow> measured (obs s) s" and few: "few (all_users obs ss)"
  defines "one \<equiv> worker_result (all_users obs ss)" and "r' \<equiv> set_aggregate now cur ss r"
  shows "tr_TotalRequests r' = Some (res_TotalRequests one)"
    "tr_SuccessfulRequests r' = Some (res_SuccessfulRequests one)"
    "tr_FailedRequests r' = Some (res_FailedRequests one)"
    "tr_MinLatencyMs r' = Some (res_MinLatencyMs one)" "tr_MaxLatencyMs r' = Some (res_MaxLatencyMs one)"
    "tr_P50LatencyMs r' = Some (res_P50LatencyMs one)" "tr_P95LatencyMs r' = Some (res_P95LatencyMs one)"
    "tr_P99LatencyMs r' = Some (res_P99LatencyMs one)"
    "tr_Status r' = (if cur = Cancelling then Cancelled else Completed)"
    "sql_sum (map sh_latency_count ss) = res_LatencyCount one" "sums_fit ss"
proof -
  note col = measured_columns [OF shards few_each [OF few]]
  note one = worker_result_fields [OF few, folded one_def]
  let ?ls = "\<lambda>s. lats (obs s)"
  have total: "sql_sum (map sh_total_requests ss) = res_TotalRequests one"
    using column_sum [of ss sh_total_requests, OF col(2)] by (simp add: one concat_all_users sum_of_lengths)
  have succ: "sql_sum (map sh_successful_requests ss) = res_SuccessfulRequests one"
    using column_sum [of ss sh_successful_requests, OF col(3)] by (simp add: one concat_all_users sum_of_successes)
  have "sql_sum (map sh_failed_requests ss) =
      (\<Sum>s\<leftarrow>ss. int (length (concat (obs s))) - int (successes (concat (obs s))))"
    using column_sum [of ss sh_failed_requests, OF col(4)] by simp
  then have fail: "sql_sum (map sh_failed_requests ss) = res_FailedRequests one"
    by (simp add: one concat_all_users sum_of_lengths sum_of_successes sum_list_subtractf)
  have cnt: "sql_sum (map sh_latency_count ss) = res_LatencyCount one"
    using column_sum [of ss sh_latency_count, OF col(5)] by (simp add: one lats_all_users sum_of_lengths)
  then show "sql_sum (map sh_latency_count ss) = res_LatencyCount one" .
  have sampled: "filter has_samples ss = filter (\<lambda>s. ?ls s \<noteq> []) ss"
    by (rule filter_cong) (simp_all add: has_samples_def col(5))
  have "map sh_min_latency_ms (filter has_samples ss) = map (\<lambda>s. Some (least (?ls s))) (filter (\<lambda>s. ?ls s \<noteq> []) ss)"
    unfolding sampled using col(7) by simp
  then have mn: "null_float (sql_min (map sh_min_latency_ms (filter has_samples ss))) = res_MinLatencyMs one"
    using null_extremes(1) [of ?ls ss] by (simp only: one lats_all_users)
  have "map sh_max_latency_ms (filter has_samples ss) = map (\<lambda>s. Some (greatest (?ls s))) (filter (\<lambda>s. ?ls s \<noteq> []) ss)"
    unfolding sampled using col(8) by simp
  then have mx: "null_float (sql_max (map sh_max_latency_ms (filter has_samples ss))) = res_MaxLatencyMs one"
    using null_extremes(2) [of ?ls ss] by (simp only: one lats_all_users)
  have "map sh_latency_buckets ss = map (\<lambda>s. Some (hist (?ls s))) ss" using col(9) by simp
  then have "not_null (map sh_latency_buckets ss) = map hist (map ?ls ss)" by (simp only: not_null_map_Some map_map comp_def)
  moreover have "int (length (concat (map ?ls ss))) < 2 ^ 63"
  proof -
    have "int (length (lats (all_users obs ss))) \<le> 2 ^ 45"
      using few latencies_le [of "concat (all_users obs ss)"] unfolding few_def by linarith
    then show ?thesis unfolding lats_all_users by simp
  qed
  ultimately have merged: "mergeBuckets (not_null (map sh_latency_buckets ss)) = hist (lats (all_users obs ss))"
    using mergeBuckets_hist [of "map ?ls ss"] by (simp only: lats_all_users)
  have pct: "runPercentiles ss = (res_P50LatencyMs one, res_P95LatencyMs one, res_P99LatencyMs one)"
    unfolding runPercentiles_def merged one Let_def percentiles_agree ..
  have none: "filter (\<lambda>s. sh_status s = Failed) ss = []" using col(1) by (auto simp: filter_empty_conv)
  show "tr_TotalRequests r' = Some (res_TotalRequests one)"
    "tr_SuccessfulRequests r' = Some (res_SuccessfulRequests one)"
    "tr_FailedRequests r' = Some (res_FailedRequests one)"
    "tr_MinLatencyMs r' = Some (res_MinLatencyMs one)" "tr_MaxLatencyMs r' = Some (res_MaxLatencyMs one)"
    "tr_P50LatencyMs r' = Some (res_P50LatencyMs one)" "tr_P95LatencyMs r' = Some (res_P95LatencyMs one)"
    "tr_P99LatencyMs r' = Some (res_P99LatencyMs one)"
    "tr_Status r' = (if cur = Cancelling then Cancelled else Completed)"
    unfolding r'_def set_aggregate_def pct total succ fail mn mx none Let_def by (simp_all add: final_status_def)
  have "int (successes (concat (all_users obs ss))) \<le> int (length (concat (all_users obs ss)))"
    "int (length (lats (all_users obs ss))) \<le> int (length (concat (all_users obs ss)))"
    using successes_le latencies_le by simp_all
  then show "sums_fit ss" using few unfolding sums_fit_def total succ fail cnt one few_def int64_ok_def
    by (auto intro: order.strict_trans1)
qed

subsection \<open>The average\<close>

lemma fl64_count:
  assumes "few obss"
  shows "fl64 (of_int (int (length (lats obss)))) = of_nat (length (lats obss))"
proof -
  have "int (length (lats obss)) \<le> 2 ^ 45"
    using assms latencies_le [of "concat obss"] unfolding few_def by linarith
  then show ?thesis using fl64_int [of "int (length (lats obss))"] by simp
qed

text \<open>A shard's average times its count, as the aggregation computes it.\<close>

lemma weighted_shard:
  assumes "measured obss s" and "few obss" and nonneg: "\<forall>l \<in> set (lats obss). 0 \<le> l"
    and "length obss \<le> v" and n: "\<forall>obs \<in> set obss. length (latencies obs) \<le> n"
  defines "S \<equiv> sum_list (lats obss)" and "k \<equiv> n + v + 2"
  obtains w where "weighted_latency s = Some w" "0 \<le> w" "S * (1 - pow2 (- 53)) ^ k \<le> w" "w \<le> S * (1 + pow2 (- 53)) ^ k"
proof -
  let ?u = "pow2 (- 53)" and ?m = "of_nat (length (lats obss)) :: rat"
  let ?avg = "res_AvgLatencyMs (worker_result obss)" and ?w = "fl64 (res_AvgLatencyMs (worker_result obss) * of_nat (length (lats obss)))"
  have w: "weighted_latency s = Some ?w"
    using measured_columns(5,6) [OF assms(1,2)] fl64_count [OF assms(2)] by (simp add: weighted_latency_def)
  note avg = average_times_count [OF assms(2) [unfolded few_def] nonneg n, folded worker_result_def, folded S_def]
  have u: "0 \<le> (1 - ?u)" "1 - ?u \<le> 1" "1 \<le> (1 + ?u)" using fl64_sums.u_bounds by auto
  have S: "0 \<le> S" unfolding S_def using nonneg by (auto intro: sum_list_nonneg)
  have "(1 - ?u) ^ (n + v + 1) \<le> (1 - ?u) ^ (n + length obss + 1)"
    using assms(4) u by (intro power_decreasing) auto
  then have lo: "S * (1 - ?u) ^ (n + v + 1) \<le> ?avg * ?m" using avg(2) mult_left_mono [OF _ S] by fastforce
  have "(1 + ?u) ^ (n + length obss + 1) \<le> (1 + ?u) ^ (n + v + 1)"
    using assms(4) u by (intro power_increasing) auto
  then have hi: "?avg * ?m \<le> S * (1 + ?u) ^ (n + v + 1)" using avg(3) mult_left_mono [OF _ S] by fastforce
  have q: "0 \<le> ?avg * ?m" using avg(1) by simp
  have "S * (1 - ?u) ^ k \<le> ?avg * ?m * (1 - ?u)"
    using mult_right_mono [OF lo u(1)] by (simp add: k_def ac_simps)
  also have "\<dots> \<le> ?w" using fl64_rel [OF q] by simp
  finally have "S * (1 - ?u) ^ k \<le> ?w" .
  moreover have "?w \<le> ?avg * ?m * (1 + ?u)" using fl64_rel [OF q] by simp
  moreover have "?avg * ?m * (1 + ?u) \<le> S * (1 + ?u) ^ k"
    using mult_right_mono [OF hi, of "1 + ?u"] u by (simp add: k_def ac_simps)
  moreover have "0 \<le> ?w" using fl64_sums.fl_pos [OF q] .
  ultimately show thesis using that [OF w] by linarith
qed

lemma aggregate_average:
  fixes now cur r n v
  assumes shards: "\<And>s. s \<in> set ss \<Longrightarrow> measured (obs s) s" and few: "few (all_users obs ss)"
    and nonneg: "\<forall>l \<in> set (lats (all_users obs ss)). 0 \<le> l"
    and v: "\<forall>s \<in> set ss. length (obs s) \<le> v"
    and n: "\<forall>s \<in> set ss. \<forall>ob \<in> set (obs s). length (latencies ob) \<le> n"
  defines "S \<equiv> sum_list (lats (all_users obs ss))" and "m \<equiv> of_nat (length (lats (all_users obs ss)))"
    and "k \<equiv> n + v + length ss + 3"
  obtains avg where "tr_AvgLatencyMs (set_aggregate now cur ss r) = Some avg"
    "S * (1 - pow2 (- 53)) ^ k \<le> avg * m" "avg * m \<le> S * (1 + pow2 (- 53)) ^ k"
proof -
  let ?u = "pow2 (- 53)"
  define w where "w s = the (weighted_latency s)" for s
  have each: "weighted_latency s = Some (w s) \<and> 0 \<le> w s \<and> sum_list (lats (obs s)) * (1 - ?u) ^ (n + v + 2) \<le> w s \<and>
      w s \<le> sum_list (lats (obs s)) * (1 + ?u) ^ (n + v + 2)" if s: "s \<in> set ss" for s
  proof -
    have "\<forall>l \<in> set (lats (obs s)). 0 \<le> l" using nonneg s by (auto simp: lats_all_users)
    from weighted_shard [OF shards [OF s] few_each [OF few s] this] v n s show ?thesis
      unfolding w_def by (metis option.sel)
  qed
  have "map weighted_latency ss = map (\<lambda>s. Some (w s)) ss" using each by simp
  then have W: "sum_float (map weighted_latency ss) = foldl (\<lambda>s x. fl64 (s + x)) 0 (map w ss)" (is "_ = ?W")
    unfolding sum_float_def by (simp only: not_null_map_Some)
  have sum: "(\<Sum>s\<leftarrow>ss. sum_list (lats (obs s))) = S" unfolding S_def lats_all_users by (induction ss) simp_all
  have bounds: "S * (1 - ?u) ^ (n + v + 2 + length ss) \<le> ?W" "?W \<le> S * (1 + ?u) ^ (n + v + 2 + length ss)"
    using fl64_sums.sum_of_close [of ss w "\<lambda>s. sum_list (lats (obs s))" "n + v + 2"] each unfolding sum by blast+
  have cnt: "sql_sum (map sh_latency_count ss) = int (length (lats (all_users obs ss)))"
    using aggregate_measured(10) [OF shards few] worker_result_fields(4) [OF few] by simp
  have m: "fl64 (of_int (sql_sum (map sh_latency_count ss))) = m"
    unfolding cnt m_def by (rule fl64_count [OF few])
  have u: "0 \<le> (1 - ?u)" "0 \<le> (1 + ?u)" using fl64_sums.u_bounds by auto
  have S: "0 \<le> S" unfolding S_def using nonneg by (auto intro: sum_list_nonneg)
  let ?avg = "if lats (all_users obs ss) = [] then 0 else fl64 (?W / m)"
  have avg: "tr_AvgLatencyMs (set_aggregate now cur ss r) = Some ?avg"
    unfolding set_aggregate_def Let_def W m by (simp add: cnt split: prod.splits)
  show thesis
  proof (cases "lats (all_users obs ss) = []")
    case True
    then show thesis using that [OF avg] by (simp add: S_def m_def)
  next
    case False
    then have pos: "0 < m" by (simp add: m_def)
    have "0 \<le> S * (1 - ?u) ^ (n + v + 2 + length ss)" using S u by simp
    then have q: "0 \<le> ?W / m" using bounds(1) pos by (intro divide_nonneg_pos) auto
    have rel: "?W / m * (1 - ?u) \<le> fl64 (?W / m)" "fl64 (?W / m) \<le> ?W / m * (1 + ?u)"
      using fl64_rel [OF q] by simp_all
    have "S * (1 - ?u) ^ k \<le> ?W * (1 - ?u)"
      using mult_right_mono [OF bounds(1) u(1)] by (simp add: k_def ac_simps numeral_3_eq_3)
    moreover have "?W * (1 - ?u) \<le> fl64 (?W / m) * m" using mult_right_mono [OF rel(1), of m] pos by simp
    moreover have "fl64 (?W / m) * m \<le> ?W * (1 + ?u)" using mult_right_mono [OF rel(2), of m] pos by simp
    moreover have "?W * (1 + ?u) \<le> S * (1 + ?u) ^ k"
      using mult_right_mono [OF bounds(2) u(2)] by (simp add: k_def ac_simps numeral_3_eq_3)
    ultimately show thesis using that [OF avg] False by simp
  qed
qed

subsection \<open>The last report\<close>

text \<open>
  \<open>i\<close> is the last shard of its run to report, and the others reported what their users
  observed; \<open>obs\<close> gives the observations of a shard by its id.
\<close>

definition last_report :: "(int \<Rightarrow> observation list list) \<Rightarrow> int \<Rightarrow> int \<Rightarrow> run_status \<Rightarrow> db \<Rightarrow> bool" where
  "last_report obs i k cur d \<longleftrightarrow>
     wf_db d \<and> last_shard i d \<and> cur \<in> {Running, Cancelling} \<and>
     (\<exists>s. find_shard i d = Some s \<and> sh_status s = Running \<and> sh_run_id s = k) \<and>
     (\<exists>r. find_run k d = Some r \<and> tr_Status r = cur) \<and>
     (\<forall>s \<in> set (shards_of k d). sh_id s \<noteq> i \<longrightarrow> measured (obs (sh_id s)) s) \<and>
     few (all_users (obs \<circ> sh_id) (shards_of k d))"

lemma last_report_aggregates:
  assumes "last_report obs i k cur d"
  obtains r ss where "CompleteShard now i (report_completed (worker_result (obs i))) d =
      (Inr (), snd (CompleteShard now i (report_completed (worker_result (obs i))) d))"
    and "find_run k (snd (CompleteShard now i (report_completed (worker_result (obs i))) d)) =
      Some (set_aggregate now cur ss r)"
    and "\<And>s. s \<in> set ss \<Longrightarrow> measured ((obs \<circ> sh_id) s) s"
    and "all_users (obs \<circ> sh_id) ss = all_users (obs \<circ> sh_id) (shards_of k d)"
    and "map sh_id ss = map sh_id (shards_of k d)"
proof -
  let ?req = "report_completed (worker_result (obs i))"
  let ?ss = "shards_of k (reported now i Completed ?req d)"
  have wf: "wf_db d" and last: "last_shard i d" and cur: "cur \<in> {Running, Cancelling}"
    and others: "\<forall>s \<in> set (shards_of k d). sh_id s \<noteq> i \<longrightarrow> measured (obs (sh_id s)) s"
    and few: "few (all_users (obs \<circ> sh_id) (shards_of k d))"
    using assms by (simp_all add: last_report_def)
  obtain s where s: "find_shard i d = Some s" "sh_status s = Running" "sh_run_id s = k"
    using assms by (auto simp: last_report_def)
  obtain r where r: "find_run k d = Some r" "tr_Status r = cur" using assms by (auto simp: last_report_def)
  have ids: "map sh_id ?ss = map sh_id (shards_of k d)"
    unfolding shards_of_reported by (rule map_upd_where) (simp add: set_shard_outcome_def)
  then have users: "all_users (obs \<circ> sh_id) ?ss = all_users (obs \<circ> sh_id) (shards_of k d)"
    unfolding all_users_def by (metis map_map)
  have meas: "measured ((obs \<circ> sh_id) s') s'" if mem: "s' \<in> set ?ss" for s'
  proof -
    obtain s0 where s0: "s0 \<in> set (shards_of k d)"
      "s' = (if sh_id s0 = i \<and> sh_status s0 = Running then set_shard_outcome now Completed ?req s0 else s0)"
      using mem unfolding shards_of_reported upd_where_def set_map image_iff by blast
    show ?thesis
    proof (cases "sh_id s0 = i")
      case True
      then have "s0 = s" using wf_find_shard [OF wf, of s0] s(1) s0(1) by (simp add: set_shards_of)
      then have "s' = set_shard_outcome now Completed ?req s0" using s0(2) True s(2) by simp
      moreover from this have "sh_id s' = i" using True by (simp add: set_shard_outcome_def)
      ultimately show ?thesis by (auto simp: measured_def)
    next
      case False
      then show ?thesis using s0 others by simp
    qed
  qed
  have fits: "sums_fit ?ss" using aggregate_measured(11) [of ?ss "obs \<circ> sh_id", OF meas] few users by simp
  have req: "shard_status_of (cs_Status ?req) = Some Completed" "opt_ok (cs_ErrorMessage ?req)"
    by (simp_all add: report_completed_def shard_status_of_def parse_status_def opt_ok_def)
  have "tr_Status r \<in> {Running, Cancelling}" using r(2) cur by simp
  note last_one = CompleteShard_effect [OF wf s(1,2) _ this req(1) _ req(2), unfolded s(3), OF r(1) _ fits]
  show thesis
  proof (rule that)
    show "CompleteShard now i ?req d = (Inr (), snd (CompleteShard now i ?req d))"
      using last_one by (cases "CompleteShard now i ?req d") simp
    show "find_run k (snd (CompleteShard now i ?req d)) = Some (set_aggregate now cur ?ss r)"
      using last_one last r(2) by simp
  qed (use meas users ids in simp_all)
qed

subsection \<open>Properties\<close>

text \<open>
  C11: sharding does not change the result. When the last shard of a run reports, the run
  ends with the counts, the extremes and the percentiles that a single worker with all the
  virtual users of all the shards would have reported from the same observations.
\<close>

theorem sharded_run_result:
  assumes "last_report obs i k cur d"
  defines "one \<equiv> mergeStats (map (foldl record_obs vu_zero) (concat (map (obs \<circ> sh_id) (shards_of k d))))"
  shows "\<exists>d' r'. CompleteShard now i (report_completed (mergeStats (map (foldl record_obs vu_zero) (obs i)))) d = (Inr (), d') \<and>
    find_run k d' = Some r' \<and> tr_Status r' = (if cur = Cancelling then Cancelled else Completed) \<and>
    tr_TotalRequests r' = Some (res_TotalRequests one) \<and>
    tr_SuccessfulRequests r' = Some (res_SuccessfulRequests one) \<and>
    tr_FailedRequests r' = Some (res_FailedRequests one) \<and>
    tr_MinLatencyMs r' = Some (res_MinLatencyMs one) \<and> tr_MaxLatencyMs r' = Some (res_MaxLatencyMs one) \<and>
    tr_P50LatencyMs r' = Some (res_P50LatencyMs one) \<and> tr_P95LatencyMs r' = Some (res_P95LatencyMs one) \<and>
    tr_P99LatencyMs r' = Some (res_P99LatencyMs one)"
proof -
  obtain r ss where L: "CompleteShard now i (report_completed (worker_result (obs i))) d =
      (Inr (), snd (CompleteShard now i (report_completed (worker_result (obs i))) d))"
    "find_run k (snd (CompleteShard now i (report_completed (worker_result (obs i))) d)) = Some (set_aggregate now cur ss r)"
    "\<And>s. s \<in> set ss \<Longrightarrow> measured ((obs \<circ> sh_id) s) s"
    "all_users (obs \<circ> sh_id) ss = all_users (obs \<circ> sh_id) (shards_of k d)"
    "map sh_id ss = map sh_id (shards_of k d)"
    by (rule last_report_aggregates [OF assms(1), where now = now]) (rule that)
  have few: "few (all_users (obs \<circ> sh_id) ss)" using assms(1) L(4) by (simp add: last_report_def)
  have one: "one = worker_result (all_users (obs \<circ> sh_id) ss)"
    unfolding L(4) by (simp add: one_def worker_result_def all_users_def)
  show ?thesis
    using L(1,2) aggregate_measured(1-9) [OF L(3) few, of now cur r] unfolding one worker_result_def by blast
qed

text \<open>The sample run with both shards running and the first one reported.\<close>

definition sample_obs_of :: "int \<Rightarrow> observation list list" where
  "sample_obs_of i = (if i = 1 then [[Answered 3 True, No_answer]] else [[Answered 40 True, Answered 700 False]])"

definition sample_db3 :: db where
  "sample_db3 = run_calls [(3, CallStartShard 2),
     (4, CallCompleteShard 1 (report_completed (worker_result (sample_obs_of 1))))] sample_db"

lemma sample_db3_shards:
  obtains s1 s2 r where "db_shards sample_db3 =
       [set_shard_outcome 4 Completed (report_completed (worker_result (sample_obs_of 1))) s1, s2]"
    "sh_id s1 = 1" "sh_run_id s1 = 1" "sh_id s2 = 2" "sh_run_id s2 = 1" "sh_status s2 = Running"
    "db_runs sample_db3 = [r]" "tr_ID r = 1" "tr_Status r = Running" "wf_db sample_db3"
proof -
  let ?req = "report_completed (worker_result (sample_obs_of 1))" and ?d = "run_call 3 (CallStartShard 2) sample_db"
  have req: "opt_ok (cs_ErrorMessage ?req)" "shard_status_of (cs_Status ?req) = Some Completed"
    by (simp_all add: report_completed_def opt_ok_def shard_status_of_def parse_status_def)
  have wf: "wf_db ?d" by (rule run_call_wf [OF store_reach_wf [OF sample_reach(2)]])
  have "\<exists>s1 s2 r. db_shards ?d = [s1, s2] \<and> sh_id s1 = 1 \<and> sh_run_id s1 = 1 \<and> sh_status s1 = Running \<and>
      sh_id s2 = 2 \<and> sh_run_id s2 = 1 \<and> sh_status s2 = Running \<and> db_runs ?d = [r] \<and> tr_ID r = 1 \<and> tr_Status r = Running"
    by (simp add: sample_defs)
  then obtain s1 s2 r where d: "db_shards ?d = [s1, s2]" "sh_id s1 = 1" "sh_run_id s1 = 1" "sh_status s1 = Running"
    "sh_id s2 = 2" "sh_run_id s2 = 1" "sh_status s2 = Running" "db_runs ?d = [r]" "tr_ID r = 1" "tr_Status r = Running"
    by blast
  have f: "find_shard 1 ?d = Some s1" by (simp add: find_shard_def d del: run_call.simps)
  have "barrier 4 1 (reported 4 1 Completed ?req ?d) = Inr (reported 4 1 Completed ?req ?d)"
    by (simp add: barrier_def remaining_def shards_of_def reported_def upd_where_def d set_shard_outcome_def
        del: run_call.simps)
  then have eq: "sample_db3 = reported 4 1 Completed ?req ?d"
    using CompleteShard_barrier [OF wf f d(4) req(2,1), of 4] d(3)
    by (simp add: sample_db3_def del: run_call.simps(9))
  have "db_shards sample_db3 = [set_shard_outcome 4 Completed ?req s1, s2]" "db_runs sample_db3 = [r]"
    unfolding eq reported_def by (simp_all add: d upd_where_def del: run_call.simps)
  moreover have "wf_db sample_db3" unfolding eq by (rule wf_reported [OF wf]) (simp add: shard_status_ok_def)
  ultimately show thesis using d by (intro that [of s1 s2 r])
qed

lemma sample_db3_last: "last_report sample_obs_of 2 1 Running sample_db3"
proof -
  obtain s1 s2 r where d: "db_shards sample_db3 =
      [set_shard_outcome 4 Completed (report_completed (worker_result (sample_obs_of 1))) s1, s2]"
    "sh_id s1 = 1" "sh_run_id s1 = 1" "sh_id s2 = 2" "sh_run_id s2 = 1" "sh_status s2 = Running"
    "db_runs sample_db3 = [r]" "tr_ID r = 1" "tr_Status r = Running" "wf_db sample_db3"
    by (rule sample_db3_shards)
  let ?s = "set_shard_outcome 4 Completed (report_completed (worker_result (sample_obs_of 1))) s1"
  have s: "sh_id ?s = 1" "sh_run_id ?s = 1" "sh_status ?s = Completed"
    using d by (simp_all add: set_shard_outcome_def)
  have shards: "shards_of 1 sample_db3 = [?s, s2]" by (simp add: shards_of_def d s)
  have f: "find_shard 2 sample_db3 = Some s2" by (simp add: find_shard_def d s)
  have "last_shard 2 sample_db3" unfolding last_shard_def using f d(4,5) shards s by simp
  moreover have "find_run 1 sample_db3 = Some r" by (simp add: find_run_def d)
  moreover have "measured (sample_obs_of 1) ?s" by (auto simp: measured_def)
  moreover have "few (all_users (sample_obs_of \<circ> sh_id) [?s, s2])"
    using d s by (simp add: few_def all_users_def sample_obs_of_def)
  ultimately show ?thesis unfolding last_report_def shards using f d s by simp
qed

lemma sample_db3_users: "map (sample_obs_of \<circ> sh_id) (shards_of 1 sample_db3) =
   [[[Answered 3 True, No_answer]], [[Answered 40 True, Answered 700 False]]]"
proof -
  obtain s1 s2 r where d: "db_shards sample_db3 =
      [set_shard_outcome 4 Completed (report_completed (worker_result (sample_obs_of 1))) s1, s2]"
    "sh_id s1 = 1" "sh_run_id s1 = 1" "sh_id s2 = 2" "sh_run_id s2 = 1" "sh_status s2 = Running"
    "db_runs sample_db3 = [r]" "tr_ID r = 1" "tr_Status r = Running" "wf_db sample_db3"
    by (rule sample_db3_shards)
  then show ?thesis by (simp add: shards_of_def set_shard_outcome_def sample_obs_of_def)
qed

theorem sharded_run_result_witness:
  "\<exists>d' r. CompleteShard 9 2 (report_completed (mergeStats
       (map (foldl record_obs vu_zero) [[Answered 40 True, Answered 700 False]]))) sample_db3 = (Inr (), d') \<and>
     find_run 1 d' = Some r \<and> tr_Status r = Completed \<and> tr_TotalRequests r = Some 4 \<and> tr_FailedRequests r = Some 2 \<and>
     tr_MinLatencyMs r = Some 3 \<and> tr_MaxLatencyMs r = Some 700"
proof -
  let ?all = "[[Answered 3 True, No_answer], [Answered 40 True, Answered 700 False]]"
  have few: "few ?all" by (simp add: few_def)
  have all: "concat (map (sample_obs_of \<circ> sh_id) (shards_of 1 sample_db3)) = ?all"
    unfolding sample_db3_users by simp
  note one = worker_result_fields [OF few, unfolded worker_result_def]
  have two: "sample_obs_of 2 = [[Answered 40 True, Answered 700 False]]" by (simp add: sample_obs_of_def)
  from sharded_run_result [OF sample_db3_last, of 9, unfolded all two, unfolded one] show ?thesis
    by (auto simp: least_def greatest_def)
qed

text \<open>
  C29: the run's average is an average over all requests, not of averages. With \<open>v\<close> virtual
  users per shard that each got at most \<open>n\<close> answers, the average that the last report stores is
  within \<open>n + v + shards + 3\<close> roundings of the exact mean of all the latencies of all the shards.
\<close>

theorem sharded_average:
  fixes obs :: "int \<Rightarrow> observation list list"
  assumes "last_report obs i k cur d"
    and "\<forall>s \<in> set (shards_of k d). length (obs (sh_id s)) \<le> v \<and>
      (\<forall>ob \<in> set (obs (sh_id s)). length (latencies ob) \<le> n \<and> (\<forall>l \<in> set (latencies ob). 0 \<le> l))"
  defines "ls \<equiv> latencies (concat (concat (map (obs \<circ> sh_id) (shards_of k d))))"
    and "e \<equiv> n + v + length (shards_of k d) + 3"
  shows "\<exists>r' avg. find_run k (snd (CompleteShard now i
      (report_completed (mergeStats (map (foldl record_obs vu_zero) (obs i)))) d)) = Some r' \<and>
    tr_AvgLatencyMs r' = Some avg \<and>
    sum_list ls * (1 - pow2 (- 53)) ^ e \<le> avg * of_nat (length ls) \<and>
    avg * of_nat (length ls) \<le> sum_list ls * (1 + pow2 (- 53)) ^ e"
proof -
  obtain r ss where L:
    "find_run k (snd (CompleteShard now i (report_completed (worker_result (obs i))) d)) = Some (set_aggregate now cur ss r)"
    "\<And>s. s \<in> set ss \<Longrightarrow> measured ((obs \<circ> sh_id) s) s"
    "all_users (obs \<circ> sh_id) ss = all_users (obs \<circ> sh_id) (shards_of k d)"
    "map sh_id ss = map sh_id (shards_of k d)"
    by (rule last_report_aggregates [OF assms(1), where now = now]) (rule that)
  have few: "few (all_users (obs \<circ> sh_id) ss)" using assms(1) L(3) by (simp add: last_report_def)
  have ls: "lats (all_users (obs \<circ> sh_id) ss) = ls" unfolding L(3) by (simp add: ls_def all_users_def)
  have len: "length ss = length (shards_of k d)" using arg_cong [OF L(4), of length] by simp
  have bound: "length (obs (sh_id s)) \<le> v \<and> (\<forall>ob \<in> set (obs (sh_id s)). length (latencies ob) \<le> n)"
    if "s \<in> set ss" for s
  proof -
    have "sh_id s \<in> sh_id ` set (shards_of k d)" using arg_cong [OF L(4), of set] that by auto
    then obtain s' where "s' \<in> set (shards_of k d)" "sh_id s = sh_id s'" by blast
    then show ?thesis using assms(2) by simp
  qed
  have nonneg: "\<forall>l \<in> set (lats (all_users (obs \<circ> sh_id) ss)). 0 \<le> l"
    unfolding ls ls_def using assms(2) by (auto simp: latencies_concat)
  obtain avg where "tr_AvgLatencyMs (set_aggregate now cur ss r) = Some avg"
    "sum_list ls * (1 - pow2 (- 53)) ^ e \<le> avg * of_nat (length ls)"
    "avg * of_nat (length ls) \<le> sum_list ls * (1 + pow2 (- 53)) ^ e"
  proof (rule aggregate_average [OF L(2) few nonneg, of v n now cur r, unfolded ls len, folded e_def])
    show "\<forall>s \<in> set ss. length ((obs \<circ> sh_id) s) \<le> v" using bound by simp
    show "\<forall>s \<in> set ss. \<forall>ob \<in> set ((obs \<circ> sh_id) s). length (latencies ob) \<le> n"
      using bound by simp
  qed blast
  then show ?thesis using L(1) unfolding worker_result_def by blast
qed

theorem sharded_average_witness:
  "\<exists>r avg. find_run 1 (snd (CompleteShard 9 2 (report_completed (mergeStats
       (map (foldl record_obs vu_zero) (sample_obs_of 2)))) sample_db3)) = Some r \<and> tr_AvgLatencyMs r = Some avg \<and>
     743 * (1 - pow2 (- 53)) ^ 8 \<le> avg * 3 \<and> avg * 3 \<le> 743 * (1 + pow2 (- 53)) ^ 8"
proof -
  note users = sample_db3_users
  have len: "length (shards_of 1 sample_db3) = 2" using arg_cong [OF users, of length] by simp
  have ls: "latencies (concat (concat (map (sample_obs_of \<circ> sh_id) (shards_of 1 sample_db3)))) = [3, 40, 700]"
    unfolding users by simp
  have "\<forall>s \<in> set (shards_of 1 sample_db3). length (sample_obs_of (sh_id s)) \<le> 1 \<and>
      (\<forall>ob \<in> set (sample_obs_of (sh_id s)). length (latencies ob) \<le> 2 \<and> (\<forall>l \<in> set (latencies ob). 0 \<le> l))"
    by (auto simp: sample_obs_of_def)
  from sharded_average [OF sample_db3_last this, of 9, unfolded ls len] show ?thesis by simp
qed

end
