(* ===== verification/Worker_Leases.thy ===== *)
theory Worker_Leases
  imports Worker_Job
begin

section \<open>Heartbeats and cancellation\<close>

text \<open>
  The two background loops of a job, on the clock. A claim or a poll takes at most \<open>D\<close>
  nanoseconds, and at most \<open>f\<close> in a row fail. \<open>heartbeat\<close> keeps the message's idle time below a
  bound from its delivery to its acknowledgement; \<open>watchCancel\<close> notices a cancellation within a
  bound, and the load ends soon after.
\<close>

subsection \<open>The ticker\<close>

lemma next_tick_bounds:
  assumes "0 < interval"
  shows "t < next_tick t0 interval t" "next_tick t0 interval t \<le> t + interval"
proof -
  have "t - t0 = interval * ((t - t0) div interval) + (t - t0) mod interval" by simp
  moreover have "0 \<le> (t - t0) mod interval" "(t - t0) mod interval < interval" using assms by simp_all
  moreover have "next_tick t0 interval t = t0 + interval * ((t - t0) div interval) + interval"
    by (simp add: next_tick_def distrib_left)
  ultimately show "t < next_tick t0 interval t" "next_tick t0 interval t \<le> t + interval" by linarith+
qed

text \<open>Ticks are an interval apart: a tick received late does not bring the next one closer than that to it.\<close>

definition on_tick :: "int \<Rightarrow> int \<Rightarrow> int \<Rightarrow> bool" where
  "on_tick t0 interval tick \<longleftrightarrow> (\<exists>k. tick = t0 + interval * k)"

lemma on_tick_next: "on_tick t0 interval (next_tick t0 interval t)"
  unfolding on_tick_def next_tick_def by blast

lemma next_tick_apart:
  assumes "0 < interval" and "on_tick t0 interval tick" and "tick \<le> t"
  shows "tick + interval \<le> next_tick t0 interval t"
proof -
  obtain k where k: "tick = t0 + interval * k" using assms(2) by (auto simp: on_tick_def)
  have "k = (tick - t0) div interval" using assms(1) by (simp add: k)
  also have "\<dots> \<le> (t - t0) div interval" using assms(1,3) by (intro zdiv_mono1) simp_all
  finally have "interval * (k + 1) \<le> interval * ((t - t0) div interval + 1)" using assms(1) by simp
  then show ?thesis by (simp add: next_tick_def k distrib_left)
qed

text \<open>At most \<open>f\<close> failures in a row, \<open>j\<close> of them just seen.\<close>

fun tolerable :: "nat \<Rightarrow> nat \<Rightarrow> (nat \<times> bool) list \<Rightarrow> bool" where
  "tolerable f j [] = True"
| "tolerable f j ((x, ok) # rest) = (if ok then tolerable f 0 rest else j < f \<and> tolerable f (Suc j) rest)"

subsection \<open>Heartbeats\<close>

text \<open>When the claims that succeeded were processed: \<open>u b\<close> for the call \<open>b\<close>.\<close>

definition renewals :: "(int \<times> int \<times> bool \<Rightarrow> int) \<Rightarrow> (int \<times> int \<times> bool) list \<Rightarrow> int set" where
  "renewals u beats = u ` {b \<in> set beats. snd (snd b)}"

definition processed :: "(int \<times> int \<times> bool \<Rightarrow> int) \<Rightarrow> (int \<times> int \<times> bool) list \<Rightarrow> bool" where
  "processed u beats \<longleftrightarrow> (\<forall>b \<in> set beats. fst b \<le> u b \<and> u b \<le> fst (snd b))"

text \<open>
  \<open>v\<close> is when the broker processed the last claim that succeeded, sent at \<open>p\<close>; \<open>S\<close> is how late
  the loop started after it, \<open>j\<close> how many have failed since, \<open>R\<close> how long the loop is outlived.
\<close>

lemma heartbeat_covers:
  fixes D f S R :: nat
  defines "G \<equiv> \<lambda>interval. max interval (int D)"
  assumes "0 < interval" and "heartbeat_loop t0 interval over now tick takes = Some beats"
    and "\<forall>b \<in> set takes. fst b \<le> D" and "tolerable f j takes" and "j \<le> f"
    and "max now tick \<le> p + int S + (int j + 1) * G interval" and "p \<le> v" and "v \<le> p + int D"
    and "processed u beats" and "v \<le> t" and "t < over + int R"
  shows "\<exists>w \<in> insert v (renewals u beats). w \<le> t \<and> t - w \<le> int S + (int f + 1) * G interval + int D + int R"
  using assms(3-)
proof (induction takes arbitrary: now tick beats p v j S)
  have pos: "0 \<le> G interval" "int D \<le> G interval" "interval \<le> G interval" using assms(2) by (simp_all add: G_def)
  have grow: "(int j + 1) * G interval \<le> (int f + 1) * G interval" if "j \<le> f" for j
    using that pos(1) by (intro mult_right_mono) simp_all
  case Nil
  have "over \<le> max now tick" using Nil.prems(1) by (simp add: heartbeat_loop.simps Let_def split: if_splits)
  then show ?case using Nil.prems grow [of j] pos by (intro bexI [of _ v] conjI) (linarith | simp)+
next
  case (Cons y takes)
  obtain x ok where y: "y = (x, ok)" by fastforce
  have pos: "0 \<le> G interval" "int D \<le> G interval" "interval \<le> G interval" using assms(2) by (simp_all add: G_def)
  have grow: "(int j + 1) * G interval \<le> (int f + 1) * G interval" if "j \<le> f" for j
    using that pos(1) by (intro mult_right_mono) simp_all
  let ?s = "max now tick"
  show ?case
  proof (cases "over \<le> ?s")
    case True
    then show ?thesis using Cons.prems grow [of j] pos by (intro bexI [of _ v] conjI) (linarith | simp)+
  next
    case False
    then obtain rest where rest: "beats = (?s, ?s + int x, ok) # rest"
      "heartbeat_loop t0 interval over (?s + int x) (next_tick t0 interval ?s) takes = Some rest"
      using Cons.prems(1) by (auto simp: y heartbeat_loop.simps [of _ _ _ now] Let_def)
    have x: "int x \<le> int D" and takes: "\<forall>b \<in> set takes. fst b \<le> D" using Cons.prems(2) by (simp_all add: y)
    have proc: "processed u rest" using Cons.prems(8) rest(1) by (simp add: processed_def)
    have soon: "max (?s + int x) (next_tick t0 interval ?s) \<le> ?s + G interval"
      using next_tick_bounds(2) [OF assms(2), of t0 ?s] x pos by linarith
    have more: "renewals u rest \<subseteq> renewals u beats" using rest(1) by (auto simp: renewals_def)
    show ?thesis
    proof (cases ok)
      case ok: True
      define w where "w = u (?s, ?s + int x, ok)"
      have w: "?s \<le> w" "w \<le> ?s + int D" using Cons.prems(8) rest(1) x by (auto simp: processed_def w_def)
      have mem: "w \<in> renewals u beats" using ok rest(1) by (simp add: renewals_def w_def)
      show ?thesis
      proof (cases "w \<le> t")
        case True
        have "\<exists>w' \<in> insert w (renewals u rest). w' \<le> t \<and>
            t - w' \<le> int 0 + (int f + 1) * G interval + int D + int R"
          using ok Cons.prems(3,10) takes proc soon w True
          by (intro Cons.IH [OF rest(2), of 0 ?s 0]) (simp_all add: y)
        then obtain w' where w': "w' \<in> insert w (renewals u rest)" "w' \<le> t"
          "t - w' \<le> int 0 + (int f + 1) * G interval + int D + int R" by blast
        then have "w' \<in> insert v (renewals u beats)" using mem more by blast
        then show ?thesis using w' by (intro bexI [of _ w']) simp_all
      next
        case False
        then show ?thesis using w(2) Cons.prems grow [of j] by (intro bexI [of _ v] conjI) (linarith | simp)+
      qed
    next
      case failed: False
      have "\<exists>w' \<in> insert v (renewals u rest). w' \<le> t \<and>
          t - w' \<le> int S + (int f + 1) * G interval + int D + int R"
      proof (rule Cons.IH [OF rest(2) takes])
        show "tolerable f (Suc j) takes" "Suc j \<le> f" using Cons.prems(3) failed by (simp_all add: y)
        have "(int (Suc j) + 1) * G interval = (int j + 1) * G interval + G interval" by (simp add: algebra_simps)
        then show "max (?s + int x) (next_tick t0 interval ?s) \<le> p + int S + (int (Suc j) + 1) * G interval"
          using soon Cons.prems(5) by linarith
      qed (use Cons.prems proc in simp_all)
      then show ?thesis using more by blast
    qed
  qed
qed

text \<open>Calls are an interval apart, so a script of as many entries as intervals fit into the job is enough.\<close>

lemma heartbeat_stops:
  assumes "0 < interval" and "on_tick t0 interval tick" and "over - tick \<le> interval * int (length takes)"
  shows "heartbeat_loop t0 interval over now tick takes \<noteq> None"
  using assms(2,3)
proof (induction takes arbitrary: now tick)
  case Nil
  then show ?case by (simp add: heartbeat_loop.simps Let_def)
next
  case (Cons y takes)
  obtain x ok where y: "y = (x, ok)" by fastforce
  let ?next = "next_tick t0 interval (max now tick)"
  have "tick + interval \<le> ?next" using Cons.prems(1) by (intro next_tick_apart [OF assms(1)]) simp_all
  then have "over - ?next \<le> interval * int (length takes)" using Cons.prems(2) by (simp add: algebra_simps)
  from Cons.IH [OF on_tick_next this] show ?case by (simp add: y heartbeat_loop.simps [of _ _ _ now] Let_def)
qed

lemma heartbeat_returns:
  assumes "0 < interval" and "over - t0 \<le> interval * (int (length takes) + 1)"
  shows "\<exists>beats. heartbeat t0 interval over takes = Some (Inr beats)"
proof -
  have "on_tick t0 interval (t0 + interval)" by (auto simp: on_tick_def intro: exI [of _ 1])
  moreover have "over - (t0 + interval) \<le> interval * int (length takes)" using assms(2) by (simp add: algebra_simps)
  ultimately obtain beats where "heartbeat_loop t0 interval over t0 (t0 + interval) takes = Some beats"
    using heartbeat_stops [OF assms(1), of t0 "t0 + interval" over takes t0] by blast
  then show ?thesis using assms(1) by (simp add: heartbeat_def)
qed

text \<open>
  The idle time of a message from its delivery at \<open>td\<close> on: the loop starts at most \<open>S\<close> later and
  the message is acknowledged at most \<open>R\<close> after the job is over.
\<close>

lemma heartbeat_lease:
  fixes D f S R :: nat
  assumes "0 < interval" and "heartbeat t0 interval over takes = Some (Inr beats)"
    and "\<forall>b \<in> set takes. fst b \<le> D" and "tolerable f 0 takes" and "td \<le> t0" and "t0 \<le> td + int S"
    and "int S + (int f + 1) * max interval (int D) + int D + int R < minIdle"
    and "processed u beats" and "td \<le> t" and "t < over + int R"
  shows "\<exists>w \<in> insert td (renewals u beats). w \<le> t \<and> t - w < minIdle"
proof -
  have b: "heartbeat_loop t0 interval over t0 (t0 + interval) takes = Some beats"
    using assms(1,2) by (simp add: heartbeat_def)
  have "max t0 (t0 + interval) \<le> td + int S + (int 0 + 1) * max interval (int D)" using assms(1,6) by simp
  from heartbeat_covers [OF assms(1) b assms(3,4) _ this, of td u t R] assms(8-)
  obtain w where "w \<in> insert td (renewals u beats)" "w \<le> t"
    "t - w \<le> int S + (int f + 1) * max interval (int D) + int D + int R" by auto
  then show ?thesis using assms(7) by (intro bexI [of _ w]) simp_all
qed

text \<open>The first heartbeat comes an interval after the start of the loop.\<close>

lemma heartbeat_loop_sent:
  assumes "0 < interval" and "heartbeat_loop t0 interval over now tick takes = Some beats" and "b \<in> set beats"
  shows "tick \<le> fst b"
  using assms(2,3)
proof (induction takes arbitrary: now tick beats)
  case Nil
  then show ?case by (simp add: heartbeat_loop.simps Let_def split: if_splits)
next
  case (Cons y takes)
  obtain x ok where y: "y = (x, ok)" by fastforce
  let ?s = "max now tick"
  have "\<not> over \<le> ?s" using Cons.prems by (auto simp: heartbeat_loop.simps [of _ _ _ now] Let_def)
  then obtain rest where rest: "beats = (?s, ?s + int x, ok) # rest"
    "heartbeat_loop t0 interval over (?s + int x) (next_tick t0 interval ?s) takes = Some rest"
    using Cons.prems(1) by (auto simp: y heartbeat_loop.simps [of _ _ _ now] Let_def)
  show ?case
  proof (cases "b \<in> set rest")
    case True
    from Cons.IH [OF rest(2) this] show ?thesis using next_tick_bounds(1) [OF assms(1), of ?s t0] by linarith
  next
    case False
    then have "fst b = ?s" using Cons.prems(2) rest(1) by auto
    then show ?thesis by simp
  qed
qed

lemma heartbeat_first:
  assumes "0 < interval" and "heartbeat t0 interval over takes = Some (Inr beats)" and "processed u beats"
    and "w \<in> renewals u beats"
  shows "t0 + interval \<le> w"
proof -
  obtain b where b: "b \<in> set beats" "w = u b" using assms(4) by (auto simp: renewals_def)
  have "heartbeat_loop t0 interval over t0 (t0 + interval) takes = Some beats" using assms(1,2) by (simp add: heartbeat_def)
  from heartbeat_loop_sent [OF assms(1) this b(1)] show ?thesis using assms(3) b by (force simp: processed_def)
qed

subsection \<open>Watching for a cancellation\<close>

abbreviation cancelling :: "string \<Rightarrow> bool" where
  "cancelling st \<equiv> st = ''cancelling'' \<or> st = ''cancelled''"

text \<open>The load is cancelled only after a poll that saw the run cancelled.\<close>

lemma watch_cause:
  assumes "watch_loop t0 interval over status now tick takes = Some (Some c)"
  shows "\<exists>t. max now tick \<le> t \<and> t \<le> c \<and> t < over \<and> cancelling (status t)" (is "\<exists>t. ?P now tick t")
  using assms
proof (induction takes arbitrary: now tick)
  case Nil
  then show ?case by (simp add: watch_loop.simps Let_def split: if_splits)
next
  case (Cons y takes)
  obtain x ok where y: "y = (x, ok)" by fastforce
  let ?s = "max now tick"
  have s: "?s < over" using Cons.prems by (auto simp: watch_loop.simps [of _ _ _ _ now] Let_def split: if_splits)
  show ?case
  proof (cases "ok \<and> cancelling (status ?s)")
    case True
    then have "c = ?s + int x" using Cons.prems s by (auto simp: y watch_loop.simps [of _ _ _ _ now] Let_def split: if_splits)
    then show ?thesis using True s by (intro exI [of _ ?s]) simp
  next
    case False
    then have "watch_loop t0 interval over status (?s + int x) (next_tick t0 interval ?s) takes = Some (Some c)"
      using Cons.prems s by (simp add: y watch_loop.simps [of _ _ _ _ now] Let_def split: if_splits)
    from Cons.IH [OF this] obtain t where "max (?s + int x) (next_tick t0 interval ?s) \<le> t" "t \<le> c" "t < over"
      "cancelling (status t)" by blast
    moreover have "max now tick \<le> t" using calculation(1) by linarith
    ultimately show ?thesis by blast
  qed
qed

text \<open>From \<open>tc\<close> on the run is cancelled: the load is cancelled soon, unless it ends soon by itself.\<close>

lemma watch_notices:
  fixes D f :: nat
  defines "G \<equiv> \<lambda>interval. max interval (int D)"
  assumes "0 < interval" and "watch_loop t0 interval over status now tick takes = Some r"
    and "\<forall>b \<in> set takes. fst b \<le> D" and "tolerable f j takes" and "j \<le> f"
    and "max now tick \<le> tc + (int j + 1) * G interval" and "\<forall>t \<ge> tc. cancelling (status t)"
  shows "case r of Some c \<Rightarrow> c \<le> tc + (int f + 1) * G interval + int D | None \<Rightarrow> over \<le> tc + (int f + 1) * G interval"
  using assms(3-)
proof (induction takes arbitrary: now tick j)
  have grow: "(int j + 1) * G interval \<le> (int f + 1) * G interval" if "j \<le> f" for j
    using that assms(2) by (intro mult_right_mono) (simp_all add: G_def)
  case Nil
  then have "r = None" "over \<le> max now tick" by (simp_all add: watch_loop.simps Let_def split: if_splits)
  moreover have "over \<le> tc + (int f + 1) * G interval"
    using calculation(2) Nil.prems(5) grow [OF Nil.prems(4)] by linarith
  ultimately show ?case by simp
next
  case (Cons y takes)
  obtain x ok where y: "y = (x, ok)" by fastforce
  have pos: "int D \<le> G interval" "interval \<le> G interval" "0 \<le> G interval" using assms(2) by (simp_all add: G_def)
  have grow: "(int j + 1) * G interval \<le> (int f + 1) * G interval"
    using Cons.prems(4) pos(3) by (intro mult_right_mono) simp_all
  let ?s = "max now tick"
  let ?next = "max (?s + int x) (next_tick t0 interval ?s)"
  have x: "int x \<le> int D" and takes: "\<forall>b \<in> set takes. fst b \<le> D" using Cons.prems(2) by (simp_all add: y)
  have soon: "?next \<le> ?s + G interval"
    using next_tick_bounds(2) [OF assms(2), of t0 ?s] x pos by linarith
  have more: "(int (Suc j) + 1) * G interval = (int j + 1) * G interval + G interval" by (simp add: algebra_simps)
  consider "over \<le> ?s" | "\<not> over \<le> ?s" "ok" "cancelling (status ?s)"
    | "\<not> over \<le> ?s" "ok" "\<not> cancelling (status ?s)" | "\<not> over \<le> ?s" "\<not> ok" by blast
  then show ?case
  proof cases
    case 1
    then have "r = None" using Cons.prems(1) by (simp add: watch_loop.simps [of _ _ _ _ now] Let_def)
    moreover have "over \<le> tc + (int f + 1) * G interval" using 1 Cons.prems(5) grow by linarith
    ultimately show ?thesis by simp
  next
    case 2
    then have "r = Some (?s + int x)" using Cons.prems(1) by (simp add: y watch_loop.simps [of _ _ _ _ now] Let_def)
    moreover have "?s + int x \<le> tc + (int f + 1) * G interval + int D" using Cons.prems(5) grow x by linarith
    ultimately show ?thesis by simp
  next
    case 3
    then have rest: "watch_loop t0 interval over status (?s + int x) (next_tick t0 interval ?s) takes = Some r"
      using Cons.prems(1) by (simp add: y watch_loop.simps [of _ _ _ _ now] Let_def)
    have "?s < tc" using 3(3) Cons.prems(6) by (meson not_le)
    moreover have "(int 0 + 1) * G interval = G interval" by simp
    ultimately have "?next \<le> tc + (int 0 + 1) * G interval" using soon by linarith
    from Cons.IH [OF rest takes _ _ this Cons.prems(6)] 3 Cons.prems(3) show ?thesis by (simp add: y)
  next
    case 4
    then have rest: "watch_loop t0 interval over status (?s + int x) (next_tick t0 interval ?s) takes = Some r"
      using Cons.prems(1) by (simp add: y watch_loop.simps [of _ _ _ _ now] Let_def)
    have "?next \<le> tc + (int (Suc j) + 1) * G interval" using soon Cons.prems(5) more by linarith
    from Cons.IH [OF rest takes _ _ this Cons.prems(6)] 4 Cons.prems(3) show ?thesis by (simp add: y)
  qed
qed

lemma watch_stops:
  assumes "0 < interval" and "on_tick t0 interval tick" and "over - tick \<le> interval * int (length takes)"
  shows "watch_loop t0 interval over status now tick takes \<noteq> None"
  using assms(2,3)
proof (induction takes arbitrary: now tick)
  case Nil
  then show ?case by (simp add: watch_loop.simps Let_def)
next
  case (Cons y takes)
  obtain x ok where y: "y = (x, ok)" by fastforce
  let ?next = "next_tick t0 interval (max now tick)"
  have "tick + interval \<le> ?next" using Cons.prems(1) by (intro next_tick_apart [OF assms(1)]) simp_all
  then have "over - ?next \<le> interval * int (length takes)" using Cons.prems(2) by (simp add: algebra_simps)
  from Cons.IH [OF on_tick_next this] show ?case by (simp add: y watch_loop.simps [of _ _ _ _ now] Let_def)
qed

text \<open>
  C30: a cancelled run stops putting load on the target. The watcher returns. It cancels the
  load only when it has read the status \<^verbatim>\<open>cancelling\<close> or \<^verbatim>\<open>cancelled\<close>. If the run is cancelled
  from \<open>tc\<close> on, a poll takes at most \<open>D\<close> nanoseconds and at most \<open>f\<close> polls in a row fail, then
  every request of the job begins before \<open>tc\<close> (or the start of the job, if that is later) plus
  \<open>f + 1\<close> times the longer of interval and \<open>D\<close>, plus \<open>D\<close>; the load is over at most \<open>B\<close> after that,
  the time a goroutine spends outside its exchange and its pause.
\<close>

theorem cancel_reaches_load:
  assumes "0 < interval" and "\<forall>b \<in> set takes. fst b \<le> D" and "tolerable f 0 takes"
    and "over - t0 \<le> interval * (int (length takes) + 1)"
  shows "\<exists>r. watchCancel t0 interval over status takes = Some (Inr r) \<and>
    (\<forall>c. r = Some c \<longrightarrow> (\<exists>t. t0 < t \<and> t \<le> c \<and> (status t = ''cancelling'' \<or> status t = ''cancelled''))) \<and>
    (\<forall>tc lib cfg start scripts res reqs mss B.
      (\<forall>t \<ge> tc. status t = ''cancelling'' \<or> status t = ''cancelled'') \<longrightarrow>
      Run lib cfg start r scripts = Some (Inr (res, over, reqs, mss)) \<longrightarrow>
      (\<forall>i. \<forall>x \<in> set (scripts i). overhead x \<le> B) \<longrightarrow>
      (\<forall>q \<in> set (concat reqs). is_begin q < max tc t0 + (int f + 1) * max interval (int D) + int D) \<and>
      over \<le> max start (max tc t0 + (int f + 1) * max interval (int D) + int D + int B))"
proof -
  have "on_tick t0 interval (t0 + interval)" by (auto simp: on_tick_def intro: exI [of _ 1])
  moreover have "over - (t0 + interval) \<le> interval * int (length takes)" using assms(4) by (simp add: algebra_simps)
  ultimately obtain r where r: "watch_loop t0 interval over status t0 (t0 + interval) takes = Some r"
    using watch_stops [OF assms(1), of t0 "t0 + interval" over takes status t0] by blast
  have "\<exists>t. t0 < t \<and> t \<le> c \<and> cancelling (status t)" if "r = Some c" for c
    using watch_cause [OF r [unfolded that]] assms(1) by force
  moreover have "(\<forall>q \<in> set (concat reqs). is_begin q < max tc t0 + (int f + 1) * max interval (int D) + int D) \<and>
      over \<le> max start (max tc t0 + (int f + 1) * max interval (int D) + int D + int B)"
    if tc: "\<forall>t \<ge> tc. cancelling (status t)" and run: "Run lib cfg start r scripts = Some (Inr (res, over, reqs, mss))"
      and B: "\<forall>i. \<forall>x \<in> set (scripts i). overhead x \<le> B"
    for tc lib cfg start scripts res reqs mss B
  proof -
    let ?T = "max tc t0 + (int f + 1) * max interval (int D) + int D"
    have "\<forall>t \<ge> max tc t0. cancelling (status t)" using tc by simp
    from watch_notices [OF assms(1) r assms(2,3) _ _ this] assms(1) max.cobounded2 [of interval "int D"]
    have "case r of Some c \<Rightarrow> c \<le> ?T | None \<Rightarrow> over \<le> max tc t0 + (int f + 1) * max interval (int D)" by simp
    then have "case r of Some c \<Rightarrow> c \<le> ?T | None \<Rightarrow> over \<le> ?T" by (auto split: option.splits)
    moreover have "run_stop cfg start r \<le> over" using Run_ends(2) [OF run B] .
    ultimately have stop: "run_stop cfg start r \<le> ?T" by (auto simp: run_stop_def split: option.splits)
    have "in_time cfg (run_stop cfg start r) q" if "q \<in> set (concat reqs)" for q
      using Run_in_time [OF run] that by blast
    then show ?thesis using Run_ends(1) [OF run B] stop by (fastforce simp: in_time_def)
  qed
  ultimately show ?thesis using r assms(1) by (intro exI [of _ r]) (simp add: watchCancel_def)
qed

text \<open>Cancelled at 600: the poll sent then fails, the one at 700 is answered at 750.\<close>

theorem cancel_reaches_load_witness:
  "\<exists>res over reqs mss.
     watchCancel 0 100 over (\<lambda>t. if 600 \<le> t then ''cancelling'' else ''running'')
       (replicate 5 (50, True) @ [(50, False), (50, True)]) = Some (Inr (Some 750)) \<and>
     Run ascii_lib sample_cfg 0 (Some 750) sample_script = Some (Inr (res, over, reqs, mss)) \<and> over \<le> 854"
proof -
  let ?takes = "replicate 5 (50 :: nat, True) @ [(50, False), (50, True)]"
  let ?status = "\<lambda>t :: int. if 600 \<le> t then ''cancelling'' else ''running''"
  obtain res over reqs mss where r:
    "Run ascii_lib sample_cfg 0 (Some 750) sample_script = Some (Inr (res, over, reqs, mss))"
    using sample_runs by blast
  have over: "750 \<le> over" "over \<le> 754" using Run_ends [OF r sample_script_builds(3)]
    by (simp_all add: run_stop_def sample_cfg_def)
  have w: "watchCancel 0 100 over ?status ?takes = Some (Inr (Some 750))"
    using over by (simp add: watchCancel_def watch_loop.simps next_tick_def eval_nat_numeral)
  have "(0 :: int) < 100" "\<forall>b \<in> set ?takes. fst b \<le> 50" "tolerable 1 0 ?takes"
    "over - 0 \<le> 100 * (int (length ?takes) + 1)"
    using over by (simp_all add: eval_nat_numeral)
  from cancel_reaches_load [OF this, of ?status] obtain r' where r': "watchCancel 0 100 over ?status ?takes = Some (Inr r')"
    and all: "\<forall>tc lib cfg start scripts res reqs mss B.
      (\<forall>t \<ge> tc. ?status t = ''cancelling'' \<or> ?status t = ''cancelled'') \<longrightarrow>
      Run lib cfg start r' scripts = Some (Inr (res, over, reqs, mss)) \<longrightarrow>
      (\<forall>i. \<forall>x \<in> set (scripts i). overhead x \<le> B) \<longrightarrow>
      (\<forall>q \<in> set (concat reqs). is_begin q < max tc 0 + (int 1 + 1) * max 100 (int 50) + int 50) \<and>
      over \<le> max start (max tc 0 + (int 1 + 1) * max 100 (int 50) + int 50 + int B)"
    by (elim exE conjE) (rule that, assumption+)
  have "r' = Some 750" using w r' by simp
  with all [rule_format, of 600 ascii_lib sample_cfg 0 sample_script res reqs mss 4, THEN conjunct2] r sample_script_builds(3)
  have "over \<le> 854" by simp
  then show ?thesis using r w by blast
qed

end
