(* ===== verification/Go_Duration.thy ===== *)
theory Go_Duration
  imports Go_Text Go_Float
begin

section \<open>Go's durations\<close>

text \<open>
  \<^verbatim>\<open>time.ParseDuration\<close>, which reads the worker's settings: a sign and terms like \<^verbatim>\<open>1h\<close>,
  \<^verbatim>\<open>1.5s\<close> or \<^verbatim>\<open>250ms\<close> that are added up. A duration is an int64 of nanoseconds; the running
  sum is a uint64. \<open>None\<close> is an error, whatever its text.
\<close>

fun leading_int :: "nat \<Rightarrow> string \<Rightarrow> (nat \<times> string) option" where
  "leading_int x [] = Some (x, [])"
| "leading_int x (c # cs) =
     (if \<not> is_digit c then Some (x, c # cs)
      else if 2 ^ 63 div 10 < x then None
      else if 2 ^ 63 < x * 10 + digit_val c then None
      else leading_int (x * 10 + digit_val c) cs)"

text \<open>The digits after the point: as many as fit, the scale they were read at, and the rest.\<close>

fun leading_fraction :: "bool \<Rightarrow> nat \<Rightarrow> float64 \<Rightarrow> string \<Rightarrow> nat \<times> float64 \<times> string" where
  "leading_fraction ovf x scale [] = (x, scale, [])"
| "leading_fraction ovf x scale (c # cs) =
     (if \<not> is_digit c then (x, scale, c # cs)
      else if ovf \<or> (2 ^ 63 - 1) div 10 < x \<or> 2 ^ 63 < x * 10 + digit_val c
      then leading_fraction True x scale cs
      else leading_fraction False (x * 10 + digit_val c) (fl64 (scale * 10)) cs)"

definition unitMap :: "(string \<times> nat) list" where
  "unitMap =
     [(''ns'', 1), (''us'', 10 ^ 3), ([CHR 0xC2, CHR 0xB5, CHR ''s''], 10 ^ 3),
      ([CHR 0xCE, CHR 0xBC, CHR ''s''], 10 ^ 3), (''ms'', 10 ^ 6), (''s'', 10 ^ 9),
      (''m'', 60 * 10 ^ 9), (''h'', 3600 * 10 ^ 9)]"

definition unit_char :: "char \<Rightarrow> bool" where
  "unit_char c \<longleftrightarrow> c \<noteq> CHR ''.'' \<and> \<not> is_digit c"

text \<open>The number at the front of a term: integer part, fraction, its scale, the rest.\<close>

definition term_number :: "string \<Rightarrow> (nat \<times> nat \<times> float64 \<times> string) option" where
  "term_number s =
     (if s = [] \<or> \<not> (hd s = CHR ''.'' \<or> is_digit (hd s)) then None
      else case leading_int 0 s of
             None \<Rightarrow> None
           | Some (v, s1) \<Rightarrow>
               (let pre = length s1 \<noteq> length s;
                    dot = (s1 \<noteq> [] \<and> hd s1 = CHR ''.'');
                    (f, scale, s2) = (if dot then leading_fraction False 0 1 (tl s1) else (0, 1, s1));
                    post = (dot \<and> length s2 \<noteq> length (tl s1))
                in if \<not> pre \<and> \<not> post then None else Some (v, f, scale, s2)))"

text \<open>The nanoseconds of a term.\<close>

definition term_value :: "nat \<Rightarrow> nat \<Rightarrow> float64 \<Rightarrow> nat \<Rightarrow> nat option" where
  "term_value v f scale unit =
     (if 2 ^ 63 div unit < v then None
      else if 0 < f
      then (let w = (v * unit + nat \<lfloor>fl64 (fl64 (of_nat f) * fl64 (fl64 (of_nat unit) / scale))\<rfloor>) mod 2 ^ 64
            in if 2 ^ 63 < w then None else Some w)
      else Some (v * unit))"

lemma leading_int_length: "leading_int x s = Some (v, r) \<Longrightarrow> length r \<le> length s"
  by (induction x s rule: leading_int.induct) (auto split: if_splits)

lemma leading_fraction_length: "leading_fraction ovf x sc s = (f, sc', r) \<Longrightarrow> length r \<le> length s"
  by (induction ovf x sc s rule: leading_fraction.induct) (fastforce split: if_splits)+

lemma term_number_length: "term_number s = Some (v, f, sc, r) \<Longrightarrow> length r \<le> length s"
  by (auto simp: term_number_def Let_def split: if_splits option.splits prod.splits
      dest!: leading_int_length leading_fraction_length)

lemma term_shorter:
  assumes "term_number s = Some (v, f, sc, r)" and "takeWhile unit_char r \<noteq> []"
  shows "length (dropWhile unit_char r) < length s"
proof -
  have "length r \<le> length s" "0 < length (takeWhile unit_char r)" using assms term_number_length by auto
  moreover have "length (takeWhile unit_char r) + length (dropWhile unit_char r) = length r"
    by (metis length_append takeWhile_dropWhile_id)
  ultimately show ?thesis by linarith
qed

function duration_terms :: "nat \<Rightarrow> string \<Rightarrow> nat option" where
  "duration_terms d s =
     (if s = [] then Some d
      else case term_number s of
             None \<Rightarrow> None
           | Some (v, f, scale, s2) \<Rightarrow>
               (let u = takeWhile unit_char s2
                in if u = [] then None
                   else case map_of unitMap u of
                          None \<Rightarrow> None
                        | Some unit \<Rightarrow>
                            (case term_value v f scale unit of
                               None \<Rightarrow> None
                             | Some w \<Rightarrow>
                                 (let d' = (d + w) mod 2 ^ 64
                                  in if 2 ^ 63 < d' then None
                                     else duration_terms d' (dropWhile unit_char s2)))))"
  by pat_completeness auto
termination
  by (relation "measure (\<lambda>(d, s). length s)") (auto intro: term_shorter)

declare duration_terms.simps [simp del]

definition ParseDuration :: "string \<Rightarrow> int option" where
  "ParseDuration s =
     (let neg = (s \<noteq> [] \<and> hd s = CHR ''-'');
          body = (if s \<noteq> [] \<and> (hd s = CHR ''-'' \<or> hd s = CHR ''+'') then tl s else s)
      in if body = ''0'' then Some 0
         else if body = [] then None
         else case duration_terms 0 body of
                None \<Rightarrow> None
              | Some d \<Rightarrow>
                  if neg then Some (- int d)
                  else if 2 ^ 63 - 1 < d then None
                  else Some (int d))"

subsection \<open>Reading a plain duration\<close>

lemma parse_uint_loop_le: "parse_uint_loop n s = Inr v \<Longrightarrow> n \<le> v"
  by (induction n s rule: parse_uint_loop.induct) (auto split: if_splits)

lemma leading_int_append:
  assumes "\<forall>c \<in> set xs. is_digit c" and "parse_uint_loop x xs = Inr v" and "v \<le> 2 ^ 63"
  shows "leading_int x (xs @ ys) = leading_int v ys"
  using assms
proof (induction xs arbitrary: x)
  case (Cons c xs)
  have step: "parse_uint_loop (10 * x + digit_val c) xs = Inr v" using Cons.prems by (auto split: if_splits)
  from parse_uint_loop_le [OF this] have "10 * x + digit_val c \<le> v" .
  then have "x \<le> 2 ^ 63 div 10" "x * 10 + digit_val c \<le> 2 ^ 63" using Cons.prems(3) by auto
  then show ?case using Cons.IH [OF _ step] Cons.prems by (simp add: mult.commute)
qed simp

lemma unit_facts:
  assumes "(u, k) \<in> set unitMap"
  shows "map_of unitMap u = Some k" "0 < k" "u \<noteq> []" "\<forall>c \<in> set u. unit_char c"
proof -
  show "map_of unitMap u = Some k" using assms by (intro map_of_is_SomeI) (simp_all add: unitMap_def)
  have "\<forall>(u, k) \<in> set unitMap. 0 < k \<and> u \<noteq> [] \<and> (\<forall>c \<in> set u. unit_char c)"
    by (simp add: unitMap_def unit_char_def is_digit_def)
  then show "0 < k" "u \<noteq> []" "\<forall>c \<in> set u. unit_char c" using assms by auto
qed

lemma term_number_plain:
  assumes "n \<le> 2 ^ 63" and "u \<noteq> []" and "\<forall>c \<in> set u. unit_char c"
  shows "term_number (format_nat n @ u) = Some (n, 0, 1, u)"
proof -
  obtain c u' where u: "u = c # u'" "unit_char c" using assms(2,3) by (cases u) auto
  have "leading_int 0 (format_nat n @ u) = leading_int n u"
    using assms(1) format_nat_digits by (intro leading_int_append parse_format_nat) auto
  also have "\<dots> = Some (n, u)" using u by (simp add: unit_char_def)
  finally have lead: "leading_int 0 (format_nat n @ u) = Some (n, u)" .
  have "hd (format_nat n @ u) = hd (format_nat n)" by simp
  then have "is_digit (hd (format_nat n @ u))" by (simp only: hd_format_nat)
  moreover have "hd u \<noteq> CHR ''.''" using u by (simp add: unit_char_def)
  ultimately show ?thesis using lead by (simp add: term_number_def Let_def)
qed

lemma duration_terms_plain:
  assumes "(u, k) \<in> set unitMap" and "n * k < 2 ^ 63"
  shows "duration_terms 0 (format_nat n @ u) = Some (n * k)"
proof -
  note u = unit_facts [OF assms(1)]
  have "n \<le> n * k" using u(2) by (cases k) auto
  then have n: "n \<le> 2 ^ 63" using assms(2) by linarith
  have "n \<le> 2 ^ 63 div k" using assms(2) u(2) by (simp add: less_eq_div_iff_mult_less_eq)
  then have v: "term_value n 0 1 k = Some (n * k)" by (simp add: term_value_def)
  have w: "takeWhile unit_char u = u" "dropWhile unit_char u = []"
    using u(4) by (auto simp: takeWhile_eq_all_conv dropWhile_eq_Nil_conv)
  have m: "n * k mod 18446744073709551616 = n * k" "\<not> 9223372036854775808 < n * k" using assms(2) by auto
  show ?thesis
    unfolding duration_terms.simps [of 0 "format_nat n @ u"] term_number_plain [OF n u(3,4)]
    using u by (simp add: v w m duration_terms.simps [of _ "[]"] Let_def)
qed

lemma ParseDuration_plain:
  assumes "(u, k) \<in> set unitMap" and "n * k < 2 ^ 63"
  shows "ParseDuration (format_nat n @ u) = Some (int (n * k))"
    and "ParseDuration (CHR ''-'' # format_nat n @ u) = Some (- int (n * k))"
proof -
  let ?s = "format_nat n @ u"
  have "is_digit (hd ?s)" using hd_format_nat [of n] by simp
  then have sign: "hd ?s \<noteq> CHR ''-''" "hd ?s \<noteq> CHR ''+''" using sign_not_digit by auto
  have "format_nat n \<noteq> []" "u \<noteq> []" using unit_facts(3) [OF assms(1)] by auto
  then have "0 < length (format_nat n)" "0 < length u" by blast+
  then have two: "2 \<le> length ?s" unfolding length_append by linarith
  have "?s \<noteq> ''0''"
  proof
    assume e: "?s = ''0''"
    have "length ?s = 1" unfolding e by simp
    with two show False by linarith
  qed
  moreover have "?s \<noteq> []" by simp
  ultimately show "ParseDuration ?s = Some (int (n * k))" "ParseDuration (CHR ''-'' # ?s) = Some (- int (n * k))"
    using sign duration_terms_plain [OF assms] assms(2) by (simp_all add: ParseDuration_def Let_def)
qed

end
