(* ===== verification/Worker_Main.thy ===== *)
theory Worker_Main
  imports Worker_Leases Go_Duration
begin

section \<open>The worker's settings and start-up\<close>

text \<open>
  \<^verbatim>\<open>main\<close> of \<^verbatim>\<open>worker/cmd/worker/main.go\<close> up to its loop, and the functions that read the environment. The
  answers of Redis and of the operating system are arguments, as in \<open>Worker_Job\<close>.
\<close>

subsection \<open>Settings\<close>

definition getdur :: "(string \<Rightarrow> string) \<Rightarrow> string \<Rightarrow> int \<Rightarrow> int" where
  "getdur env key fallback =
     (if env key \<noteq> []
      then case ParseDuration (env key) of Some d \<Rightarrow> d | None \<Rightarrow> fallback
      else fallback)"

record worker_settings =
  ws_backendURL :: string
  ws_redisAddr :: string
  ws_reclaimMinIdle :: int
  ws_maxDeliveries :: int
  ws_heartbeatInterval :: int
  ws_metricsAddr :: string

definition worker_settings_of :: "(string \<Rightarrow> string) \<Rightarrow> worker_settings" where
  "worker_settings_of env =
     \<lparr>ws_backendURL = getenv env ''BACKEND_URL'' ''http://localhost:8080'',
      ws_redisAddr = getenv env ''REDIS_ADDR'' ''localhost:6379'',
      ws_reclaimMinIdle = getdur env ''RECLAIM_MIN_IDLE'' (15 * 10 ^ 9),
      ws_maxDeliveries = getint env ''MAX_DELIVERIES'' 5,
      ws_heartbeatInterval = getdur env ''HEARTBEAT_INTERVAL'' (2 * 10 ^ 9),
      ws_metricsAddr = getenv env ''METRICS_ADDR'' '':9100''\<rparr>"

subsection \<open>Starting up\<close>

text \<open>\<^verbatim>\<open>strings.Contains\<close>\<close>

fun Contains :: "string \<Rightarrow> string \<Rightarrow> bool" where
  "Contains [] sub = (sub = [])"
| "Contains (c # cs) sub = (HasPrefix (c # cs) sub \<or> Contains cs sub)"

text \<open>\<open>hostname\<close> is \<^verbatim>\<open>os.Hostname\<close>, \<open>None\<close> if it fails; \<open>ping\<close> and \<open>created\<close> are errors of Redis.\<close>

definition consumer_name :: "string option \<Rightarrow> int \<Rightarrow> string" where
  "consumer_name hostname pid =
     ''worker-'' @ (case hostname of None \<Rightarrow> FormatInt pid | Some h \<Rightarrow> if h = [] then FormatInt pid else h)"

definition worker_startup ::
  "string option \<Rightarrow> string option \<Rightarrow> string option \<Rightarrow> int \<Rightarrow> string + string" where
  "worker_startup ping created hostname pid =
     (case ping of
        Some e \<Rightarrow> Inl (''redis connection failed: '' @ e)
      | None \<Rightarrow>
          (case created of
             Some e \<Rightarrow>
               if Contains e ''BUSYGROUP'' then Inr (consumer_name hostname pid)
               else Inl (''create consumer group: '' @ e)
           | None \<Rightarrow> Inr (consumer_name hostname pid)))"

subsection \<open>Reading the settings\<close>

text \<open>A setting of \<open>n\<close> seconds: written as \<^verbatim>\<open>"ns"\<close>, or left out with the default \<open>n\<close>.\<close>

definition seconds_setting :: "(string \<Rightarrow> string) \<Rightarrow> string \<Rightarrow> nat \<Rightarrow> nat \<Rightarrow> bool" where
  "seconds_setting env key fallback n \<longleftrightarrow>
     (env key = [] \<and> n = fallback) \<or> (env key = format_nat n @ ''s'' \<and> n < 2 ^ 33)"

lemma seconds_unit: "(''s'', 10 ^ 9) \<in> set unitMap"
  by (simp add: unitMap_def)

lemma getdur_seconds:
  assumes "seconds_setting env key fallback n"
  shows "getdur env key (int fallback * 10 ^ 9) = int n * 10 ^ 9"
  using assms ParseDuration_plain(1) [OF seconds_unit, of n]
  by (auto simp: seconds_setting_def getdur_def)

lemma getdur_negative:
  assumes "env key = CHR ''-'' # format_nat n @ ''s''" and "n < 2 ^ 33"
  shows "getdur env key fallback = - int n * 10 ^ 9"
  using assms ParseDuration_plain(2) [OF seconds_unit, of n] by (simp add: getdur_def)

subsection \<open>Properties\<close>

text \<open>
  C27: settings that keep the lease. The reclaim threshold is \<open>a\<close> seconds and the heartbeat
  interval \<open>h\<close> seconds, set in the environment or by default (15 and 2); the loop of heartbeats
  starts at most \<open>S\<close> nanoseconds after the message was delivered, an XCLAIM takes at most \<open>D\<close> and at
  most \<open>f\<close> of them fail in a row, and the message is acknowledged within \<open>R\<close> after the load is
  over. If \<open>S + (f + 1) * max h D + D + R < a\<close>, a job of any length is never idle for the
  threshold between its delivery and its acknowledgement. The code does not check that relation of
  the settings: with a threshold not above the interval, no job renews its claim before the
  message has been idle for the threshold, however fast Redis is.
\<close>

theorem settings_keep_lease:
  assumes "seconds_setting env ''RECLAIM_MIN_IDLE'' 15 a" and "seconds_setting env ''HEARTBEAT_INTERVAL'' 2 h"
    and "0 < h" and "\<forall>b \<in> set takes. fst b \<le> D" and "tolerable f 0 takes"
    and "over - t0 \<le> int h * 10 ^ 9 * (int (length takes) + 1)" and "td \<le> t0" and "t0 \<le> td + int S"
  shows "\<exists>beats. heartbeat t0 (ws_heartbeatInterval (worker_settings_of env)) over takes = Some (Inr beats) \<and>
    (int S + (int f + 1) * max (int h * 10 ^ 9) (int D) + int D + int R < int a * 10 ^ 9 \<longrightarrow>
      (\<forall>u t. processed u beats \<longrightarrow> td \<le> t \<longrightarrow> t < over + int R \<longrightarrow>
        (\<exists>w \<in> insert td (renewals u beats). w \<le> t \<and> t - w < ws_reclaimMinIdle (worker_settings_of env)))) \<and>
    (a \<le> h \<longrightarrow> (\<forall>u. processed u beats \<longrightarrow> (\<forall>w \<in> renewals u beats. td + ws_reclaimMinIdle (worker_settings_of env) \<le> w)))"
proof -
  let ?h = "int h * 10 ^ 9"
  have ws: "ws_heartbeatInterval (worker_settings_of env) = ?h"
    "ws_reclaimMinIdle (worker_settings_of env) = int a * 10 ^ 9"
    using getdur_seconds [OF assms(1)] getdur_seconds [OF assms(2)] by (simp_all add: worker_settings_of_def)
  have pos: "0 < ?h" using assms(3) by simp
  obtain beats where b: "heartbeat t0 ?h over takes = Some (Inr beats)"
    using heartbeat_returns [OF pos assms(6)] by blast
  have "\<exists>w \<in> insert td (renewals u beats). w \<le> t \<and> t - w < int a * 10 ^ 9"
    if "int S + (int f + 1) * max ?h (int D) + int D + int R < int a * 10 ^ 9"
      "processed u beats" "td \<le> t" "t < over + int R" for u t
    using heartbeat_lease [OF pos b assms(4,5,7,8) that] .
  moreover have "td + int a * 10 ^ 9 \<le> w" if "a \<le> h" "processed u beats" "w \<in> renewals u beats" for u w
  proof -
    have "int a * 10 ^ 9 \<le> ?h" using that(1) by simp
    then show ?thesis using heartbeat_first [OF pos b that(2,3)] assms(7) by linarith
  qed
  ultimately show ?thesis using b by (simp add: ws)
qed

text \<open>The defaults, a job of ten seconds, a claim that fails on the way.\<close>

theorem settings_keep_lease_witness:
  "heartbeat (10 ^ 9) (ws_heartbeatInterval (worker_settings_of (\<lambda>_. []))) (11 * 10 ^ 9)
      [(10 ^ 8, True), (10 ^ 9, False), (10 ^ 8, True), (10 ^ 8, True)] =
    Some (Inr [(3 * 10 ^ 9, 31 * 10 ^ 8, True), (5 * 10 ^ 9, 6 * 10 ^ 9, False),
      (7 * 10 ^ 9, 71 * 10 ^ 8, True), (9 * 10 ^ 9, 91 * 10 ^ 8, True)]) \<and>
   (\<exists>w \<in> {0, 3 * 10 ^ 9, 7 * 10 ^ 9, 9 * 10 ^ 9}. w \<le> 13 * 10 ^ 9 \<and> 13 * 10 ^ 9 - w < (15 * 10 ^ 9 :: int))"
  (is "heartbeat _ ?i ?over ?takes = Some (Inr ?beats) \<and> _")
proof -
  let ?env = "\<lambda>_ :: string. [] :: string"
  have ws: "?i = 2 * 10 ^ 9" "ws_reclaimMinIdle (worker_settings_of ?env) = 15 * 10 ^ 9"
    by (simp_all add: worker_settings_of_def getdur_def)
  have beats: "heartbeat (10 ^ 9) ?i ?over ?takes = Some (Inr ?beats)"
    by (simp add: ws heartbeat_def heartbeat_loop.simps next_tick_def)
  have "seconds_setting ?env ''RECLAIM_MIN_IDLE'' 15 15" "seconds_setting ?env ''HEARTBEAT_INTERVAL'' 2 2"
    "0 < (2 :: nat)" "\<forall>b \<in> set ?takes. fst b \<le> 10 ^ 9" "tolerable 1 0 ?takes"
    "?over - 10 ^ 9 \<le> int 2 * 10 ^ 9 * (int (length ?takes) + 1)"
    "(0 :: int) \<le> 10 ^ 9" "(10 ^ 9 :: int) \<le> 0 + int (10 ^ 9)"
    by (simp_all add: seconds_setting_def)
  from settings_keep_lease [OF this, of "3 * 10 ^ 9"] obtain bs where bs:
    "heartbeat (10 ^ 9) ?i ?over ?takes = Some (Inr bs)"
    and lease: "\<forall>u t. processed u bs \<longrightarrow> 0 \<le> t \<longrightarrow> t < ?over + int (3 * 10 ^ 9) \<longrightarrow>
        (\<exists>w \<in> insert 0 (renewals u bs). w \<le> t \<and> t - w < ws_reclaimMinIdle (worker_settings_of ?env))" by auto
  have "bs = ?beats" using bs beats by simp
  moreover have "processed fst ?beats" by (simp add: processed_def)
  moreover have "renewals fst ?beats = {3 * 10 ^ 9, 7 * 10 ^ 9, 9 * 10 ^ 9}" by (auto simp: renewals_def image_iff)
  ultimately show ?thesis using beats lease [rule_format, of fst "13 * 10 ^ 9"] by (simp add: ws)
qed

text \<open>
  C38: a heartbeat interval that is zero or negative is accepted and crashes the worker.
  \<^verbatim>\<open>getdur\<close> falls back to the default only on a text that is no duration; with \<^verbatim>\<open>0s\<close> or \<^verbatim>\<open>-5s\<close>
  both goroutines of the first job panic in \<^verbatim>\<open>time.NewTicker\<close>.
\<close>

theorem nonpositive_interval_panics:
  assumes "env ''HEARTBEAT_INTERVAL'' = ''0s'' \<or> env ''HEARTBEAT_INTERVAL'' = CHR ''-'' # format_nat n @ ''s''"
    and "n < 2 ^ 33"
  shows "heartbeat t0 (ws_heartbeatInterval (worker_settings_of env)) over takes =
      Some (Inl ''non-positive interval for NewTicker'') \<and>
    watchCancel t0 (ws_heartbeatInterval (worker_settings_of env)) over status polls =
      Some (Inl ''non-positive interval for NewTicker'')"
proof -
  have zero: "format_nat 0 = ''0''" by code_simp
  have "ws_heartbeatInterval (worker_settings_of env) \<le> 0"
    using assms(1)
  proof
    assume "env ''HEARTBEAT_INTERVAL'' = ''0s''"
    then have "seconds_setting env ''HEARTBEAT_INTERVAL'' 2 0" by (simp add: seconds_setting_def zero)
    from getdur_seconds [OF this] show ?thesis by (simp add: worker_settings_of_def)
  next
    assume "env ''HEARTBEAT_INTERVAL'' = CHR ''-'' # format_nat n @ ''s''"
    from getdur_negative [of env, OF this assms(2)] show ?thesis by (simp add: worker_settings_of_def)
  qed
  then show ?thesis by (simp add: heartbeat_def watchCancel_def)
qed

theorem nonpositive_interval_panics_witness:
  "heartbeat 0 (ws_heartbeatInterval (worker_settings_of (\<lambda>k. if k = ''HEARTBEAT_INTERVAL'' then ''0s'' else []))) 9 [] =
     Some (Inl ''non-positive interval for NewTicker'')"
  using nonpositive_interval_panics [of "\<lambda>k. if k = ''HEARTBEAT_INTERVAL'' then ''0s'' else []" 0] by simp

end
