(* ===== verification/Shard_Api.thy ===== *)
theory Shard_Api
  imports Worker_Job
begin

section \<open>What the worker relies on\<close>

text \<open>
  The contract between the worker's jobs and the backend, as the locale \<open>shard_api\<close>, and its
  interpretation: the worker's client, over a network that may lose requests and responses,
  talking to the backend's routes, handlers and store. Inside the locale: when a message is
  acknowledged, and what that says about its shard.
\<close>

subsection \<open>The contract\<close>

text \<open>How a shard's status may change: forward, and not any more once it is terminal.\<close>

definition status_moves :: "run_status option \<Rightarrow> run_status option \<Rightarrow> bool" where
  "status_moves a b \<longleftrightarrow>
     (\<forall>st. a = Some st \<longrightarrow> (\<exists>st'. b = Some st' \<and> st \<le> st' \<and> (terminal st \<longrightarrow> st' = st)))"

definition over :: "run_status option \<Rightarrow> bool" where
  "over a \<longleftrightarrow> (\<forall>st. a = Some st \<longrightarrow> terminal st)"

definition report_ok :: "complete_shard_request \<Rightarrow> bool" where
  "report_ok r \<longleftrightarrow> outcome_text (cs_Status r) \<and> opt_ok (cs_ErrorMessage r)"

lemma status_moves_refl [simp]: "status_moves a a"
  by (simp add: status_moves_def)

lemma status_moves_trans: "status_moves a b \<Longrightarrow> status_moves b c \<Longrightarrow> status_moves a c"
  by (fastforce simp: status_moves_def)

lemma started_moves: "status_moves a b \<Longrightarrow> a \<noteq> Some Queued \<Longrightarrow> a \<noteq> None \<Longrightarrow> b \<noteq> Some Queued"
  by (auto simp: status_moves_def less_eq_run_status_def) (metis le_0_eq status_rank.simps(1) status_rank_inj)

lemma over_moves: "status_moves a b \<Longrightarrow> over a \<Longrightarrow> a \<noteq> None \<Longrightarrow> over b"
  by (auto simp: status_moves_def over_def)

locale shard_api =
  fixes inv :: "'s \<Rightarrow> bool"
    and status :: "int \<Rightarrow> 's \<Rightarrow> run_status option"
    and start :: "int \<Rightarrow> 's \<Rightarrow> ('e + shard_assignment option) \<times> 's"
    and takeover :: "int \<Rightarrow> 's \<Rightarrow> ('e + shard_assignment option) \<times> 's"
    and report :: "int \<Rightarrow> complete_shard_request \<Rightarrow> 's \<Rightarrow> ('e + unit) \<times> 's"
  assumes start_keeps: "inv s \<Longrightarrow> int64_ok i \<Longrightarrow> start i s = (x, s') \<Longrightarrow>
      inv s' \<and> status_moves (status j s) (status j s')"
    and takeover_keeps: "inv s \<Longrightarrow> int64_ok i \<Longrightarrow> takeover i s = (x, s') \<Longrightarrow>
      inv s' \<and> status_moves (status j s) (status j s')"
    and report_keeps: "inv s \<Longrightarrow> int64_ok i \<Longrightarrow> report_ok r \<Longrightarrow> report i r s = (y, s') \<Longrightarrow>
      inv s' \<and> status_moves (status j s) (status j s')"
    and start_frame: "inv s \<Longrightarrow> int64_ok i \<Longrightarrow> j \<noteq> i \<Longrightarrow> status j (snd (start i s)) = status j s"
    and takeover_frame: "inv s \<Longrightarrow> int64_ok i \<Longrightarrow> j \<noteq> i \<Longrightarrow> status j (snd (takeover i s)) = status j s"
    and report_frame: "inv s \<Longrightarrow> int64_ok i \<Longrightarrow> report_ok r \<Longrightarrow> j \<noteq> i \<Longrightarrow>
      status j (snd (report i r s)) = status j s"
    and start_None: "inv s \<Longrightarrow> int64_ok i \<Longrightarrow> start i s = (Inr None, s') \<Longrightarrow>
      status i s' = status i s \<and> status i s' \<noteq> Some Queued"
    and takeover_None: "inv s \<Longrightarrow> int64_ok i \<Longrightarrow> takeover i s = (Inr None, s') \<Longrightarrow> over (status i s')"
    and start_Some: "inv s \<Longrightarrow> int64_ok i \<Longrightarrow> start i s = (Inr (Some a), s') \<Longrightarrow>
      sa_ShardID a = i \<and> status i s' = Some Running"
    and takeover_Some: "inv s \<Longrightarrow> int64_ok i \<Longrightarrow> takeover i s = (Inr (Some a), s') \<Longrightarrow>
      sa_ShardID a = i \<and> status i s' = Some Running"
    and report_done: "inv s \<Longrightarrow> int64_ok i \<Longrightarrow> report_ok r \<Longrightarrow> report i r s = (Inr (), s') \<Longrightarrow>
      status i s' \<noteq> None \<and> over (status i s')"
begin

text \<open>Claiming by cases: nothing to claim, or a call to the backend and what came back.\<close>

lemma claim_cases:
  assumes "claim_job start takeover reclaimed msg s = (st, s')"
  obtains (malformed) "message_shard msg = None" "st = Discard" "s' = s"
  | (called) i x where "message_shard msg = Some i" "int64_ok i"
      "(if reclaimed then takeover i s else start i s) = (x, s')"
      "st = (case x of Inl e \<Rightarrow> Retry | Inr None \<Rightarrow> Discard | Inr (Some a) \<Rightarrow> Work a)"
proof (cases "message_shard msg")
  case None
  then show thesis using assms malformed by (simp add: claim_job_def)
next
  case (Some i)
  obtain x t where "(if reclaimed then takeover i s else start i s) = (x, t)" by fastforce
  with Some assms called [OF Some message_shard_int64 [OF Some], of x] show thesis
    by (auto simp: claim_job_def split: sum.splits option.splits)
qed

lemma claim_keeps:
  assumes "inv s" and "claim_job start takeover reclaimed msg s = (st, s')"
  shows "inv s' \<and> status_moves (status j s) (status j s')"
  using assms(2)
proof (cases rule: claim_cases)
  case malformed
  then show ?thesis using assms(1) by simp
next
  case (called i x)
  then show ?thesis
    using start_keeps [OF assms(1), of i x s' j] takeover_keeps [OF assms(1), of i x s' j]
    by (simp split: if_splits)
qed

text \<open>A message is given up only when its shard needs no worker, or, on a first delivery, has one.\<close>

lemma claim_discard:
  assumes "inv s" and "claim_job start takeover reclaimed msg s = (Discard, s')"
    and "message_shard msg = Some i"
  shows "if reclaimed then over (status i s') else status i s' \<noteq> Some Queued"
  using assms(2)
proof (cases rule: claim_cases)
  case (called i' x)
  then have "x = Inr None" by (auto split: sum.splits option.splits)
  then show ?thesis using called assms(3) start_None [OF assms(1), of i s'] takeover_None [OF assms(1), of i s']
    by (cases reclaimed) auto
qed (use assms in simp)

lemma claim_frame:
  assumes "inv s" and "claim_job start takeover reclaimed msg s = (st, s')" and "message_shard msg \<noteq> Some j"
  shows "status j s' = status j s"
  using assms(2)
proof (cases rule: claim_cases)
  case (called i x)
  then show ?thesis
    using start_frame [OF assms(1), of i j] takeover_frame [OF assms(1), of i j] assms(3)
    by (cases reclaimed) auto
qed simp

text \<open>On a first delivery, giving up changes nothing.\<close>

lemma first_discard:
  assumes "inv s" and "claim_job start takeover False msg s = (Discard, s')" and "message_shard msg = Some i"
  shows "status i s' = status i s"
  using assms(2)
proof (cases rule: claim_cases)
  case (called i' x)
  then have "x = Inr None" by (auto split: sum.splits option.splits)
  then show ?thesis using called assms(3) start_None [OF assms(1), of i s'] by simp
qed simp

lemma claim_work:
  assumes "inv s" and "claim_job start takeover reclaimed msg s = (Work a, s')"
  shows "message_shard msg = Some (sa_ShardID a) \<and> status (sa_ShardID a) s' = Some Running"
  using assms(2)
proof (cases rule: claim_cases)
  case (called i x)
  then have "x = Inr (Some a)" by (auto split: sum.splits option.splits)
  then show ?thesis using called start_Some [OF assms(1), of i a s'] takeover_Some [OF assms(1), of i a s']
    by (auto split: if_splits)
qed simp

lemma report_job_facts:
  assumes "inv s" and "report_job report a r s = (st, s')" and "int64_ok (sa_ShardID a)" and "report_ok r"
  shows "inv s' \<and> status_moves (status j s) (status j s')"
    and "st = Discard \<Longrightarrow> status (sa_ShardID a) s' \<noteq> None \<and> over (status (sa_ShardID a) s')"
    and "st = Discard \<or> st = Retry"
proof -
  obtain y where y: "report (sa_ShardID a) r s = (y, s')" "st = (case y of Inl e \<Rightarrow> Retry | Inr u \<Rightarrow> Discard)"
    using assms(2) by (auto simp: report_job_def split: prod.splits sum.splits)
  show "inv s' \<and> status_moves (status j s) (status j s')" using report_keeps [OF assms(1,3,4) y(1)] .
  show "st = Discard \<Longrightarrow> status (sa_ShardID a) s' \<noteq> None \<and> over (status (sa_ShardID a) s')"
    using report_done [OF assms(1,3,4), of s'] y by (auto split: sum.splits)
  show "st = Discard \<or> st = Retry" using y(2) by (auto split: sum.splits)
qed

lemma executeShard_report_ok: "executeShard lib t cancel scripts a = Some r \<Longrightarrow> report_ok r"
  by (auto simp: executeShard_def report_ok_def report_failed_def report_completed_def outcome_text_def
      Run_def opt_ok_def text_ok_def split: if_splits option.splits)

text \<open>The whole of \<open>handleMessage\<close>: what an acknowledgement means.\<close>

lemma handleMessage_acks:
  assumes "inv s" and "message_shard msg = Some i"
    and "handleMessage lib start takeover report env reclaimed msg s = Some (s', cs)" and "cs \<noteq> []"
    and rest: "\<And>t j. inv t \<Longrightarrow> inv (je_meanwhile env t) \<and> status_moves (status j t) (status j (je_meanwhile env t))"
  shows "cs = ack (msg_ID msg)"
    and "over (status i s') \<or> (\<not> reclaimed \<and> s' = snd (start i s) \<and> status i s' \<noteq> Some Queued)"
proof -
  obtain st s1 where C: "claim_job start takeover reclaimed msg s = (st, s1)" by fastforce
  have s1: "inv s1" using claim_keeps [OF assms(1) C] by blast
  show "cs = ack (msg_ID msg)"
    using assms(3,4) C by (auto simp: handleMessage_def split: job_step.splits option.splits prod.splits)
  show "over (status i s') \<or> (\<not> reclaimed \<and> s' = snd (start i s) \<and> status i s' \<noteq> Some Queued)"
  proof (cases st)
    case Discard
    then have "s' = s1" using assms(3) C by (simp add: handleMessage_def)
    moreover have "\<not> reclaimed \<Longrightarrow> s1 = snd (start i s)"
      using C assms(2) by (auto simp: claim_job_def split: prod.splits sum.splits option.splits)
    ultimately show ?thesis using claim_discard [OF assms(1) C [unfolded Discard] assms(2)]
      by (cases reclaimed) auto
  next
    case Retry
    then show ?thesis using assms(3,4) C by (simp add: handleMessage_def)
  next
    case (Work a)
    have a: "sa_ShardID a = i" "int64_ok i"
      using claim_work [OF assms(1) C [unfolded Work]] assms(2) message_shard_int64 by auto
    obtain r where r: "executeShard lib (je_start env) (je_cancel env) (je_scripts env) a = Some r"
      using assms(3) C Work by (auto simp: handleMessage_def split: option.splits)
    obtain st2 s2 where R: "report_job report a r (je_meanwhile env s1) = (st2, s2)" by fastforce
    note facts = report_job_facts [OF _ R _ executeShard_report_ok [OF r]]
    have "st2 = Discard \<and> s' = s2"
      using assms(3,4) C Work r R facts(3) rest [OF s1] a
      by (auto simp: handleMessage_def split: job_step.splits)
    then show ?thesis using facts(2) rest [OF s1] a by auto
  qed
qed

end

subsection \<open>The backend's side of it\<close>

definition shard_status :: "int \<Rightarrow> db \<Rightarrow> run_status option" where
  "shard_status i d = map_option sh_status (find_shard i d)"

lemma shard_status_moves:
  assumes "db_progress d d'" and "wf_db d'"
  shows "status_moves (shard_status i d) (shard_status i d')"
  using db_progress_shard [OF assms] by (fastforce simp: status_moves_def shard_status_def)

lemma call_keeps:
  assumes "store_reach d" and "valid_call c" and "d' = d \<or> d' = run_call now c d"
  shows "store_reach d' \<and> status_moves (shard_status i d) (shard_status i d')"
proof -
  have wf: "wf_db d" using assms(1) by (rule store_reach_wf)
  have "store_reach d'" using assms store_reach.call by blast
  moreover have "db_progress d d'"
    using assms(2,3) wf run_call_progress [of d c now] by (auto simp: wf_db_def)
  ultimately show ?thesis using shard_status_moves store_reach_wf by blast
qed

lemma find_shard_None: "find_shard i d = None \<Longrightarrow> shard_status i d = None"
  by (simp add: shard_status_def)

text \<open>What the errors and the successes of the store say about the shard.\<close>

lemma startShard_Inl_miss:
  assumes "wf_db d" and "startShard now i again miss d = (Inl miss, d')" and "miss \<noteq> ErrNotFound"
  shows "d' = d \<and> (\<forall>s. find_shard i d = Some s \<longrightarrow> \<not> shard_guard again s)"
proof -
  have C: "claim_shard now i again miss d = (Inl miss, d')"
    using assms(2) by (auto simp: startShard_def split: prod.splits sum.splits)
  then have "d' = d" by (rule claim_shard_Inl)
  moreover have "\<not> shard_guard again s" if s: "find_shard i d = Some s" for s
  proof
    assume g: "shard_guard again s"
    have mem: "s \<in> set (db_shards d)" "sh_id s = i" using find_shard_mem [OF s] by auto
    moreover have "find_run (sh_run_id s) d \<noteq> None" using wf_shard_run [OF assms(1) mem(1)] by simp
    ultimately have "update_by_id sh_id i (\<lambda>s. shard_guard again s \<and> find_run (sh_run_id s) d \<noteq> None)
        (set_shard_running now) (db_shards d) \<noteq> (None, t)" for t
      using g by (auto simp: update_by_id_def query_row_returning find_None_iff)
    with C show False by (auto simp: claim_shard_def Let_def split: prod.splits option.splits)
  qed
  ultimately show ?thesis by blast
qed

lemma startShard_missing:
  assumes "startShard now i again miss d = (Inl ErrNotFound, d')" and "miss \<noteq> ErrNotFound"
  shows "d' = d \<and> find_shard i d = None"
proof -
  have C: "claim_shard now i again miss d = (Inl ErrNotFound, d')"
    using assms(1) by (auto simp: startShard_def split: prod.splits sum.splits)
  then show ?thesis using claim_shard_Inl [OF C] assms(2)
    by (auto simp: claim_shard_def shardMiss_def Let_def split: prod.splits option.splits if_splits)
qed

lemma find_upd_where_hit:
  assumes "\<And>r. Q (f r) = Q r" and "List.find Q t = Some r" and "P r"
  shows "List.find Q (upd_where P f t) = Some (f r)"
  using assms(2) by (induction t) (auto simp: upd_where_def assms(1,3) split: if_splits)

lemma claim_shard_runs:
  assumes "wf_db d" and "claim_shard now i again miss d = (Inr a, d1)"
  shows "sa_ShardID a = i \<and> shard_status i d1 = Some Running"
    and "\<exists>s. find_shard i d = Some s \<and> shard_guard again s"
proof -
  from assms(2) obtain s where s: "s \<in> set (db_shards d)" "sh_id s = i" "shard_guard again s" "sa_ShardID a = i"
    "d1 = d\<lparr>db_shards := upd_where (\<lambda>s. sh_id s = i \<and> shard_guard again s \<and>
       find_run (sh_run_id s) d \<noteq> None) (set_shard_running now) (db_shards d)\<rparr>"
    by (rule claim_shard_Inr)
  have "find_run (sh_run_id s) d \<noteq> None" using wf_shard_run [OF assms(1) s(1)] by simp
  moreover have "List.find (\<lambda>s. sh_id s = i) (db_shards d) = Some s"
    using wf_find_shard [OF assms(1) s(1)] s(2) by (simp add: find_shard_def)
  ultimately have "find_shard i d1 = Some (set_shard_running now s)"
    using s(2,3) by (simp add: find_shard_def s(5) find_upd_where_hit set_shard_running_def)
  then show "sa_ShardID a = i \<and> shard_status i d1 = Some Running"
    using s(4) by (simp add: shard_status_def find_shard_def set_shard_running_def)
  show "\<exists>s. find_shard i d = Some s \<and> shard_guard again s" using wf_find_shard [OF assms(1) s(1)] s(2,3) by auto
qed

lemma startShard_runs:
  assumes "wf_db d" and "startShard now i again miss d = (Inr a, d')"
  shows "sa_ShardID a = i \<and> shard_status i d' = Some Running"
proof -
  obtain d1 where C: "claim_shard now i again miss d = (Inr a, d1)"
    and d': "d' = mark_run_running now (sa_RunID a) d1"
    using assms(2) by (auto simp: startShard_def split: prod.splits sum.splits)
  from claim_shard_runs(1) [OF assms(1) C] d' show ?thesis by (simp add: shard_status_def find_shard_def)
qed

lemma shard_status_cases:
  assumes "wf_db d" and "find_shard i d = Some s"
  shows "sh_status s \<in> {Queued, Running, Completed, Failed}"
proof -
  have "shard_status_ok (sh_status s)"
    using find_shard_mem [OF assms(2)] assms(1) unfolding wf_db_def by blast
  then show ?thesis by (cases "sh_status s") (simp_all add: shard_status_ok_def)
qed

lemma finishShard_over:
  assumes "wf_db d" and "finishShard now i g f miss d = (Inr (), d')"
    and f: "\<And>s. sh_run_id (f s) = sh_run_id s" "\<And>s. sh_id (f s) = sh_id s" "\<And>s. terminal (sh_status (f s))"
    and miss: "miss = None \<longrightarrow> (\<forall>s. find_shard i d = Some s \<longrightarrow> \<not> g s \<longrightarrow> terminal (sh_status s))"
  shows "\<exists>st. shard_status i d' = Some st \<and> terminal st"
proof (cases "\<exists>s. find_shard i d = Some s \<and> g s")
  case True
  then obtain s where s: "find_shard i d = Some s" "g s" by blast
  let ?t = "upd_where (\<lambda>s. sh_id s = i \<and> g s) f (db_shards d)"
  have "update_by_id sh_id i g f (db_shards d) = (Some (f s), ?t)"
  proof -
    have "List.find (\<lambda>s. sh_id s = i \<and> g s) (db_shards d) = Some s"
    proof -
      have "List.find (\<lambda>s. sh_id s = i \<and> g s) (db_shards d) \<noteq> None"
        using find_shard_mem [OF s(1)] s(2) by (auto simp: find_None_iff)
      then obtain s' where s': "List.find (\<lambda>s. sh_id s = i \<and> g s) (db_shards d) = Some s'" by blast
      then have "s' \<in> set (db_shards d)" "sh_id s' = i" by (auto simp: find_Some_iff)
      then have "s' = s" using wf_find_shard [OF assms(1), of s'] s(1) by simp
      with s' show ?thesis by simp
    qed
    then show ?thesis by (simp add: update_by_id_def query_row_returning)
  qed
  then have "barrier now (sh_run_id s) (d\<lparr>db_shards := ?t\<rparr>) = Inr d'"
    using assms(2) f(1) by (auto simp: finishShard_def split: sum.splits)
  then have "db_shards d' = ?t" by (auto dest: barrier_shards)
  moreover have "List.find (\<lambda>s. sh_id s = i) ?t = Some (f s)"
    using s find_shard_mem [OF s(1)] f(2) by (intro find_upd_where_hit) (auto simp: find_shard_def)
  ultimately show ?thesis using f(3) by (simp add: shard_status_def find_shard_def)
next
  case False
  then have "query_row (returning (\<lambda>s. sh_id s = i \<and> g s) f (db_shards d)) = None"
    using wf_find_shard [OF assms(1)] by (auto simp: query_row_returning find_None_iff)
  then have "shardMiss i miss d = None \<and> d' = d"
    using assms(2) by (auto simp: finishShard_def update_by_id_def split: option.splits)
  then obtain s where "find_shard i d = Some s" "miss = None" "d' = d"
    by (auto simp: shardMiss_def split: if_splits)
  then show ?thesis using False miss by (auto simp: shard_status_def)
qed

lemma CompleteShard_over:
  assumes "wf_db d" and "outcome_text (cs_Status req)" and "CompleteShard now i req d = (Inr (), d')"
  shows "\<exists>st. shard_status i d' = Some st \<and> terminal st"
proof -
  obtain st where st: "shard_status_of (cs_Status req) = Some st" "terminal st"
    using outcome_status [OF assms(2)] by blast
  have "finishShard now i (\<lambda>s. sh_status s = Running) (set_shard_outcome now st req) (Some ErrNotRunning) d =
      (Inr (), d')"
    using assms(3) st(1) by (auto simp: CompleteShard_def split: if_splits)
  from finishShard_over [OF assms(1) this] st(2) show ?thesis by (simp add: set_shard_outcome_def)
qed

lemma FailShard_over:
  assumes "wf_db d" and "FailShard now i reason d = (Inr (), d')"
  shows "\<exists>st. shard_status i d' = Some st \<and> terminal st"
proof -
  have "finishShard now i (\<lambda>s. sh_status s \<in> {Queued, Running}) (set_shard_failed now reason) None d =
      (Inr (), d')"
    using assms(2) by (auto simp: FailShard_def split: if_splits)
  moreover have "terminal (sh_status s)" if "find_shard i d = Some s" "sh_status s \<notin> {Queued, Running}" for s
    using shard_status_cases [OF assms(1) that(1)] that(2) by auto
  ultimately show ?thesis using finishShard_over [OF assms(1)] by (auto simp: set_shard_failed_def)
qed

subsection \<open>The client keeps the contract\<close>

lemma start_unclaimable:
  assumes "store_reach d"
    and "startShard now i again miss d \<in> {(Inl miss, d'), (Inl ErrNotFound, d')}" and "miss \<noteq> ErrNotFound"
  shows "d' = d" and "if again then over (shard_status i d') else shard_status i d' \<noteq> Some Queued"
proof -
  have wf: "wf_db d" using assms(1) by (rule store_reach_wf)
  consider "startShard now i again miss d = (Inl miss, d')" | "startShard now i again miss d = (Inl ErrNotFound, d')"
    using assms(2) by blast
  then have "d' = d \<and> (if again then over (shard_status i d') else shard_status i d' \<noteq> Some Queued)"
  proof cases
    case 1
    then have "d' = d" "\<forall>s. find_shard i d = Some s \<longrightarrow> \<not> shard_guard again s"
      using startShard_Inl_miss [OF wf _ assms(3)] by blast+
    then show ?thesis
      using shard_status_cases [OF wf] by (fastforce simp: over_def shard_status_def shard_guard_def)
  next
    case 2
    then have "d' = d" "find_shard i d = None" using startShard_missing [OF _ assms(3)] by blast+
    then show ?thesis by (simp add: over_def shard_status_def)
  qed
  then show "d' = d" and "if again then over (shard_status i d') else shard_status i d' \<noteq> Some Queued"
    by (cases again; blast)+
qed

text \<open>An operation on one shard leaves the status of the others alone.\<close>

lemma upd_status_frame:
  assumes "db_shards d' = upd_where (\<lambda>s. sh_id s = i \<and> g s) f (db_shards d)" and "\<And>s. sh_id (f s) = sh_id s"
    and "j \<noteq> i"
  shows "shard_status j d' = shard_status j d"
  using assms find_upd_where [of "\<lambda>s. sh_id s = j" f "db_shards d" "\<lambda>s. sh_id s = i \<and> g s"]
  by (auto simp: shard_status_def find_shard_def)

lemma claim_shard_frame:
  assumes "j \<noteq> i" shows "shard_status j (snd (claim_shard now i again miss d)) = shard_status j d"
proof (cases "claim_shard now i again miss d")
  case (Pair x d1)
  show ?thesis
  proof (cases x)
    case (Inl e)
    then show ?thesis using Pair claim_shard_Inl [of now i again miss d e d1] by simp
  next
    case (Inr a)
    obtain s where "d1 = d\<lparr>db_shards := upd_where (\<lambda>s. sh_id s = i \<and> shard_guard again s \<and>
        find_run (sh_run_id s) d \<noteq> None) (set_shard_running now) (db_shards d)\<rparr>"
      using Pair [unfolded Inr] by (rule claim_shard_Inr)
    then have "db_shards d1 = upd_where (\<lambda>s. sh_id s = i \<and> (shard_guard again s \<and>
        find_run (sh_run_id s) d \<noteq> None)) (set_shard_running now) (db_shards d)" by simp
    then have "shard_status j d1 = shard_status j d"
      by (rule upd_status_frame [OF _ _ assms]) (simp add: set_shard_running_def)
    then show ?thesis using Pair by simp
  qed
qed

lemma startShard_frame:
  assumes "j \<noteq> i" shows "shard_status j (snd (startShard now i again miss d)) = shard_status j d"
  using claim_shard_frame [OF assms, of now again miss d]
  by (auto simp: startShard_def shard_status_def find_shard_def split: prod.split sum.split)

lemma finishShard_frame:
  assumes "j \<noteq> i" and "\<And>s. sh_run_id (f s) = sh_run_id s" and "\<And>s. sh_id (f s) = sh_id s"
  shows "shard_status j (snd (finishShard now i g f miss d)) = shard_status j d"
proof -
  obtain x d' where F: "finishShard now i g f miss d = (x, d')" by fastforce
  from F assms(2) have "d' = d \<or> db_shards d' = upd_where (\<lambda>s. sh_id s = i \<and> g s) f (db_shards d)"
    by (cases rule: finishShard_cases) (auto dest: barrier_shards)
  then have "shard_status j d' = shard_status j d" using upd_status_frame [OF _ assms(3,1)] by blast
  then show ?thesis using F by simp
qed

lemma report_frames:
  assumes "j \<noteq> i"
  shows "shard_status j (snd (CompleteShard now i req d)) = shard_status j d"
    and "shard_status j (snd (FailShard now i reason d)) = shard_status j d"
  using finishShard_frame [OF assms, of "set_shard_outcome now (the (shard_status_of (cs_Status req))) req"]
    finishShard_frame [OF assms, of "set_shard_failed now reason"]
  by (auto simp: CompleteShard_def FailShard_def set_shard_outcome_def set_shard_failed_def split: option.splits)

interpretation worker_api: shard_api store_reach shard_status
  "\<lambda>i d. StartShard_rpc lib c (serve_call lib' h now1 up1) net1 i d"
  "\<lambda>i d. TakeOverShard_rpc lib c (serve_call lib' h now2 up2) net2 i d"
  "\<lambda>i r d. CompleteShard_rpc lib c (serve_call lib' h now3 up3) net3 i r d"
  for lib c lib' h now1 up1 net1 now2 up2 net2 now3 up3 net3
proof unfold_locales
  fix d d' :: db and i j :: int and x and a
  assume d: "store_reach d" and i: "int64_ok i"
  have wf: "wf_db d" using d by (rule store_reach_wf)
  show "store_reach d' \<and> status_moves (shard_status j d) (shard_status j d')"
    if "StartShard_rpc lib c (serve_call lib' h now1 up1) net1 i d = (x, d')"
    using call_keeps [OF d, of "CallStartShard i" d' now1] call_keeps [OF d, of "CallStartShardHalf False i" d' now1]
      StartShard_rpc_facts(1) [OF that i] by auto
  show "store_reach d' \<and> status_moves (shard_status j d) (shard_status j d')"
    if "TakeOverShard_rpc lib c (serve_call lib' h now2 up2) net2 i d = (x, d')"
    using call_keeps [OF d, of "CallTakeOverShard i" d' now2] call_keeps [OF d, of "CallStartShardHalf True i" d' now2]
      TakeOverShard_rpc_facts(1) [OF that i] by auto
  show "shard_status i d' = shard_status i d \<and> shard_status i d' \<noteq> Some Queued"
    if "StartShard_rpc lib c (serve_call lib' h now1 up1) net1 i d = (Inr None, d')"
    using start_unclaimable [OF d, of now1 i False ErrNotQueued d'] StartShard_rpc_facts(3) [OF that i]
    by (simp add: StartShard_def)
  show "over (shard_status i d')"
    if "TakeOverShard_rpc lib c (serve_call lib' h now2 up2) net2 i d = (Inr None, d')"
    using start_unclaimable [OF d, of now2 i True ErrAlreadyDone d'] TakeOverShard_rpc_facts(3) [OF that i]
    by (simp add: TakeOverShard_def)
  show "sa_ShardID a = i \<and> shard_status i d' = Some Running"
    if "StartShard_rpc lib c (serve_call lib' h now1 up1) net1 i d = (Inr (Some a), d')"
    using startShard_runs [OF wf] StartShard_rpc_facts(2) [OF that i] by (simp add: StartShard_def)
  show "sa_ShardID a = i \<and> shard_status i d' = Some Running"
    if "TakeOverShard_rpc lib c (serve_call lib' h now2 up2) net2 i d = (Inr (Some a), d')"
    using startShard_runs [OF wf] TakeOverShard_rpc_facts(2) [OF that i] by (simp add: TakeOverShard_def)
  show "shard_status j (snd (StartShard_rpc lib c (serve_call lib' h now1 up1) net1 i d)) = shard_status j d"
    if "j \<noteq> i"
    using startShard_frame [OF that, of now1 False ErrNotQueued d] claim_shard_frame [OF that, of now1 False ErrNotQueued d]
      StartShard_rpc_facts(1) [OF prod.collapse [symmetric] i, of lib c lib' h now1 up1 net1 d]
    by (auto simp: StartShard_def)
  show "shard_status j (snd (TakeOverShard_rpc lib c (serve_call lib' h now2 up2) net2 i d)) = shard_status j d"
    if "j \<noteq> i"
    using startShard_frame [OF that, of now2 True ErrAlreadyDone d] claim_shard_frame [OF that, of now2 True ErrNotQueued d]
      TakeOverShard_rpc_facts(1) [OF prod.collapse [symmetric] i, of lib c lib' h now2 up2 net2 d]
    by (auto simp: TakeOverShard_def)
next
  fix d d' :: db and i j :: int and r and y :: "client_error + unit"
  assume d: "store_reach d" and i: "int64_ok i" and r: "report_ok r"
  then have o: "outcome_text (cs_Status r)" by (simp add: report_ok_def)
  show "store_reach d' \<and> status_moves (shard_status j d) (shard_status j d')"
    if "CompleteShard_rpc lib c (serve_call lib' h now3 up3) net3 i r d = (y, d')"
    using call_keeps [OF d, of "CallCompleteShard i r" d' now3] CompleteShard_rpc_facts(1) [OF that i o] r
    by (simp add: report_ok_def)
  show "shard_status j (snd (CompleteShard_rpc lib c (serve_call lib' h now3 up3) net3 i r d)) = shard_status j d"
    if "j \<noteq> i"
    using report_frames(1) [OF that, of now3 r d]
      CompleteShard_rpc_facts(1) [OF prod.collapse [symmetric] i o, of lib c lib' h now3 up3 net3 d]
    by auto
  show "shard_status i d' \<noteq> None \<and> over (shard_status i d')"
    if "CompleteShard_rpc lib c (serve_call lib' h now3 up3) net3 i r d = (Inr (), d')"
    using CompleteShard_over [OF store_reach_wf [OF d] o CompleteShard_rpc_facts(2) [OF that i o refl]]
    by (auto simp: over_def)
qed

end
