(* ===== verification/Worker_Calls.thy ===== *)
theory Worker_Calls
  imports Shard_Api
begin

section \<open>From the worker to the store and back\<close>

text \<open>
  What the worker's calls amount to when the network works: the string of the id, the path,
  the routes, the handler and the status codes together are the store operation. The last
  part states what the worker's acknowledgements and dead letters mean for the shard.
\<close>

subsection \<open>Through the network and back\<close>

lemma base_url_parses:
  assumes "cl_baseURL c = ''http://'' @ h @ p" and "plain_host h" and "plain_port p"
    and "set act \<subseteq> set ''/abcdefghijklmnopqrstuvwxyz''"
  shows "url_parse lib (cl_baseURL c @ ''/internal/shards/'' @ FormatInt i @ act) \<noteq> None"
proof -
  let ?path = "''/internal/shards/'' @ FormatInt i @ act"
  let ?low = "''/abcdefghijklmnopqrstuvwxyz''"
  have low: "set ''/internal/shards/'' \<subseteq> set ?low" by simp
  have ok: "\<forall>x \<in> set ?low. \<not> is_ctl x \<and> x \<notin> set ''%?#''" by (simp add: is_ctl_def Let_def)
  have num: "\<not> is_ctl x \<and> x \<notin> set ''%?#''" if "is_digit x \<or> x = CHR ''-''" for x
    using that by (auto simp: is_ctl_def is_digit_def Let_def)
  have "\<not> is_ctl x" "x \<notin> set ''%?#''" if "x \<in> set ?path" for x
  proof -
    have "x \<in> set ''/internal/shards/'' \<or> x \<in> set (FormatInt i) \<or> x \<in> set act"
      using that unfolding set_append by blast
    then have "x \<in> set ?low \<or> is_digit x \<or> x = CHR ''-''"
      using low assms(4) FormatInt_chars [of x i] by blast
    then show "\<not> is_ctl x" "x \<notin> set ''%?#''" using ok num by blast+
  qed
  then have q: "quiet ''%?#'' ?path" by (simp add: quiet_def)
  have "url_parse lib (''http'' @ ''://'' @ (h @ p) @ ?path) \<noteq> None"
    using url_parse_web [OF _ plain_quiet [OF assms(2,3)] q, of "''http''" lib]
      parseAuthority_plain(1) [OF assms(2,3)] by simp
  then show ?thesis using assms(1) by simp
qed

definition answer :: "store_error \<Rightarrow> (store_error + 'a) \<times> db \<Rightarrow> (client_error + 'a option) \<times> db" where
  "answer miss x =
     (case x of
        (Inr a, d) \<Rightarrow> (Inr (Some a), d)
      | (Inl e, d) \<Rightarrow> (if e = miss \<or> e = ErrNotFound then Inr None else Inl (Err_status 500), d))"

definition accepted :: "(store_error + unit) \<times> db \<Rightarrow> (client_error + unit) \<times> db" where
  "accepted x =
     (case x of
        (Inr u, d) \<Rightarrow> (Inr (), d)
      | (Inl ErrNotFound, d) \<Rightarrow> (Inl (Err_status 404), d)
      | (Inl ErrNotRunning, d) \<Rightarrow> (Inl (Err_status 409), d)
      | (Inl _, d) \<Rightarrow> (Inl (Err_status 500), d))"

lemma claim_errors:
  "fst (StartShard now i d) \<noteq> Inl ErrAlreadyDone" "fst (TakeOverShard now i d) \<noteq> Inl ErrNotQueued"
  by (auto simp: StartShard_def TakeOverShard_def startShard_def claim_shard_def shardMiss_def Let_def
      split: prod.splits option.splits if_splits sum.splits)

lemma FailShard_errors: "fst (FailShard now i reason d) \<noteq> Inl ErrNotRunning"
  by (auto simp: FailShard_def finishShard_def shardMiss_def barrier_def aggregateRun_def Let_def
      split: prod.splits option.splits if_splits sum.splits)

lemma http_do_ok:
  "url_parse lib (cl_baseURL c @ rq_path rq) \<noteq> None \<Longrightarrow> backend rq d = Some (r, d1) \<Longrightarrow>
   http_do lib c backend Net_ok rq d = (Inr r, d1)"
  by (simp add: http_do_def)

lemma rq_paths: "rq_path (plain_rq m path) = path" "rq_path (shard_rq path body) = path"
  "rq_path (reason_rq path reason) = path"
  by (simp_all add: plain_rq_def shard_rq_def reason_rq_def)

text \<open>Each call, once its request is known to parse.\<close>

lemma StartShard_arrives:
  assumes "url_parse lib (cl_baseURL c @ ''/internal/shards/'' @ FormatInt i @ ''/start'') \<noteq> None"
    and "int64_ok i" "0 < i"
  shows "StartShard_rpc lib c (serve_call lib' hl now (True, True)) Net_ok i d = answer ErrNotQueued (StartShard now i d)"
proof -
  obtain r d1 where H: "StartShard_http now True True (FormatInt i) d = (r, d1)" by fastforce
  have "http_do lib c (serve_call lib' hl now (True, True)) Net_ok
      (plain_rq ''POST'' (''/internal/shards/'' @ FormatInt i @ ''/start'')) d = (Inr r, d1)"
    by (rule http_do_ok) (simp_all only: rq_paths assms(1) serve_call_shard H fst_conv snd_conv not_False_eq_True)
  then show ?thesis
    unfolding StartShard_rpc_def claimShard_rpc_def
    using H assms(2,3) claim_errors(1) [of now i d]
    by (auto simp: StartShard_http_def codes answer_def split: prod.splits sum.splits store_error.splits)
qed

lemma TakeOverShard_arrives:
  assumes "url_parse lib (cl_baseURL c @ ''/internal/shards/'' @ FormatInt i @ ''/takeover'') \<noteq> None"
    and "int64_ok i" "0 < i"
  shows "TakeOverShard_rpc lib c (serve_call lib' hl now (True, True)) Net_ok i d = answer ErrAlreadyDone (TakeOverShard now i d)"
proof -
  obtain r d1 where H: "TakeoverShard_http now True True (FormatInt i) d = (r, d1)" by fastforce
  have "http_do lib c (serve_call lib' hl now (True, True)) Net_ok
      (plain_rq ''POST'' (''/internal/shards/'' @ FormatInt i @ ''/takeover'')) d = (Inr r, d1)"
    by (rule http_do_ok) (simp_all only: rq_paths assms(1) serve_call_shard H fst_conv snd_conv not_False_eq_True)
  then show ?thesis
    unfolding TakeOverShard_rpc_def claimShard_rpc_def
    using H assms(2,3) claim_errors(2) [of now i d]
    by (auto simp: TakeoverShard_http_def codes answer_def split: prod.splits sum.splits store_error.splits)
qed

lemma CompleteShard_arrives:
  assumes "url_parse lib (cl_baseURL c @ ''/internal/shards/'' @ FormatInt i @ ''/complete'') \<noteq> None"
    and "int64_ok i" "0 < i" "outcome_text (cs_Status body)"
  shows "CompleteShard_rpc lib c (serve_call lib' hl now (True, True)) Net_ok i body d = accepted (CompleteShard now i body d)"
proof -
  obtain r d1 where H: "CompleteShard_http now True (FormatInt i) (Inr body) d = (r, d1)" by fastforce
  have "http_do lib c (serve_call lib' hl now (True, True)) Net_ok
      (shard_rq (''/internal/shards/'' @ FormatInt i @ ''/complete'') body) d = (Inr r, d1)"
    by (rule http_do_ok) (simp_all only: rq_paths assms(1) serve_call_shard H fst_conv snd_conv not_False_eq_True)
  then show ?thesis
    unfolding CompleteShard_rpc_def postJSON_def expect_200_def
    using H assms(2-)
    by (auto simp: CompleteShard_http_def codes accepted_def outcome_text_def
        split: prod.splits sum.splits store_error.splits if_splits)
qed

lemma FailShard_arrives:
  assumes "url_parse lib (cl_baseURL c @ ''/internal/shards/'' @ FormatInt i @ ''/fail'') \<noteq> None"
    and "int64_ok i" "0 < i" "reason \<noteq> []"
  shows "FailShard_rpc lib c (serve_call lib' hl now (True, True)) Net_ok i reason d = accepted (FailShard now i reason d)"
proof -
  obtain r d1 where H: "FailShard_http now True (FormatInt i) (Inr reason) d = (r, d1)" by fastforce
  have "http_do lib c (serve_call lib' hl now (True, True)) Net_ok
      (reason_rq (''/internal/shards/'' @ FormatInt i @ ''/fail'') reason) d = (Inr r, d1)"
    by (rule http_do_ok) (simp_all only: rq_paths assms(1) serve_call_shard H fst_conv snd_conv not_False_eq_True)
  then show ?thesis
    unfolding FailShard_rpc_def postJSON_def expect_200_def
    using H assms(2-) FailShard_errors [of now i reason d]
    by (auto simp: FailShard_http_def codes accepted_def outcome_text_def
        split: prod.splits sum.splits store_error.splits if_splits)
qed

subsection \<open>Meanwhile\<close>

lemma run_calls_keep:
  assumes "store_reach d" and "valid_calls cs"
  shows "store_reach (run_calls cs d) \<and> status_moves (shard_status j d) (shard_status j (run_calls cs d))"
proof -
  have "store_reach (run_calls cs d)"
    using assms
  proof (induction cs arbitrary: d)
    case (Cons nc cs)
    then show ?case by (cases nc) (auto simp: valid_calls_def intro: store_reach.call)
  qed simp
  moreover have "db_progress d (run_calls cs d)"
    using run_calls_progress [OF store_reach_wf [OF assms(1)] assms(2)] by blast
  ultimately show ?thesis using shard_status_moves store_reach_wf by blast
qed

definition sample_msg :: message where
  "sample_msg = \<lparr>msg_ID = ''1-0'', msg_Values = [(''shard_id'', ''2'')]\<rparr>"

definition sample_env :: "db job_env" where
  "sample_env = \<lparr>je_start = 0, je_cancel = Some 0, je_scripts = sample_script,
     je_meanwhile = run_calls [(6, CallCancelRun 1)]\<rparr>"

lemma sample_msg_shard: "message_shard sample_msg = Some 2"
  by (simp add: message_shard_def sample_msg_def ParseInt_def ParseUint_def digit_val_def is_digit_def)

subsection \<open>Properties\<close>

text \<open>
  C17: the worker's calls arrive. With a backend URL of a plain host and a working network,
  a call for a positive id goes through the URL, the routes, the decimal id and the handler to
  the store operation of that id and back: the worker gets the assignment, or is told that
  there is nothing to do, or gets an error, exactly as the operation came out.
\<close>

theorem worker_calls_arrive:
  assumes "cl_baseURL c = ''http://'' @ h @ p" and "plain_host h" and "plain_port p"
    and "int64_ok i" and "0 < i" and "outcome_text (cs_Status body)"
  shows "StartShard_rpc lib c (serve_call lib' hl now (True, True)) Net_ok i d = answer ErrNotQueued (StartShard now i d) \<and>
    TakeOverShard_rpc lib c (serve_call lib' hl now (True, True)) Net_ok i d = answer ErrAlreadyDone (TakeOverShard now i d) \<and>
    CompleteShard_rpc lib c (serve_call lib' hl now (True, True)) Net_ok i body d = accepted (CompleteShard now i body d) \<and>
    FailShard_rpc lib c (serve_call lib' hl now (True, True)) Net_ok i dead_reason d = accepted (FailShard now i dead_reason d)"
proof -
  note url = base_url_parses [OF assms(1-3), of _ lib i]
  have "dead_reason \<noteq> []" by (simp add: dead_reason_def)
  with StartShard_arrives TakeOverShard_arrives CompleteShard_arrives FailShard_arrives assms(4-)
    url [of "''/start''"] url [of "''/takeover''"] url [of "''/complete''"] url [of "''/fail''"]
  show ?thesis by simp
qed

theorem worker_calls_arrive_witness:
  "\<exists>a d'. StartShard_rpc ascii_lib \<lparr>cl_baseURL = ''http://backend:8080''\<rparr>
     (serve_call ascii_lib sample_handler 5 (True, True)) Net_ok 2 sample_db = (Inr (Some a), d') \<and>
     sa_ShardID a = 2 \<and> sa_VirtualUsers a = 1"
proof -
  have h: "cl_baseURL \<lparr>cl_baseURL = ''http://backend:8080''\<rparr> = ''http://'' @ ''backend'' @ '':8080''"
    "plain_host ''backend''" "plain_port '':8080''" "int64_ok 2" "0 < (2 :: int)"
    "outcome_text (cs_Status (report_failed []))"
    by (simp_all add: plain_host_def plain_port_def is_alpha_def is_digit_def int64_ok_def Let_def
        report_failed_def outcome_text_def)
  have "\<exists>a d'. StartShard 5 2 sample_db = (Inr a, d') \<and> sa_ShardID a = 2 \<and> sa_VirtualUsers a = 1"
    by (simp add: sample_defs)
  with worker_calls_arrive [OF h, of ascii_lib ascii_lib sample_handler 5 sample_db] show ?thesis
    by (auto simp: answer_def)
qed

text \<open>
  C7: an acknowledged message needs no worker. Whatever the network loses and whatever
  happens to the backend while the load runs, a worker that acknowledges a message has seen its
  shard over (finished, or gone), or it was a first delivery and the shard is not queued any
  more: some other claim of it came first. A reclaimed message is only given up when its shard
  is over.
\<close>

theorem ack_means_settled:
  fixes lib c lib' hl now1 up1 net1 now2 up2 net2 now3 up3 net3
  defines "start \<equiv> \<lambda>i d. StartShard_rpc lib c (serve_call lib' hl now1 up1) net1 i d"
    and "takeover \<equiv> \<lambda>i d. TakeOverShard_rpc lib c (serve_call lib' hl now2 up2) net2 i d"
    and "report \<equiv> \<lambda>i r d. CompleteShard_rpc lib c (serve_call lib' hl now3 up3) net3 i r d"
  assumes "store_reach d" and "message_shard msg = Some i"
    and "je_meanwhile env = run_calls calls" and "valid_calls calls"
    and "handleMessage lib start takeover report env reclaimed msg d = Some (d', cs)" and "cs \<noteq> []"
  shows "cs = [XAck (msg_ID msg)] \<and>
    (over (shard_status i d') \<or> (\<not> reclaimed \<and> d' = snd (start i d) \<and> shard_status i d' \<noteq> Some Queued))"
proof -
  have rest: "store_reach (je_meanwhile env t) \<and>
      status_moves (shard_status j t) (shard_status j (je_meanwhile env t))" if "store_reach t" for t j
    using run_calls_keep [OF that assms(7)] assms(6) by simp
  note acks = worker_api.handleMessage_acks [OF assms(4,5) assms(8) [unfolded start_def takeover_def report_def] assms(9) rest]
  show ?thesis using acks(1) acks(2) by (simp add: ack_def start_def)
qed

theorem ack_means_settled_witness:
  "\<exists>d'. handleMessage ascii_lib
     (\<lambda>i d. StartShard_rpc ascii_lib \<lparr>cl_baseURL = ''http://backend:8080''\<rparr> (serve_call ascii_lib sample_handler 5 (True, True)) Net_ok i d)
     (\<lambda>i d. TakeOverShard_rpc ascii_lib \<lparr>cl_baseURL = ''http://backend:8080''\<rparr> (serve_call ascii_lib sample_handler 5 (True, True)) Net_ok i d)
     (\<lambda>i r d. CompleteShard_rpc ascii_lib \<lparr>cl_baseURL = ''http://backend:8080''\<rparr> (serve_call ascii_lib sample_handler 9 (True, True)) Net_ok i r d)
     sample_env False \<lparr>msg_ID = ''1-0'', msg_Values = [(''shard_id'', ''1'')]\<rparr> sample_db = Some (d', [XAck ''1-0'']) \<and>
     shard_status 1 d' \<noteq> Some Queued"
    (is "\<exists>d'. handleMessage _ ?start ?takeover ?report _ _ ?msg _ = _ \<and> _")
proof -
  have m: "message_shard ?msg = Some 1"
    by (simp add: message_shard_def ParseInt_def ParseUint_def digit_val_def is_digit_def)
  have url: "url_parse ascii_lib (''http://backend:8080'' @ ''/internal/shards/'' @ FormatInt 1 @ ''/start'') \<noteq> None"
    using base_url_parses [of "\<lparr>cl_baseURL = ''http://backend:8080''\<rparr>" "''backend''" "'':8080''" "''/start''" ascii_lib 1]
    by (simp add: plain_host_def plain_port_def is_alpha_def is_digit_def Let_def)
  have "?start 1 sample_db = (Inr None, sample_db)"
    using StartShard_arrives [of ascii_lib "\<lparr>cl_baseURL = ''http://backend:8080''\<rparr>" 1 ascii_lib sample_handler 5 sample_db]
      url by (simp add: answer_def int64_ok_def) (simp add: sample_defs shardMiss_def find_shard_def)
  then have H: "handleMessage ascii_lib ?start ?takeover ?report sample_env False ?msg sample_db =
      Some (sample_db, [XAck ''1-0''])"
    using m by (simp add: handleMessage_def claim_job_def ack_def)
  have env: "je_meanwhile sample_env = run_calls [(6, CallCancelRun 1)]" "valid_calls [(6, CallCancelRun 1)]"
    by (simp_all add: sample_env_def valid_calls_def)
  from ack_means_settled [OF sample_reach(2) m env H] have
    "over (shard_status 1 sample_db) \<or> shard_status 1 sample_db \<noteq> Some Queued" by blast
  then have "shard_status 1 sample_db \<noteq> Some Queued" by (auto simp: over_def)
  with H show ?thesis by blast
qed

text \<open>
  C37: dead-lettering forgets the shard even when it could not be failed. \<open>deadLetter\<close>
  acknowledges the message whatever the backend answered. If the answer was a success the shard
  is over; if the request was lost, nothing has changed in the backend, and the message, the
  only thing that would bring a worker back to the shard, is gone.
\<close>

theorem deadLetter_forgets:
  assumes "store_reach d" and "message_shard msg = Some i" and "0 < i"
  shows "deadLetter (\<lambda>i r d. FailShard_rpc lib c (serve_call lib' hl now up) net i r d)
      (Some [msg]) (msg_ID msg) n d =
      (snd (FailShard_rpc lib c (serve_call lib' hl now up) net i dead_reason d),
       [XAdd_dead i (msg_ID msg) n, XAck (msg_ID msg)]) \<and>
    (fst (FailShard_rpc lib c (serve_call lib' hl now up) net i dead_reason d) = Inr () \<longrightarrow>
      over (shard_status i (snd (FailShard_rpc lib c (serve_call lib' hl now up) net i dead_reason d)))) \<and>
    (net = Request_lost \<longrightarrow> snd (FailShard_rpc lib c (serve_call lib' hl now up) net i dead_reason d) = d)"
proof -
  obtain x d' where F: "FailShard_rpc lib c (serve_call lib' hl now up) net i dead_reason d = (x, d')" by fastforce
  have r: "dead_reason \<noteq> []" by (simp add: dead_reason_def)
  have "dead_shard (Some [msg]) = i"
    using assms(2,3) by (auto simp: dead_shard_def message_shard_def ParseInt_def ParseUint_def
        split: option.splits prod.splits)
  then have A: "deadLetter (\<lambda>i r d. FailShard_rpc lib c (serve_call lib' hl now up) net i r d)
      (Some [msg]) (msg_ID msg) n d = (d', [XAdd_dead i (msg_ID msg) n, XAck (msg_ID msg)])"
    using assms(3) F by (simp add: deadLetter_def ack_def)
  have B: "x = Inr () \<Longrightarrow> over (shard_status i d')"
    using FailShard_over [OF store_reach_wf [OF assms(1)], of now i dead_reason d']
      FailShard_rpc_facts(2) [OF F message_shard_int64 [OF assms(2)] r] by (auto simp: over_def)
  have C: "net = Request_lost \<Longrightarrow> d' = d"
    using F by (auto simp: FailShard_rpc_def postJSON_def expect_200_def http_do_def split: if_splits)
  show ?thesis unfolding F fst_conv snd_conv using A B C by blast
qed

theorem deadLetter_forgets_witness:
  "deadLetter (\<lambda>i r d. FailShard_rpc ascii_lib \<lparr>cl_baseURL = ''http://backend:8080''\<rparr>
      (serve_call ascii_lib sample_handler 5 (True, True)) Request_lost i r d) (Some [sample_msg]) ''1-0'' 6 sample_db =
     (sample_db, [XAdd_dead 2 ''1-0'' 6, XAck ''1-0'']) \<and> shard_status 2 sample_db = Some Queued"
proof -
  have "shard_status 2 sample_db = Some Queued" by (simp add: shard_status_def find_shard_def sample_defs)
  then show ?thesis
    using deadLetter_forgets [OF sample_reach(2) sample_msg_shard, of ascii_lib
        "\<lparr>cl_baseURL = ''http://backend:8080''\<rparr>" ascii_lib sample_handler 5 "(True, True)" Request_lost 6]
    by (simp add: sample_msg_def)
qed

end
