(* ===== verification/Worker_Loop.thy ===== *)
theory Worker_Loop
  imports Worker_Calls
begin

section \<open>The worker's main loop\<close>

text \<open>
  The loop of \<^verbatim>\<open>main\<close> in \<^verbatim>\<open>worker/cmd/worker/main.go\<close>, turn by turn, over \<open>reclaimStuck\<close>,
  \<open>deadLetter\<close> and \<open>handleMessage\<close>. The lemmas say what any sequence of turns leaves behind: the
  shards only move forward, and every acknowledgement has a reason.
\<close>

subsection \<open>Turns\<close>

text \<open>
  What a turn meets: whether the worker was asked to stop; the answers of XPENDING, XRANGE and
  XCLAIM; what others do to the backend while the worker waits in XREADGROUP; what the read
  returns. A read that fails has no other effect than a pause. The backend's operations may
  come out differently for each message, so they belong to the turn.
\<close>

record ('s, 'e) shard_ops =
  op_start :: "int \<Rightarrow> 's \<Rightarrow> ('e + shard_assignment option) \<times> 's"
  op_takeover :: "int \<Rightarrow> 's \<Rightarrow> ('e + shard_assignment option) \<times> 's"
  op_report :: "int \<Rightarrow> complete_shard_request \<Rightarrow> 's \<Rightarrow> ('e + unit) \<times> 's"

datatype read_result = Read_failed | Read_messages "message list"

record ('s, 'e) turn =
  tn_stopped :: bool
  tn_scan :: "pending list option"
  tn_found :: "pending \<Rightarrow> message list option"
  tn_xclaim :: "pending \<Rightarrow> message list option"
  tn_meanwhile :: "'s \<Rightarrow> 's"
  tn_read :: read_result
  tn_ops :: "message \<Rightarrow> ('s, 'e) shard_ops"
  tn_fail :: "pending \<Rightarrow> int \<Rightarrow> string \<Rightarrow> 's \<Rightarrow> ('e + unit) \<times> 's"
  tn_job :: "message \<Rightarrow> 's job_env"

definition turn_handle ::
  "go_lib \<Rightarrow> ('s, 'e) turn \<Rightarrow> bool \<Rightarrow> message \<Rightarrow> 's \<Rightarrow> ('s \<times> command list) option" where
  "turn_handle lib t reclaimed m =
     handleMessage lib (op_start (tn_ops t m)) (op_takeover (tn_ops t m)) (op_report (tn_ops t m))
       (tn_job t m) reclaimed m"

definition turn_reclaim ::
  "go_lib \<Rightarrow> int \<Rightarrow> ('s, 'e) turn \<Rightarrow> 's \<Rightarrow> ('s \<times> command list) option" where
  "turn_reclaim lib maxDeliveries t =
     reclaimStuck maxDeliveries
       (\<lambda>p. deadLetter (tn_fail t p) (tn_found t p) (p_ID p) (p_RetryCount p))
       (tn_xclaim t) (turn_handle lib t True) (tn_scan t)"

definition turn_read :: "go_lib \<Rightarrow> ('s, 'e) turn \<Rightarrow> 's \<Rightarrow> ('s \<times> command list) option" where
  "turn_read lib t s =
     (case tn_read t of
        Read_failed \<Rightarrow> Some (s, [])
      | Read_messages ms \<Rightarrow> handle_all (turn_handle lib t False) ms s)"

fun worker_loop ::
  "go_lib \<Rightarrow> int \<Rightarrow> ('s, 'e) turn list \<Rightarrow> 's \<Rightarrow> ('s \<times> command list) option" where
  "worker_loop lib maxDeliveries [] s = None"
| "worker_loop lib maxDeliveries (t # ts) s =
     (if tn_stopped t then Some (s, [])
      else case turn_reclaim lib maxDeliveries t s of
             None \<Rightarrow> None
           | Some (s1, cs1) \<Rightarrow>
               (case turn_read lib t (tn_meanwhile t s1) of
                  None \<Rightarrow> None
                | Some (s2, cs2) \<Rightarrow>
                    map_option (\<lambda>(s3, cs3). (s3, cs1 @ cs2 @ cs3)) (worker_loop lib maxDeliveries ts s2)))"

subsection \<open>Stopping\<close>

text \<open>
  The load of a job ends on its own when its scripts last for the longest shard there is, of
  \<open>secs\<close> seconds, with at least a nanosecond for each request.
\<close>

definition script_lasts :: "int \<Rightarrow> 's job_env \<Rightarrow> bool" where
  "script_lasts secs env \<longleftrightarrow>
     (\<forall>i. (\<forall>x \<in> set (je_scripts env i). 1 \<le> at_build x) \<and> secs * 10 ^ 9 \<le> int (length (je_scripts env i)))"

text \<open>The backend hands out shards of at most \<open>secs\<close> seconds.\<close>

definition ops_within :: "int \<Rightarrow> ('s, 'e) shard_ops \<Rightarrow> bool" where
  "ops_within secs ops \<longleftrightarrow>
     (\<forall>i s a s'. op_start ops i s = (Inr (Some a), s') \<or> op_takeover ops i s = (Inr (Some a), s') \<longrightarrow>
        0 \<le> sa_DurationSeconds a \<and> sa_DurationSeconds a \<le> secs)"

lemma executeShard_returns:
  assumes "script_lasts secs env" and "0 \<le> sa_DurationSeconds a" and "sa_DurationSeconds a \<le> secs"
    and "secs \<le> 2 ^ 32"
  shows "executeShard lib (je_start env) (je_cancel env) (je_scripts env) a \<noteq> None"
proof -
  have "wrap64 (sa_DurationSeconds a * 10 ^ 9) = sa_DurationSeconds a * 10 ^ 9"
    by (rule wrap64_id) (use assms in \<open>simp_all add: int64_ok_def\<close>)
  then have "cfg_Duration (shard_config a) \<le> secs * 10 ^ 9" using assms(3) by (simp add: shard_config_def)
  then have long: "cfg_Duration (shard_config a) \<le> int (length (je_scripts env i))" for i
    using assms(1) by (meson order_trans script_lasts_def)
  obtain r where "Run lib (shard_config a) (je_start env) (je_cancel env) (je_scripts env) = Some r"
    using Run_total [of "je_scripts env" "shard_config a", OF _ allI [OF long]] assms(1)
    unfolding script_lasts_def by blast
  then show ?thesis by (simp add: executeShard_def)
qed

lemma handle_all_returns:
  assumes "\<And>m s. handle m s \<noteq> None" shows "handle_all handle ms s \<noteq> None"
proof (induction ms arbitrary: s)
  case (Cons m ms)
  obtain p where "handle m s = Some p" using assms [of m s] by blast
  then show ?case using Cons.IH by (auto split: prod.splits)
qed simp

lemma reclaimStuck_returns:
  assumes "\<And>m s. handle m s \<noteq> None" shows "reclaimStuck mx dead xclaim handle scan s \<noteq> None"
proof -
  have "reclaim_loop mx dead xclaim handle ps s \<noteq> None" for ps s
  proof (induction ps arbitrary: s)
    case (Cons p ps)
    have all: "handle_all handle ms s \<noteq> None" for ms by (rule handle_all_returns [OF assms])
    obtain r where "(if mx < p_RetryCount p then Some (dead p s)
        else case xclaim p of None \<Rightarrow> Some (s, []) | Some ms \<Rightarrow> handle_all handle ms s) = Some r"
      using all by (cases "mx < p_RetryCount p"; cases "xclaim p") fastforce+
    then show ?case using Cons.IH by (auto split: prod.splits)
  qed simp
  then show ?thesis by (auto simp: reclaimStuck_def split: option.splits)
qed

text \<open>Handling a message comes to an end, whatever the backend's state.\<close>

definition turn_ends :: "int \<Rightarrow> ('s, 'e) turn \<Rightarrow> bool" where
  "turn_ends secs t \<longleftrightarrow>
     (\<forall>m. ops_within secs (tn_ops t m) \<and> script_lasts secs (tn_job t m))"

lemma turn_handle_returns:
  assumes "turn_ends secs t" and "secs \<le> 2 ^ 32"
  shows "turn_handle lib t reclaimed m s \<noteq> None"
proof -
  have ops: "ops_within secs (tn_ops t m)" "script_lasts secs (tn_job t m)" using assms(1) by (simp_all add: turn_ends_def)
  let ?claim = "claim_job (op_start (tn_ops t m)) (op_takeover (tn_ops t m)) reclaimed m s"
  obtain st s1 where C: "?claim = (st, s1)" by fastforce
  show ?thesis
  proof (cases st)
    case (Work a)
    then have "0 \<le> sa_DurationSeconds a \<and> sa_DurationSeconds a \<le> secs"
      using C ops(1) unfolding ops_within_def claim_job_def
      by (auto split: option.splits sum.splits prod.splits if_splits)
    then obtain r where "executeShard lib (je_start (tn_job t m)) (je_cancel (tn_job t m)) (je_scripts (tn_job t m)) a = Some r"
      using executeShard_returns [OF ops(2) _ _ assms(2)] by blast
    then show ?thesis using C Work by (auto simp: turn_handle_def handleMessage_def split: prod.splits job_step.splits)
  qed (use C in \<open>simp_all add: turn_handle_def handleMessage_def\<close>)
qed

lemma turn_returns:
  assumes "turn_ends secs t" and "secs \<le> 2 ^ 32"
  shows "turn_reclaim lib mx t s \<noteq> None" and "turn_read lib t s \<noteq> None"
  using reclaimStuck_returns [of "turn_handle lib t True"] handle_all_returns [of "turn_handle lib t False"]
    turn_handle_returns [OF assms]
  by (auto simp: turn_reclaim_def turn_read_def simp del: not_None_eq split: read_result.split)

lemma loop_returns:
  assumes "\<forall>t \<in> set ts. turn_ends secs t" and "secs \<le> 2 ^ 32" and "tn_stopped t0"
  shows "worker_loop lib mx (ts @ [t0]) s \<noteq> None"
  using assms(1)
proof (induction ts arbitrary: s)
  case Nil
  then show ?case using assms(3) by simp
next
  case (Cons t ts)
  then have ends: "turn_ends secs t" by simp
  obtain s1 cs1 where 1: "turn_reclaim lib mx t s = Some (s1, cs1)"
    using turn_returns(1) [OF ends assms(2), of lib mx s] by auto
  obtain s2 cs2 where 2: "turn_read lib t (tn_meanwhile t s1) = Some (s2, cs2)"
    using turn_returns(2) [OF ends assms(2), of lib "tn_meanwhile t s1"] by auto
  show ?case using Cons.IH [of s2] Cons.prems 1 2 by auto
qed

subsection \<open>Acknowledgements\<close>

context shard_api
begin

lemma handleMessage_keeps:
  assumes "inv s" and "handleMessage lib start takeover report env reclaimed msg s = Some (s', cs)"
    and rest: "\<And>t j. inv t \<Longrightarrow> inv (je_meanwhile env t) \<and> status_moves (status j t) (status j (je_meanwhile env t))"
  shows "inv s' \<and> status_moves (status j s) (status j s')"
proof -
  obtain st s1 where C: "claim_job start takeover reclaimed msg s = (st, s1)" by fastforce
  note c = claim_keeps [OF assms(1) C]
  show ?thesis
  proof (cases st)
    case (Work a)
    have i: "int64_ok (sa_ShardID a)" using claim_work [OF assms(1) C [unfolded Work]] message_shard_int64 by blast
    obtain r where r: "executeShard lib (je_start env) (je_cancel env) (je_scripts env) a = Some r"
      using assms(2) C Work by (auto simp: handleMessage_def split: option.splits)
    obtain st2 s2 where R: "report_job report a r (je_meanwhile env s1) = (st2, s2)" by fastforce
    have m: "inv (je_meanwhile env s1)" "status_moves (status j s1) (status j (je_meanwhile env s1))"
      using rest c by blast+
    note k = report_job_facts(1) [OF m(1) R i executeShard_report_ok [OF r]]
    have "s' = s2" using assms(2) C Work r R by (auto simp: handleMessage_def split: job_step.splits)
    then show ?thesis using k c m(2) status_moves_trans by blast
  qed (use assms(2) C c in \<open>simp_all add: handleMessage_def\<close>)
qed

end

text \<open>The calls of a turn over the network: when each is made, and what becomes of it.\<close>

record link =
  lk_now :: time
  lk_up :: "bool \<times> bool"
  lk_net :: network

definition http_ops :: "go_lib \<Rightarrow> client \<Rightarrow> go_lib \<Rightarrow> handler \<Rightarrow> link \<Rightarrow> link \<Rightarrow> (db, client_error) shard_ops" where
  "http_ops lib c lib' hl l l' =
     \<lparr>op_start = (\<lambda>i d. StartShard_rpc lib c (serve_call lib' hl (lk_now l) (lk_up l)) (lk_net l) i d),
      op_takeover = (\<lambda>i d. TakeOverShard_rpc lib c (serve_call lib' hl (lk_now l) (lk_up l)) (lk_net l) i d),
      op_report = (\<lambda>i r d. CompleteShard_rpc lib c (serve_call lib' hl (lk_now l') (lk_up l')) (lk_net l') i r d)\<rparr>"

text \<open>A turn of a worker of this platform: everything goes through the API, everybody else too.\<close>

definition http_turn :: "go_lib \<Rightarrow> client \<Rightarrow> go_lib \<Rightarrow> handler \<Rightarrow> (db, client_error) turn \<Rightarrow> bool" where
  "http_turn lib c lib' hl t \<longleftrightarrow>
     (\<forall>m. \<exists>l l'. tn_ops t m = http_ops lib c lib' hl l l') \<and>
     (\<forall>p. \<exists>l :: link. tn_fail t p = (\<lambda>i r d. FailShard_rpc lib c (serve_call lib' hl (lk_now l) (lk_up l)) (lk_net l) i r d)) \<and>
     (\<exists>calls. valid_calls calls \<and> tn_meanwhile t = run_calls calls) \<and>
     (\<forall>m. \<exists>calls. valid_calls calls \<and> je_meanwhile (tn_job t m) = run_calls calls)"

text \<open>
  The messages a turn handles for the first time and again, and what they show of their shards
  once they are acknowledged.
\<close>

definition fresh_messages :: "(db, client_error) turn \<Rightarrow> message set" where
  "fresh_messages t = (case tn_read t of Read_failed \<Rightarrow> {} | Read_messages ms \<Rightarrow> set ms)"

definition reclaimed_messages :: "(db, client_error) turn \<Rightarrow> message set" where
  "reclaimed_messages t = {m. \<exists>ps. \<exists>p \<in> set ps. \<exists>ms. tn_scan t = Some ps \<and> tn_xclaim t p = Some ms \<and> m \<in> set ms}"

definition picked_up :: "db \<Rightarrow> db \<Rightarrow> message \<Rightarrow> bool" where
  "picked_up d d' m \<longleftrightarrow>
     (\<forall>i. message_shard m = Some i \<longrightarrow> shard_status i d \<noteq> None \<longrightarrow> shard_status i d' \<noteq> Some Queued)"

definition shard_over :: "db \<Rightarrow> db \<Rightarrow> message \<Rightarrow> bool" where
  "shard_over d d' m \<longleftrightarrow>
     (\<forall>i. message_shard m = Some i \<longrightarrow> shard_status i d \<noteq> None \<longrightarrow> over (shard_status i d'))"

definition accounted :: "message set \<Rightarrow> message set \<Rightarrow> db \<Rightarrow> db \<Rightarrow> command list \<Rightarrow> bool" where
  "accounted fresh again d d' cs \<longleftrightarrow>
     store_reach d' \<and> (\<forall>j. status_moves (shard_status j d) (shard_status j d')) \<and>
     (\<forall>mid. XAck mid \<in> set cs \<longrightarrow>
        (\<exists>j n. XAdd_dead j mid n \<in> set cs) \<or>
        (\<exists>m \<in> fresh. msg_ID m = mid \<and> picked_up d d' m) \<or>
        (\<exists>m \<in> again. msg_ID m = mid \<and> shard_over d d' m))"

lemma moved_exists: "status_moves a b \<Longrightarrow> a \<noteq> None \<Longrightarrow> b \<noteq> None"
  by (auto simp: status_moves_def)

lemma picked_up_later:
  assumes "picked_up d d' m" and "\<And>j. status_moves (shard_status j d) (shard_status j d')"
    and "\<And>j. status_moves (shard_status j d') (shard_status j d'')"
  shows "picked_up d d'' m"
  using assms(1) started_moves [OF assms(3)] moved_exists [OF assms(2)] by (simp add: picked_up_def)

lemma shard_over_later:
  assumes "shard_over d d' m" and "\<And>j. status_moves (shard_status j d) (shard_status j d')"
    and "\<And>j. status_moves (shard_status j d') (shard_status j d'')"
  shows "shard_over d d'' m"
  using assms(1) over_moves [OF assms(3)] moved_exists [OF assms(2)] by (simp add: shard_over_def)

lemma earlier:
  assumes "\<And>j. status_moves (shard_status j d0) (shard_status j d)"
  shows "picked_up d d' m \<Longrightarrow> picked_up d0 d' m" and "shard_over d d' m \<Longrightarrow> shard_over d0 d' m"
  using moved_exists [OF assms] by (auto simp: picked_up_def shard_over_def)

lemma accounted_none: "store_reach d \<Longrightarrow> accounted A B d d []"
  by (simp add: accounted_def)

lemma accounted_seq:
  assumes 1: "accounted A B d d1 cs1" and 2: "accounted A' B' d1 d2 cs2"
    and "A \<union> A' \<subseteq> A2" and "B \<union> B' \<subseteq> B2"
  shows "accounted A2 B2 d d2 (cs1 @ cs2)"
proof -
  have m1: "status_moves (shard_status j d) (shard_status j d1)" for j using 1 by (simp add: accounted_def)
  have m2: "status_moves (shard_status j d1) (shard_status j d2)" for j using 2 by (simp add: accounted_def)
  have "(\<exists>j n. XAdd_dead j mid n \<in> set (cs1 @ cs2)) \<or>
      (\<exists>m \<in> A2. msg_ID m = mid \<and> picked_up d d2 m) \<or> (\<exists>m \<in> B2. msg_ID m = mid \<and> shard_over d d2 m)"
    if "XAck mid \<in> set (cs1 @ cs2)" for mid
  proof (cases "XAck mid \<in> set cs1")
    case True
    then consider j n where "XAdd_dead j mid n \<in> set cs1" | m where "m \<in> A" "msg_ID m = mid" "picked_up d d1 m"
      | m where "m \<in> B" "msg_ID m = mid" "shard_over d d1 m"
      using 1 unfolding accounted_def by blast
    then show ?thesis
    proof cases
      case 2
      then show ?thesis using picked_up_later [OF _ m1 m2] assms(3) by blast
    next
      case 3
      then show ?thesis using shard_over_later [OF _ m1 m2] assms(4) by blast
    qed auto
  next
    case False
    then have "XAck mid \<in> set cs2" using that by simp
    then consider j n where "XAdd_dead j mid n \<in> set cs2" | m where "m \<in> A'" "msg_ID m = mid" "picked_up d1 d2 m"
      | m where "m \<in> B'" "msg_ID m = mid" "shard_over d1 d2 m"
      using 2 unfolding accounted_def by blast
    then show ?thesis
    proof cases
      case 2
      then show ?thesis using earlier(1) [OF m1] assms(3) by blast
    next
      case 3
      then show ?thesis using earlier(2) [OF m1] assms(4) by blast
    qed auto
  qed
  moreover have "store_reach d2" using 2 by (simp add: accounted_def)
  moreover have "\<And>j. status_moves (shard_status j d) (shard_status j d2)" using status_moves_trans [OF m1 m2] .
  ultimately show ?thesis unfolding accounted_def by blast
qed

lemma turn_handle_accounted:
  assumes "http_turn lib c lib' hl t" and "store_reach d" and "turn_handle L t reclaimed m d = Some (d', cs)"
  shows "accounted (if reclaimed then {} else {m}) (if reclaimed then {m} else {}) d d' cs"
proof -
  obtain l l' where ops: "tn_ops t m = http_ops lib c lib' hl l l'" using assms(1) unfolding http_turn_def by blast
  obtain calls where calls: "valid_calls calls" "je_meanwhile (tn_job t m) = run_calls calls"
    using assms(1) unfolding http_turn_def by blast
  have rest: "store_reach (je_meanwhile (tn_job t m) d1) \<and>
      status_moves (shard_status j d1) (shard_status j (je_meanwhile (tn_job t m) d1))" if "store_reach d1" for d1 j
    using run_calls_keep [OF that calls(1)] calls(2) by simp
  note H = assms(3) [unfolded turn_handle_def ops http_ops_def shard_ops.simps]
  note keeps = worker_api.handleMessage_keeps [OF assms(2) H rest]
  have acks: "msg_ID m = mid \<and> (if reclaimed then shard_over d d' m else picked_up d d' m)" if "XAck mid \<in> set cs" for mid
  proof -
    have ne: "cs \<noteq> []" using that by auto
    have id: "cs = ack (msg_ID m)"
      using H ne by (auto simp: handleMessage_def split: job_step.splits option.splits prod.splits)
    have "over (shard_status i d') \<or> (\<not> reclaimed \<and> shard_status i d' \<noteq> Some Queued)" if "message_shard m = Some i" for i
      using worker_api.handleMessage_acks(2) [OF assms(2) that H ne rest] by blast
    then have "if reclaimed then shard_over d d' m else picked_up d d' m"
      by (auto simp: shard_over_def picked_up_def over_def)
    then show ?thesis using id that by (simp add: ack_def)
  qed
  show ?thesis unfolding accounted_def using keeps acks by (cases reclaimed) auto
qed

lemma deadLetter_accounted:
  assumes "store_reach d"
    and "deadLetter (\<lambda>i r d. FailShard_rpc lib c (serve_call lib' hl now up) net i r d) found mid n d = (d', cs)"
  shows "accounted {} {} d d' cs"
proof -
  let ?fail = "\<lambda>i. FailShard_rpc lib c (serve_call lib' hl now up) net i dead_reason d"
  have cs: "cs = XAdd_dead (dead_shard found) mid n # ack mid" and d': "d' = d \<or> d' = snd (?fail (dead_shard found))"
    using assms(2) by (auto simp: deadLetter_def Let_def split: if_splits)
  have i: "int64_ok (dead_shard found)"
    by (auto simp: dead_shard_def ParseInt_ok split: option.split list.split)
  have r: "dead_reason \<noteq> []" by (simp add: dead_reason_def)
  have "d' = d \<or> d' = run_call now (CallFailShard (dead_shard found) dead_reason) d"
    using d' FailShard_rpc_facts(1) [OF prod.collapse [symmetric] i r, of lib c lib' hl now up net d] by auto
  then have "store_reach d' \<and> status_moves (shard_status j d) (shard_status j d')" for j
    by (rule call_keeps [OF assms(1), rotated]) simp
  then show ?thesis unfolding accounted_def cs by (auto simp: ack_def)
qed

lemma handle_all_accounted:
  assumes "http_turn lib c lib' hl t" and "store_reach d" and "handle_all (turn_handle L t reclaimed) ms d = Some (d', cs)"
  shows "accounted (if reclaimed then {} else set ms) (if reclaimed then set ms else {}) d d' cs"
  using assms(2,3)
proof (induction ms arbitrary: d cs)
  case Nil
  then show ?case by (simp add: accounted_none)
next
  case (Cons m ms)
  obtain d1 cs1 cs2 where 1: "turn_handle L t reclaimed m d = Some (d1, cs1)"
    and 2: "handle_all (turn_handle L t reclaimed) ms d1 = Some (d', cs2)" and cs: "cs = cs1 @ cs2"
    using Cons.prems(2) by (auto split: option.splits)
  note A = turn_handle_accounted [OF assms(1) Cons.prems(1) 1]
  have "store_reach d1" using A by (simp add: accounted_def)
  note B = Cons.IH [OF this 2]
  show ?case unfolding cs by (rule accounted_seq [OF A B]) auto
qed

lemma reclaim_loop_accounted:
  assumes t: "http_turn lib c lib' hl t" and "store_reach d"
    and "reclaim_loop mx (\<lambda>p. deadLetter (tn_fail t p) (tn_found t p) (p_ID p) (p_RetryCount p)) (tn_xclaim t)
      (turn_handle L t True) ps d = Some (d', cs)"
  shows "accounted {} {m. \<exists>p \<in> set ps. \<exists>ms. tn_xclaim t p = Some ms \<and> m \<in> set ms} d d' cs"
  using assms(2,3)
proof (induction ps arbitrary: d cs)
  case Nil
  then show ?case by (simp add: accounted_none)
next
  case (Cons p ps)
  let ?B = "\<lambda>ps. {m. \<exists>p \<in> set ps. \<exists>ms. tn_xclaim t p = Some ms \<and> m \<in> set ms}"
  let ?one = "if mx < p_RetryCount p then Some (deadLetter (tn_fail t p) (tn_found t p) (p_ID p) (p_RetryCount p) d)
    else case tn_xclaim t p of None \<Rightarrow> Some (d, []) | Some ms \<Rightarrow> handle_all (turn_handle L t True) ms d"
  obtain d1 cs1 cs2 where 1: "?one = Some (d1, cs1)"
    and 2: "reclaim_loop mx (\<lambda>p. deadLetter (tn_fail t p) (tn_found t p) (p_ID p) (p_RetryCount p)) (tn_xclaim t)
      (turn_handle L t True) ps d1 = Some (d', cs2)" and cs: "cs = cs1 @ cs2"
    using Cons.prems(2) by (auto split: option.splits prod.splits)
  have A: "accounted {} (?B [p]) d d1 cs1"
  proof (cases "mx < p_RetryCount p")
    case True
    obtain l :: link where "tn_fail t p = (\<lambda>i r d. FailShard_rpc lib c (serve_call lib' hl (lk_now l) (lk_up l)) (lk_net l) i r d)"
      using t unfolding http_turn_def by blast
    then have "accounted {} {} d d1 cs1" using 1 True deadLetter_accounted [OF Cons.prems(1)] by simp
    then show ?thesis by (auto simp: accounted_def)
  next
    case False
    then show ?thesis
      using 1 accounted_none [OF Cons.prems(1)] handle_all_accounted [OF t Cons.prems(1), of L True]
      by (cases "tn_xclaim t p") auto
  qed
  have "store_reach d1" using A by (simp add: accounted_def)
  note B = Cons.IH [OF this 2]
  show ?case unfolding cs by (rule accounted_seq [OF A B]) auto
qed

lemma turn_reclaim_accounted:
  assumes "http_turn lib c lib' hl t" and "store_reach d" and "turn_reclaim L mx t d = Some (d', cs)"
  shows "accounted {} (reclaimed_messages t) d d' cs"
proof (cases "tn_scan t")
  case None
  then show ?thesis using assms by (auto simp: turn_reclaim_def reclaimStuck_def accounted_none)
next
  case (Some ps)
  then show ?thesis
    using reclaim_loop_accounted [OF assms(1,2), of mx L ps] assms(3)
    by (simp add: turn_reclaim_def reclaimStuck_def reclaimed_messages_def)
qed

lemma turn_read_accounted:
  assumes "http_turn lib c lib' hl t" and "store_reach d" and "turn_read L t d = Some (d', cs)"
  shows "accounted (fresh_messages t) {} d d' cs"
  using assms(3) handle_all_accounted [OF assms(1,2), of L False] accounted_none [OF assms(2)]
  by (auto simp: turn_read_def fresh_messages_def split: read_result.splits)

lemma worker_loop_accounted:
  assumes "\<forall>t \<in> set ts. http_turn lib c lib' hl t" and "store_reach d" and "worker_loop L mx ts d = Some (d', cs)"
  shows "accounted (\<Union>t \<in> set ts. fresh_messages t) (\<Union>t \<in> set ts. reclaimed_messages t) d d' cs"
  using assms
proof (induction ts arbitrary: d cs)
  case (Cons t ts)
  show ?case
  proof (cases "tn_stopped t")
    case True
    then show ?thesis using Cons.prems by (auto simp: accounted_none)
  next
    case False
    have t: "http_turn lib c lib' hl t" using Cons.prems(1) by simp
    obtain d1 cs1 d2 cs2 cs3 where 1: "turn_reclaim L mx t d = Some (d1, cs1)"
      and 2: "turn_read L t (tn_meanwhile t d1) = Some (d2, cs2)"
      and 3: "worker_loop L mx ts d2 = Some (d', cs3)" and cs: "cs = (cs1 @ []) @ cs2 @ cs3"
      using Cons.prems(3) False by (auto split: option.splits)
    note A = turn_reclaim_accounted [OF t Cons.prems(2) 1]
    have d1: "store_reach d1" using A by (simp add: accounted_def)
    obtain calls where "valid_calls calls" "tn_meanwhile t = run_calls calls" using t unfolding http_turn_def by blast
    then have M: "accounted {} {} d1 (tn_meanwhile t d1) []" using run_calls_keep [OF d1] by (simp add: accounted_def)
    have "store_reach (tn_meanwhile t d1)" using M by (simp add: accounted_def)
    note B = turn_read_accounted [OF t this 2]
    have "store_reach d2" using B by (simp add: accounted_def)
    with Cons.IH [OF _ _ 3] Cons.prems(1)
    have C: "accounted (\<Union>t \<in> set ts. fresh_messages t) (\<Union>t \<in> set ts. reclaimed_messages t) d2 d' cs3" by simp
    show ?thesis
      unfolding cs by (rule accounted_seq [OF accounted_seq [OF A M order.refl order.refl] accounted_seq [OF B C order.refl order.refl]]) auto
  qed
qed simp

subsection \<open>Properties\<close>

text \<open>
  C39: a worker that is asked to stop stops. If the backend hands out shards of at most
  \<open>secs\<close> seconds, the loop returns at the first turn that finds the stop request, whatever
  messages it met before, and what comes after has no effect.
\<close>

theorem worker_stops:
  assumes "\<forall>t \<in> set ts. turn_ends secs t" and "secs \<le> 2 ^ 32" and "tn_stopped t0"
  shows "\<exists>s' cs. worker_loop lib mx (ts @ t0 # rest) s = Some (s', cs) \<and>
    worker_loop lib mx (ts @ [t0]) s = Some (s', cs)"
proof -
  have "worker_loop lib mx (ts @ t0 # rest) s = worker_loop lib mx (ts @ [t0]) s"
    using assms(3) by (induction ts arbitrary: s) (auto split: option.split)
  moreover have "worker_loop lib mx (ts @ [t0]) s \<noteq> None" by (rule loop_returns [OF assms])
  ultimately show ?thesis by auto
qed

text \<open>
  C8: a worker removes a message from the stream only for a reason. After any number of turns,
  each acknowledged message was copied to the dead letters, or was delivered to this worker
  and its shard is not queued any more, or was reclaimed and its shard is over; that holds at
  the end of all the turns, for the shards that were there at the beginning.
\<close>

theorem worker_acks:
  assumes "\<forall>t \<in> set ts. http_turn lib c lib' hl t" and "store_reach d"
    and "worker_loop L mx ts d = Some (d', cs)" and "XAck mid \<in> set cs"
  shows "(\<exists>j n. XAdd_dead j mid n \<in> set cs) \<or>
    (\<exists>t \<in> set ts. \<exists>m \<in> fresh_messages t. msg_ID m = mid \<and>
       (\<forall>i. message_shard m = Some i \<longrightarrow> shard_status i d \<noteq> None \<longrightarrow> shard_status i d' \<noteq> Some Queued)) \<or>
    (\<exists>t \<in> set ts. \<exists>m \<in> reclaimed_messages t. msg_ID m = mid \<and>
       (\<forall>i. message_shard m = Some i \<longrightarrow> shard_status i d \<noteq> None \<longrightarrow> over (shard_status i d')))"
  using worker_loop_accounted [OF assms(1-3)] assms(4)
  by (simp add: accounted_def picked_up_def shard_over_def)

definition one_job_turn :: "bool \<Rightarrow> (nat, string) turn" where
  "one_job_turn stopped =
     \<lparr>tn_stopped = stopped, tn_scan = None, tn_found = (\<lambda>_. None), tn_xclaim = (\<lambda>_. None), tn_meanwhile = Suc,
      tn_read = Read_messages [sample_msg],
      tn_ops = (\<lambda>_. \<lparr>op_start = (\<lambda>i n. (Inr (Some \<lparr>sa_ShardID = i, sa_RunID = 1, sa_ShardIndex = 0,
          sa_TargetURL = ''http://target/'', sa_Method = ''GET'', sa_VirtualUsers = 1, sa_DurationSeconds = 1,
          sa_Headers = [], sa_Body = [], sa_ThinkTimeMs = 0\<rparr>), n)),
        op_takeover = (\<lambda>i n. (Inr None, n)), op_report = (\<lambda>i r n. (Inr (), n + 1))\<rparr>),
      tn_fail = (\<lambda>p i r n. (Inr (), n)),
      tn_job = (\<lambda>_. \<lparr>je_start = 0, je_cancel = None,
        je_scripts = (\<lambda>_. replicate (10 ^ 9) \<lparr>at_build = 1, at_exchange = Reply 200 300 100, at_late = 0, at_wake = 0\<rparr>), je_meanwhile = id\<rparr>)\<rparr>"

theorem worker_stops_witness:
  "\<exists>n cs. worker_loop ascii_lib 5 [one_job_turn False, one_job_turn True] 0 = Some (n, cs)"
proof -
  have "turn_ends 1 (one_job_turn False)"
    by (auto simp: turn_ends_def ops_within_def script_lasts_def one_job_turn_def)
  then have "\<forall>t \<in> set [one_job_turn False]. turn_ends 1 t" "(1 :: int) \<le> 2 ^ 32" "tn_stopped (one_job_turn True)"
    by (simp_all add: one_job_turn_def)
  from worker_stops [OF this, of ascii_lib 5 "[]" 0] show ?thesis by auto
qed

text \<open>
  A turn in which a message without a shard is dead-lettered, and the message of a shard that
  another worker has is read; then a stop request.
\<close>

definition sample_turn :: "bool \<Rightarrow> (db, client_error) turn" where
  "sample_turn stopped =
     \<lparr>tn_stopped = stopped, tn_scan = Some [\<lparr>p_ID = ''0-9'', p_RetryCount = 6\<rparr>], tn_found = (\<lambda>_. None),
      tn_xclaim = (\<lambda>_. None), tn_meanwhile = run_calls [],
      tn_read = Read_messages [\<lparr>msg_ID = ''1-0'', msg_Values = [(''shard_id'', ''1'')]\<rparr>],
      tn_ops = (\<lambda>_. http_ops ascii_lib \<lparr>cl_baseURL = ''http://backend:8080''\<rparr> ascii_lib sample_handler
        \<lparr>lk_now = 5, lk_up = (True, True), lk_net = Net_ok\<rparr> \<lparr>lk_now = 9, lk_up = (True, True), lk_net = Net_ok\<rparr>),
      tn_fail = (\<lambda>p i r d. FailShard_rpc ascii_lib \<lparr>cl_baseURL = ''http://backend:8080''\<rparr>
        (serve_call ascii_lib sample_handler 5 (True, True)) Net_ok i r d),
      tn_job = (\<lambda>_. sample_env)\<rparr>"

lemma sample_turn_http:
  "http_turn ascii_lib \<lparr>cl_baseURL = ''http://backend:8080''\<rparr> ascii_lib sample_handler (sample_turn stopped)"
proof -
  let ?l = "\<lparr>lk_now = 5, lk_up = (True, True), lk_net = Net_ok\<rparr> :: link"
  have calls: "valid_calls []" "valid_calls [(6, CallCancelRun 1)]" by (simp_all add: valid_calls_def)
  have "\<exists>l :: link. tn_fail (sample_turn stopped) p = (\<lambda>i r d. FailShard_rpc ascii_lib \<lparr>cl_baseURL = ''http://backend:8080''\<rparr>
      (serve_call ascii_lib sample_handler (lk_now l) (lk_up l)) (lk_net l) i r d)" for p
    by (rule exI [of _ ?l]) (simp add: sample_turn_def)
  moreover have "\<exists>l l'. tn_ops (sample_turn stopped) m =
      http_ops ascii_lib \<lparr>cl_baseURL = ''http://backend:8080''\<rparr> ascii_lib sample_handler l l'" for m
    by (simp add: sample_turn_def) blast
  moreover have "tn_meanwhile (sample_turn stopped) = run_calls []" by (simp add: sample_turn_def)
  moreover have "je_meanwhile (tn_job (sample_turn stopped) m) = run_calls [(6, CallCancelRun 1)]" for m
    by (simp add: sample_turn_def sample_env_def)
  ultimately show ?thesis using calls unfolding http_turn_def by blast
qed

theorem worker_acks_witness:
  "\<exists>cs. worker_loop ascii_lib 5 [sample_turn False, sample_turn True] sample_db = Some (sample_db, cs) \<and>
     XAck ''1-0'' \<in> set cs \<and> shard_status 1 sample_db \<noteq> Some Queued"
proof -
  let ?msg = "\<lparr>msg_ID = ''1-0'', msg_Values = [(''shard_id'', ''1'')]\<rparr>"
  let ?c = "\<lparr>cl_baseURL = ''http://backend:8080''\<rparr>"
  have m: "message_shard ?msg = Some 1"
    by (simp add: message_shard_def ParseInt_def ParseUint_def digit_val_def is_digit_def)
  have url: "url_parse ascii_lib (''http://backend:8080'' @ ''/internal/shards/'' @ FormatInt 1 @ ''/start'') \<noteq> None"
    using base_url_parses [of ?c "''backend''" "'':8080''" "''/start''" ascii_lib 1]
    by (simp add: plain_host_def plain_port_def is_alpha_def is_digit_def Let_def)
  have start: "StartShard_rpc ascii_lib ?c (serve_call ascii_lib sample_handler 5 (True, True)) Net_ok 1 sample_db = (Inr None, sample_db)"
    using StartShard_arrives [of ascii_lib ?c 1 ascii_lib sample_handler 5 sample_db]
      url by (simp add: answer_def int64_ok_def) (simp add: sample_defs shardMiss_def find_shard_def)
  have L: "worker_loop ascii_lib 5 [sample_turn False, sample_turn True] sample_db =
      Some (sample_db, [XAdd_dead 0 ''0-9'' 6, XAck ''0-9'', XAck ''1-0''])"
    using m start by (simp add: sample_turn_def turn_reclaim_def reclaimStuck_def deadLetter_def dead_shard_def
        turn_read_def turn_handle_def http_ops_def handleMessage_def claim_job_def ack_def Let_def)
  have http: "\<forall>t \<in> set [sample_turn False, sample_turn True]. http_turn ascii_lib ?c ascii_lib sample_handler t"
    using sample_turn_http by simp
  have "shard_status 1 sample_db \<noteq> None" by (simp add: shard_status_def find_shard_def sample_defs)
  moreover have "fresh_messages (sample_turn b) = {?msg}" "reclaimed_messages (sample_turn b) = {}" for b
    by (simp_all add: fresh_messages_def reclaimed_messages_def sample_turn_def)
  ultimately have "shard_status 1 sample_db \<noteq> Some Queued"
    using worker_acks [OF http sample_reach(2) L, of "''1-0''"] m by simp
  with L show ?thesis by simp
qed

end
