(* ===== verification/Worker_System.thy ===== *)
theory Worker_System
  imports Worker_Calls Worker_Main
begin

section \<open>Backend, broker and workers together\<close>

text \<open>
  The whole shard pipeline as a step relation: any number of workers, each starting up or at
  some point of a message; the Redis stream with its consumer group; the backend. Between any two steps of one
  worker everything else may happen: other workers, users, crashes, lost requests and
  responses.

  Redis is a service, and no definition stands for it. The state keeps the messages that were
  added and which of them have been delivered and acknowledged, and the guards of the steps are
  what its documentation promises of a consumer group: a message has an id of its own; a group
  created at "$" never delivers the messages that are there already, and creating it again is a
  BUSYGROUP error; XREADGROUP with ">" needs the group and delivers a message at most once; XCLAIM hands out delivered messages that
  are not acknowledged. When a message counts as idle is not restricted, so a message can be
  reclaimed from a living worker as well. The routes that move shards are called by the workers
  alone; every other request may come from anyone.
\<close>

subsection \<open>State\<close>

text \<open>\<^verbatim>\<open>PublishShard\<close> and \<^verbatim>\<open>PublishJob\<close>: the message that XADD appends, with the id it is given.\<close>

definition PublishShard :: "string \<Rightarrow> int \<Rightarrow> message" where
  "PublishShard msgID shardID = \<lparr>msg_ID = msgID, msg_Values = [(''shard_id'', FormatInt shardID)]\<rparr>"

definition PublishJob :: "string \<Rightarrow> int \<Rightarrow> message" where
  "PublishJob msgID runID = \<lparr>msg_ID = msgID, msg_Values = [(''run_id'', FormatInt runID)]\<rparr>"

lemma PublishShard_read: "int64_ok i \<Longrightarrow> message_shard (PublishShard mid i) = Some i"
  by (simp add: message_shard_def PublishShard_def ParseInt_FormatInt)

lemma PublishShard_id [simp]: "msg_ID (PublishShard mid i) = mid"
  by (simp add: PublishShard_def)

text \<open>A message being processed: its load is running, or only its acknowledgement is left.\<close>

datatype job_phase = Busy shard_assignment | Acking

record system =
  sy_db :: db
  sy_messages :: "message list"
  sy_group :: bool
  sy_skipped :: "string list"
  sy_delivered :: "string list"
  sy_acked :: "string list"
  sy_dead :: "string list"
  sy_jobs :: "(message \<times> job_phase) list"

definition start_system :: system where
  "start_system = \<lparr>sy_db = empty_db, sy_messages = [], sy_group = False, sy_skipped = [], sy_delivered = [], sy_acked = [],
     sy_dead = [], sy_jobs = []\<rparr>"

text \<open>What a worker does after a step of its job.\<close>

fun next_jobs :: "message \<Rightarrow> job_step \<Rightarrow> (message \<times> job_phase) list \<Rightarrow> (message \<times> job_phase) list" where
  "next_jobs m Discard jobs = (m, Acking) # jobs"
| "next_jobs m Retry jobs = jobs"
| "next_jobs m (Work a) jobs = (m, Busy a) # jobs"

subsection \<open>Steps\<close>

inductive system_step :: "go_lib \<Rightarrow> client \<Rightarrow> handler \<Rightarrow> system \<Rightarrow> system \<Rightarrow> bool"
  for lib c hl where
  request: "\<lbrakk>serve lib hl now up1 up2 pub rq (sy_db y) = Some (hs, r, d', ids); \<not> shard_request rq;
      length mids = length ids; distinct mids; set mids \<inter> msg_ID ` set (sy_messages y) = {};
      \<forall>i \<in> set ids. int64_ok i\<rbrakk>
    \<Longrightarrow> system_step lib c hl y
          (y\<lparr>sy_db := d', sy_messages := sy_messages y @ map2 PublishShard mids ids\<rparr>)"
| startup: "\<lbrakk>worker_startup None created hostname pid = Inr name; created = None \<longleftrightarrow> \<not> sy_group y\<rbrakk>
    \<Longrightarrow> system_step lib c hl y
          (if created = None then y\<lparr>sy_group := True, sy_skipped := map msg_ID (sy_messages y)\<rparr> else y)"
| deliver: "\<lbrakk>m \<in> set (sy_messages y); sy_group y; msg_ID m \<notin> set (sy_skipped y); msg_ID m \<notin> set (sy_delivered y);
      claim_job (\<lambda>i d. StartShard_rpc lib c (serve_call lib hl now up) net i d)
        (\<lambda>i d. TakeOverShard_rpc lib c (serve_call lib hl now up) net i d) False m (sy_db y) = (st, d')\<rbrakk>
    \<Longrightarrow> system_step lib c hl y
          (y\<lparr>sy_db := d', sy_delivered := msg_ID m # sy_delivered y, sy_jobs := next_jobs m st (sy_jobs y)\<rparr>)"
| reclaim: "\<lbrakk>m \<in> set (sy_messages y); msg_ID m \<in> set (sy_delivered y); msg_ID m \<notin> set (sy_acked y);
      claim_job (\<lambda>i d. StartShard_rpc lib c (serve_call lib hl now up) net i d)
        (\<lambda>i d. TakeOverShard_rpc lib c (serve_call lib hl now up) net i d) True m (sy_db y) = (st, d')\<rbrakk>
    \<Longrightarrow> system_step lib c hl y (y\<lparr>sy_db := d', sy_jobs := next_jobs m st (sy_jobs y)\<rparr>)"
| report: "\<lbrakk>(m, Busy a) \<in> set (sy_jobs y); executeShard lib start cancel scripts a = Some res;
      report_job (\<lambda>i r d. CompleteShard_rpc lib c (serve_call lib hl now up) net i r d) a res (sy_db y) = (st, d')\<rbrakk>
    \<Longrightarrow> system_step lib c hl y
          (y\<lparr>sy_db := d', sy_jobs := next_jobs m st (remove1 (m, Busy a) (sy_jobs y))\<rparr>)"
| ack: "(m, Acking) \<in> set (sy_jobs y)
    \<Longrightarrow> system_step lib c hl y
          (y\<lparr>sy_acked := msg_ID m # sy_acked y, sy_jobs := remove1 (m, Acking) (sy_jobs y)\<rparr>)"
| crash: "j \<in> set (sy_jobs y)
    \<Longrightarrow> system_step lib c hl y (y\<lparr>sy_jobs := remove1 j (sy_jobs y)\<rparr>)"
| dead: "\<lbrakk>m \<in> set (sy_messages y); msg_ID m \<in> set (sy_delivered y); msg_ID m \<notin> set (sy_acked y);
      found \<in> {Some [m], Some [], None};
      deadLetter (\<lambda>i r d. FailShard_rpc lib c (serve_call lib hl now up) net i r d) found (msg_ID m) n (sy_db y)
        = (d', cs)\<rbrakk>
    \<Longrightarrow> system_step lib c hl y
          (y\<lparr>sy_db := d', sy_dead := msg_ID m # sy_dead y, sy_jobs := (m, Acking) # sy_jobs y\<rparr>)"

text \<open>
  \<open>startup\<close> is a worker that comes up, the first of them with a new group: the messages that
  are in the stream then are skipped. \<open>crash\<close> is a worker that dies, and also one whose acknowledgement is lost; a lost claim or
  report is the \<open>Retry\<close> of its step.
\<close>

inductive system_reach :: "go_lib \<Rightarrow> client \<Rightarrow> handler \<Rightarrow> system \<Rightarrow> bool" for lib c hl where
  start: "system_reach lib c hl start_system"
| step: "system_reach lib c hl y \<Longrightarrow> system_step lib c hl y y' \<Longrightarrow> system_reach lib c hl y'"

subsection \<open>Requests leave the shards alone\<close>

lemma run_level_shards: "run_level c \<Longrightarrow> db_shards (run_call now c d) = db_shards d"
  by (cases c) (simp_all add: shards_untouched)

text \<open>A request that is not about a shard: nothing new, or one new run with its shards.\<close>

lemma request_cases:
  assumes "serve lib hl now up1 up2 pub rq d = Some (hs, r, d', ids)" and "\<not> shard_request rq"
  obtains (unchanged) "d' = d" "ids = []"
  | (run) k where "run_level k" "valid_call k" "d' = run_call now k d" "ids = []"
  | (create) req vus where "d' = run_call now (CallCreateWithShards req vus) d"
      "db_shards d' = db_shards d" "ids = []"
  | (created) req vus where "d' = run_call now (CallCreateWithShards req vus) d"
      "db_shards d' = db_shards d @ shard_rows now (db_next_run d) (db_next_shard d) 0 vus"
      "ids = filter pub (map sh_id (shard_rows now (db_next_run d) (db_next_shard d) 0 vus))"
  using assms(1)
proof (cases rule: serve_cases)
  case other
  from other(2) [OF assms(2)] consider "d' = d" |
    k where "run_level k" "valid_call k" "d' = run_call now k d" unfolding effect_def by blast
  then show thesis
  proof cases
    case 1
    show ?thesis by (rule unchanged [OF 1 other(3)])
  next
    case (2 k)
    show ?thesis by (rule run [OF 2 other(3)])
  qed
next
  case create
  show thesis
  proof (cases rule: CreateTestRun_cases [of lib hl now up1 up2 pub "rq_create rq" d])
    case (refused r')
    then show thesis using create unchanged by simp
  next
    case (created req vus)
    obtain x d1 where C: "CreateWithShards now req vus d = (x, d1)" by fastforce
    have d': "d' = d1" "d' = run_call now (CallCreateWithShards req vus) d"
      using create created(5) C by (auto split: sum.splits prod.splits)
    from C show thesis
    proof (cases rule: CreateWithShards_cases)
      case (failed e d2)
      then have "ids = []" using create created(5) C by simp
      moreover have "db_shards d' = db_shards d" using failed d' by (simp add: rollback_def)
      ultimately show thesis using d'(2) that(3) by blast
    next
      case made: created
      then have "ids = filter pub (map sh_id (shard_rows now (db_next_run d) (db_next_shard d) 0 vus))"
        using create created(5) C by simp
      moreover have "db_shards d' = db_shards d @ shard_rows now (db_next_run d) (db_next_shard d) 0 vus"
        using made d' by simp
      ultimately show thesis using d'(2) that(4) by blast
    qed
  qed
qed

subsection \<open>The invariant\<close>

text \<open>
  Every message names a shard of its own that exists; before the first delivery it is queued; an acknowledgement, given or about to be, means that the shard is over or was
  dead-lettered; a busy worker runs the shard of its message.
\<close>

definition message_ok :: "system \<Rightarrow> message \<Rightarrow> bool" where
  "message_ok y m \<longleftrightarrow>
     (\<exists>i. message_shard m = Some i \<and> shard_status i (sy_db y) \<noteq> None \<and>
        (msg_ID m \<notin> set (sy_delivered y) \<longrightarrow> shard_status i (sy_db y) = Some Queued) \<and>
        (msg_ID m \<in> set (sy_acked y) \<or> (m, Acking) \<in> set (sy_jobs y) \<longrightarrow>
           over (shard_status i (sy_db y)) \<or> msg_ID m \<in> set (sy_dead y)))"

fun job_ok_in :: "system \<Rightarrow> message \<times> job_phase \<Rightarrow> bool" where
  "job_ok_in y (m, p) \<longleftrightarrow>
     m \<in> set (sy_messages y) \<and> msg_ID m \<in> set (sy_delivered y) \<and>
     (\<forall>a. p = Busy a \<longrightarrow> message_shard m = Some (sa_ShardID a))"

definition group_ok :: "system \<Rightarrow> bool" where
  "group_ok y \<longleftrightarrow>
     set (sy_skipped y) \<inter> set (sy_delivered y) = {} \<and>
     (sy_group y \<or> sy_delivered y = [] \<and> sy_skipped y = []) \<and>
     set (sy_dead y) \<subseteq> msg_ID ` set (sy_messages y)"

definition system_inv :: "system \<Rightarrow> bool" where
  "system_inv y \<longleftrightarrow>
     store_reach (sy_db y) \<and> group_ok y \<and>
     distinct (map msg_ID (sy_messages y)) \<and> distinct (map message_shard (sy_messages y)) \<and>
     (\<forall>m \<in> set (sy_messages y). message_ok y m) \<and> (\<forall>j \<in> set (sy_jobs y). job_ok_in y j) \<and>
     set (sy_acked y) \<subseteq> set (sy_delivered y) \<and> set (sy_delivered y) \<subseteq> msg_ID ` set (sy_messages y)"

lemma message_of_id:
  assumes "system_inv y" and "m \<in> set (sy_messages y)" and "m' \<in> set (sy_messages y)" and "msg_ID m = msg_ID m'"
  shows "m = m'"
  using assms unfolding system_inv_def distinct_map by (blast dest: inj_onD)

lemma shard_of_message:
  assumes "system_inv y" and "m \<in> set (sy_messages y)" and "m' \<in> set (sy_messages y)" and "message_shard m = message_shard m'"
  shows "m = m'"
  using assms unfolding system_inv_def distinct_map by (blast dest: inj_onD)

text \<open>A change of the backend that moves statuses forward keeps what is known of a message.\<close>

lemma message_ok_moves:
  assumes "message_ok y m" and "status_moves (shard_status i (sy_db y)) (shard_status i (sy_db y'))"
    and "message_shard m = Some i"
    and "msg_ID m \<notin> set (sy_delivered y') \<Longrightarrow>
      msg_ID m \<notin> set (sy_delivered y) \<and> shard_status i (sy_db y') = shard_status i (sy_db y)"
    and "msg_ID m \<in> set (sy_acked y') \<or> (m, Acking) \<in> set (sy_jobs y') \<Longrightarrow>
      msg_ID m \<in> set (sy_acked y) \<or> (m, Acking) \<in> set (sy_jobs y) \<or> over (shard_status i (sy_db y')) \<or>
      msg_ID m \<in> set (sy_dead y')"
    and "set (sy_dead y) \<subseteq> set (sy_dead y')"
  shows "message_ok y' m"
proof -
  have m: "shard_status i (sy_db y) \<noteq> None"
    "msg_ID m \<notin> set (sy_delivered y) \<longrightarrow> shard_status i (sy_db y) = Some Queued"
    "msg_ID m \<in> set (sy_acked y) \<or> (m, Acking) \<in> set (sy_jobs y) \<longrightarrow>
       over (shard_status i (sy_db y)) \<or> msg_ID m \<in> set (sy_dead y)"
    using assms(1,3) by (auto simp: message_ok_def)
  then have "shard_status i (sy_db y') \<noteq> None" using assms(2) by (auto simp: status_moves_def)
  moreover have "over (shard_status i (sy_db y)) \<Longrightarrow> over (shard_status i (sy_db y'))"
    using over_moves [OF assms(2)] m(1) by blast
  ultimately show ?thesis using m assms(3-6) unfolding message_ok_def by (intro exI [of _ i]) auto
qed

subsection \<open>The invariant is kept\<close>

context shard_api
begin

lemma report_job_frame:
  assumes "inv s" and "report_job report a r s = (st, s')" and "int64_ok (sa_ShardID a)" and "report_ok r"
    and "j \<noteq> sa_ShardID a"
  shows "status j s' = status j s"
  using report_frame [OF assms(1,3,4,5)] assms(2) by (auto simp: report_job_def split: prod.splits sum.splits)

end

text \<open>The steps of the workers add no message; it is enough to look at the statuses.\<close>

lemma worker_step_inv:
  assumes "system_inv y" and same: "sy_messages y' = sy_messages y"
    and "store_reach (sy_db y')" and "group_ok y'"
    and del: "set (sy_delivered y) \<subseteq> set (sy_delivered y')"
      "set (sy_delivered y') \<subseteq> msg_ID ` set (sy_messages y)"
    and "set (sy_acked y') \<subseteq> set (sy_delivered y')"
    and jobs: "\<And>j. j \<in> set (sy_jobs y') \<Longrightarrow> j \<in> set (sy_jobs y) \<or> job_ok_in y' j"
    and ok: "\<And>m. m \<in> set (sy_messages y) \<Longrightarrow> message_ok y m \<Longrightarrow> message_ok y' m"
  shows "system_inv y'"
proof -
  have "job_ok_in y' j" if "j \<in> set (sy_jobs y')" for j
  proof (rule disjE [OF jobs [OF that]])
    assume "j \<in> set (sy_jobs y)"
    then have "job_ok_in y j" using assms(1) by (simp add: system_inv_def)
    then show ?thesis using del(1) same by (cases j) auto
  qed
  then show ?thesis using assms by (simp add: system_inv_def)
qed

lemma next_jobs_mem:
  "j \<in> set (next_jobs m st jobs) \<longleftrightarrow>
     j \<in> set jobs \<or> (st = Discard \<and> j = (m, Acking)) \<or> (\<exists>a. st = Work a \<and> j = (m, Busy a))"
  by (cases st) auto

lemma message_status:
  assumes "system_inv y" and "m \<in> set (sy_messages y)"
  obtains i where "message_shard m = Some i" "shard_status i (sy_db y) \<noteq> None"
  using assms by (auto simp: system_inv_def message_ok_def)

text \<open>A claim, first or repeated.\<close>

lemma claim_inv:
  assumes "system_inv y" and m: "m \<in> set (sy_messages y)"
    and claim: "claim_job (\<lambda>i d. StartShard_rpc lib c (serve_call lib hl now up) net i d)
        (\<lambda>i d. TakeOverShard_rpc lib c (serve_call lib hl now up) net i d) again m (sy_db y) = (st, d')"
    and again: "again \<longleftrightarrow> msg_ID m \<in> set (sy_delivered y)" and del: "set del = insert (msg_ID m) (set (sy_delivered y))"
    and group_ok: "sy_group y" "msg_ID m \<notin> set (sy_skipped y)"
  shows "system_inv (y\<lparr>sy_db := d', sy_delivered := del, sy_jobs := next_jobs m st (sy_jobs y)\<rparr>)"
    (is "system_inv ?y")
proof -
  have reach: "store_reach (sy_db y)" using assms(1) by (simp add: system_inv_def)
  obtain k where k: "message_shard m = Some k" "shard_status k (sy_db y) \<noteq> None"
    using message_status [OF assms(1) m] .
  note keeps = worker_api.claim_keeps [OF reach claim]
  have moves: "status_moves (shard_status j (sy_db y)) (shard_status j d')" for j using keeps by blast
  have over: "over (shard_status k d')" if "st = Discard"
  proof (cases again)
    case True
    then show ?thesis using worker_api.claim_discard [OF reach claim [unfolded that] k(1)] by simp
  next
    case False
    then have "again = False" by simp
    from worker_api.first_discard [OF reach claim [unfolded that this] k(1)]
    have "shard_status k d' = shard_status k (sy_db y)" .
    moreover have "shard_status k d' \<noteq> Some Queued"
      using worker_api.claim_discard [OF reach claim [unfolded that] k(1)] False by simp
    moreover have "shard_status k (sy_db y) = Some Queued"
      using assms(1) m k(1) False again by (auto simp: system_inv_def message_ok_def)
    ultimately show ?thesis by simp
  qed
  show ?thesis
  proof (rule worker_step_inv [OF assms(1)])
    show "store_reach (sy_db ?y)" using keeps by simp
    show "group_ok ?y" using group_ok del assms(1) by (auto simp: group_ok_def system_inv_def)
    show "set (sy_delivered ?y) \<subseteq> msg_ID ` set (sy_messages y)"
      using assms(1) m del by (auto simp: system_inv_def)
    show "set (sy_acked ?y) \<subseteq> set (sy_delivered ?y)" using assms(1) del by (auto simp: system_inv_def)
  next
    fix j assume "j \<in> set (sy_jobs ?y)"
    moreover have "message_shard m = Some (sa_ShardID a)" if "st = Work a" for a
      using worker_api.claim_work [OF reach claim [unfolded that]] by blast
    ultimately show "j \<in> set (sy_jobs y) \<or> job_ok_in ?y j" using m del by (auto simp: next_jobs_mem)
  next
    fix m' assume m': "m' \<in> set (sy_messages y)" "message_ok y m'"
    obtain i where i: "message_shard m' = Some i" using message_status [OF assms(1) m'(1)] by blast
    show "message_ok ?y m'"
    proof (rule message_ok_moves [OF m'(2) _ i])
      show "status_moves (shard_status i (sy_db y)) (shard_status i (sy_db ?y))" using moves by simp
      assume "msg_ID m' \<notin> set (sy_delivered ?y)"
      then have "msg_ID m' \<notin> set (sy_delivered y)" "msg_ID m' \<noteq> msg_ID m" using del by auto
      moreover from this have "message_shard m \<noteq> Some i" using shard_of_message [OF assms(1) m m'(1)] i by auto
      ultimately show "msg_ID m' \<notin> set (sy_delivered y) \<and> shard_status i (sy_db ?y) = shard_status i (sy_db y)"
        using worker_api.claim_frame [OF reach claim] by simp
    next
      assume "msg_ID m' \<in> set (sy_acked ?y) \<or> (m', Acking) \<in> set (sy_jobs ?y)"
      then show "msg_ID m' \<in> set (sy_acked y) \<or> (m', Acking) \<in> set (sy_jobs y) \<or>
          over (shard_status i (sy_db ?y)) \<or> msg_ID m' \<in> set (sy_dead ?y)"
        using over k(1) i by (auto simp: next_jobs_mem)
    qed simp
  qed (use del in auto)
qed

lemma remove1_mem [dest]: "x \<in> set (remove1 z xs) \<Longrightarrow> x \<in> set xs"
  using set_remove1_subset by fast

text \<open>A report that may be lost, and a dead-letter that may be lost.\<close>

lemma report_inv:
  assumes "system_inv y" and job: "(m, Busy a) \<in> set (sy_jobs y)"
    and run: "executeShard lib start cancel scripts a = Some res"
    and report: "report_job (\<lambda>i r d. CompleteShard_rpc lib c (serve_call lib hl now up) net i r d) a res (sy_db y) = (st, d')"
  shows "system_inv (y\<lparr>sy_db := d', sy_jobs := next_jobs m st (remove1 (m, Busy a) (sy_jobs y))\<rparr>)"
    (is "system_inv ?y")
proof -
  have reach: "store_reach (sy_db y)" using assms(1) by (simp add: system_inv_def)
  have m: "m \<in> set (sy_messages y)" "msg_ID m \<in> set (sy_delivered y)" "message_shard m = Some (sa_ShardID a)"
    using assms(1) job by (auto simp: system_inv_def)
  note i = message_shard_int64 [OF m(3)] and r = worker_api.executeShard_report_ok [OF run]
  note facts = worker_api.report_job_facts [OF reach report i r]
  have no_work: "st \<noteq> Work b" for b using facts(3) by auto
  show ?thesis
  proof (rule worker_step_inv [OF assms(1)])
    show "store_reach (sy_db ?y)" using facts(1) by simp
    show "group_ok ?y" using assms(1) by (simp add: group_ok_def system_inv_def)
    show "set (sy_delivered ?y) \<subseteq> msg_ID ` set (sy_messages y)" "set (sy_acked ?y) \<subseteq> set (sy_delivered ?y)"
      using assms(1) by (auto simp: system_inv_def)
  next
    fix j assume "j \<in> set (sy_jobs ?y)"
    then show "j \<in> set (sy_jobs y) \<or> job_ok_in ?y j"
      using m no_work by (auto simp: next_jobs_mem)
  next
    fix m' assume m': "m' \<in> set (sy_messages y)" "message_ok y m'"
    obtain k where k: "message_shard m' = Some k" using message_status [OF assms(1) m'(1)] by blast
    show "message_ok ?y m'"
    proof (rule message_ok_moves [OF m'(2) _ k])
      show "status_moves (shard_status k (sy_db y)) (shard_status k (sy_db ?y))" using facts(1) by simp
      assume n: "msg_ID m' \<notin> set (sy_delivered ?y)"
      then have "k \<noteq> sa_ShardID a" using shard_of_message [OF assms(1) m(1) m'(1)] k m by auto
      then show "msg_ID m' \<notin> set (sy_delivered y) \<and> shard_status k (sy_db ?y) = shard_status k (sy_db y)"
        using n worker_api.report_job_frame [OF reach report i r] by simp
    next
      assume "msg_ID m' \<in> set (sy_acked ?y) \<or> (m', Acking) \<in> set (sy_jobs ?y)"
      then show "msg_ID m' \<in> set (sy_acked y) \<or> (m', Acking) \<in> set (sy_jobs y) \<or>
          over (shard_status k (sy_db ?y)) \<or> msg_ID m' \<in> set (sy_dead ?y)"
        using facts(2) k m
        by (auto simp: next_jobs_mem)
    qed simp
  qed auto
qed

lemma deadLetter_cases:
  assumes "deadLetter (\<lambda>i r d. FailShard_rpc lib c (serve_call lib hl now up) net i r d) found mid n d = (d', cs)"
    and "found \<in> {Some [m], Some [], None}" and "message_shard m = Some i"
  shows "d' = d \<or> d' = run_call now (CallFailShard i dead_reason) d"
proof -
  have r: "dead_reason \<noteq> []" by (simp add: dead_reason_def)
  have "dead_shard found = 0 \<or> dead_shard found = i"
    using assms(2,3) by (auto simp: dead_shard_def message_shard_def ParseInt_def ParseUint_def
        split: option.splits prod.splits)
  moreover obtain x e where F: "FailShard_rpc lib c (serve_call lib hl now up) net i dead_reason d = (x, e)"
    by fastforce
  ultimately show ?thesis
    using assms(1) FailShard_rpc_facts(1) [OF F message_shard_int64 [OF assms(3)] r]
    by (auto simp: deadLetter_def Let_def split: if_splits)
qed

lemma dead_inv:
  assumes "system_inv y" and m: "m \<in> set (sy_messages y)" and del: "msg_ID m \<in> set (sy_delivered y)"
    and "found \<in> {Some [m], Some [], None}"
    and "deadLetter (\<lambda>i r d. FailShard_rpc lib c (serve_call lib hl now up) net i r d) found (msg_ID m) n (sy_db y)
        = (d', cs)"
  shows "system_inv (y\<lparr>sy_db := d', sy_dead := msg_ID m # sy_dead y, sy_jobs := (m, Acking) # sy_jobs y\<rparr>)"
    (is "system_inv ?y")
proof -
  have reach: "store_reach (sy_db y)" using assms(1) by (simp add: system_inv_def)
  obtain i where i: "message_shard m = Some i" using message_status [OF assms(1) m] by blast
  have d': "d' = sy_db y \<or> d' = run_call now (CallFailShard i dead_reason) (sy_db y)"
    using deadLetter_cases [OF assms(5,4) i] .
  have keeps: "store_reach d' \<and> status_moves (shard_status j (sy_db y)) (shard_status j d')" for j
    using call_keeps [OF reach _ d'] by simp
  show ?thesis
  proof (rule worker_step_inv [OF assms(1)])
    show "store_reach (sy_db ?y)" using keeps by simp
    show "group_ok ?y" using assms(1) m by (simp add: group_ok_def system_inv_def)
    show "set (sy_delivered ?y) \<subseteq> msg_ID ` set (sy_messages y)" "set (sy_acked ?y) \<subseteq> set (sy_delivered ?y)"
      using assms(1) by (auto simp: system_inv_def)
    fix m' assume m': "m' \<in> set (sy_messages y)" "message_ok y m'"
    obtain k where k: "message_shard m' = Some k" using message_status [OF assms(1) m'(1)] by blast
    show "message_ok ?y m'"
    proof (rule message_ok_moves [OF m'(2) _ k])
      show "status_moves (shard_status k (sy_db y)) (shard_status k (sy_db ?y))" using keeps by simp
      assume n: "msg_ID m' \<notin> set (sy_delivered ?y)"
      then have "k \<noteq> i" using shard_of_message [OF assms(1) m m'(1)] k i del by auto
      then show "msg_ID m' \<notin> set (sy_delivered y) \<and> shard_status k (sy_db ?y) = shard_status k (sy_db y)"
        using n d' report_frames(2) by auto
    qed auto
  qed (use m del in auto)
qed

text \<open>Acknowledgements and crashes do not touch the backend.\<close>

lemma message_ok_quiet:
  assumes "message_ok y m" and "sy_db y' = sy_db y" and "sy_delivered y' = sy_delivered y" and "sy_dead y' = sy_dead y"
    and "msg_ID m \<in> set (sy_acked y') \<or> (m, Acking) \<in> set (sy_jobs y') \<Longrightarrow>
      msg_ID m \<in> set (sy_acked y) \<or> (m, Acking) \<in> set (sy_jobs y)"
  shows "message_ok y' m"
  using assms by (auto simp: message_ok_def)

lemma ack_inv:
  assumes "system_inv y" and job: "(m, Acking) \<in> set (sy_jobs y)"
  shows "system_inv (y\<lparr>sy_acked := msg_ID m # sy_acked y, sy_jobs := remove1 (m, Acking) (sy_jobs y)\<rparr>)"
    (is "system_inv ?y")
proof -
  have m: "m \<in> set (sy_messages y)" "msg_ID m \<in> set (sy_delivered y)" using assms by (auto simp: system_inv_def)
  show ?thesis
  proof (rule worker_step_inv [OF assms(1)])
    fix m' assume m': "m' \<in> set (sy_messages y)" "message_ok y m'"
    show "message_ok ?y m'"
    proof (rule message_ok_quiet [OF m'(2)])
      assume "msg_ID m' \<in> set (sy_acked ?y) \<or> (m', Acking) \<in> set (sy_jobs ?y)"
      then show "msg_ID m' \<in> set (sy_acked y) \<or> (m', Acking) \<in> set (sy_jobs y)"
        using message_of_id [OF assms(1) m(1) m'(1)] job
          by auto
    qed simp_all
  qed (use assms(1) m in \<open>auto simp: system_inv_def group_ok_def\<close>)
qed

lemma crash_inv:
  assumes "system_inv y" shows "system_inv (y\<lparr>sy_jobs := remove1 j (sy_jobs y)\<rparr>)"
    (is "system_inv ?y")
proof (rule worker_step_inv [OF assms])
  fix m' assume "message_ok y m'"
  then show "message_ok ?y m'"
    by (rule message_ok_quiet) auto
qed (use assms in \<open>auto simp: system_inv_def group_ok_def\<close>)

text \<open>A worker that comes up: nothing was delivered before there was a group.\<close>

lemma startup_inv:
  assumes "system_inv y" and "\<not> sy_group y"
  shows "system_inv (y\<lparr>sy_group := True, sy_skipped := map msg_ID (sy_messages y)\<rparr>)" (is "system_inv ?y")
proof (rule worker_step_inv [OF assms(1)])
  fix m' assume "message_ok y m'"
  then show "message_ok ?y m'" by (rule message_ok_quiet) auto
qed (use assms in \<open>auto simp: system_inv_def group_ok_def\<close>)

text \<open>A request publishes messages only for the shards of a run it has just created.\<close>

lemma shard_status_same: "db_shards d' = db_shards d \<Longrightarrow> shard_status i d' = shard_status i d"
  by (simp add: shard_status_def find_shard_def)

lemma find_append: "List.find P (xs @ ys) = (case List.find P xs of None \<Rightarrow> List.find P ys | Some x \<Rightarrow> Some x)"
  by (induction xs) auto

lemma shard_status_append:
  assumes "db_shards d' = db_shards d @ t" and "shard_status i d \<noteq> None"
  shows "shard_status i d' = shard_status i d"
  using assms by (auto simp: shard_status_def find_shard_def find_append split: option.splits)

lemma shard_status_below: "wf_db d \<Longrightarrow> shard_status i d \<noteq> None \<Longrightarrow> i < db_next_shard d"
  unfolding wf_db_def by (auto simp: shard_status_def dest!: find_shard_mem)

lemma published_shards:
  assumes "length mids = length ids" and "\<forall>i \<in> set ids. int64_ok i"
  shows "map message_shard (map2 PublishShard mids ids) = map Some ids"
    and "map msg_ID (map2 PublishShard mids ids) = mids"
  using assms by (induction mids ids rule: list_induct2) (auto simp: PublishShard_read)

lemma request_effect:
  assumes "serve lib hl now up1 up2 pub rq d = Some (hs, r, d', ids)" and "\<not> shard_request rq"
    and "store_reach d"
  shows "store_reach d'"
    and "\<And>i. shard_status i d \<noteq> None \<Longrightarrow> shard_status i d' = shard_status i d"
    and "distinct ids" and "\<And>i. i \<in> set ids \<Longrightarrow> shard_status i d = None \<and> shard_status i d' = Some Queued"
proof -
  have wf: "wf_db d" using assms(3) by (rule store_reach_wf)
  have "(\<exists>k. valid_call k \<and> d' = run_call now k d) \<or> d' = d"
    using assms(1,2)
  proof (cases rule: request_cases)
    case (run k)
    then show ?thesis by blast
  next
    case (create req vus)
    then show ?thesis by (intro disjI1 exI [of _ "CallCreateWithShards req vus"]) simp
  next
    case (created req vus)
    then show ?thesis by (intro disjI1 exI [of _ "CallCreateWithShards req vus"]) simp
  qed blast
  then show reach: "store_reach d'" using assms(3) by (auto intro: store_reach.call)
  show "shard_status i d' = shard_status i d" if "shard_status i d \<noteq> None" for i
    using assms(1,2)
  proof (cases rule: request_cases)
    case (run k)
    then show ?thesis using shard_status_same [OF run_level_shards] by simp
  next
    case (created req vus)
    show ?thesis by (rule shard_status_append [OF created(2) that])
  next
    case (create req vus)
    show ?thesis by (rule shard_status_same [OF create(2)])
  qed simp
  show "distinct ids"
    using assms(1,2)
  proof (cases rule: request_cases)
    case (created req vus)
    have "distinct (map sh_id (db_shards d'))" using store_reach_wf [OF reach] by (simp add: wf_db_def)
    then show ?thesis using created(2,3) by simp
  qed simp_all
  show "shard_status i d = None \<and> shard_status i d' = Some Queued" if i: "i \<in> set ids" for i
    using assms(1,2)
  proof (cases rule: request_cases)
    case (created req vus)
    with i obtain s where s: "s \<in> set (shard_rows now (db_next_run d) (db_next_shard d) 0 vus)" "sh_id s = i" by auto
    then have q: "sh_status s = Queued" "db_next_shard d \<le> i"
      by (auto simp: shard_rows_conv new_shard_row_def)
    have "find_shard i d' = Some s"
      using wf_find_shard [OF store_reach_wf [OF reach], of s] created(2) s by simp
    then have "shard_status i d' = Some Queued" using q by (simp add: shard_status_def)
    moreover have "shard_status i d = None" using shard_status_below [OF wf, of i] q by force
    ultimately show ?thesis by blast
  qed (use i in simp_all)
qed

lemma request_inv:
  assumes "system_inv y" and "serve lib hl now up1 up2 pub rq (sy_db y) = Some (hs, r, d', ids)"
    and "\<not> shard_request rq" and "length mids = length ids" and "distinct mids"
    and fresh: "set mids \<inter> msg_ID ` set (sy_messages y) = {}" and "\<forall>i \<in> set ids. int64_ok i"
  shows "system_inv (y\<lparr>sy_db := d', sy_messages := sy_messages y @ map2 PublishShard mids ids\<rparr>)"
    (is "system_inv ?y")
proof -
  obtain new where N: "new = map2 PublishShard mids ids" by blast
  have reach: "store_reach (sy_db y)" using assms(1) by (simp add: system_inv_def)
  note eff = request_effect [OF assms(2,3) reach]
  note new = published_shards [OF assms(4,7), folded N]
  have shards: "message_shard ` set new = Some ` set ids" "msg_ID ` set new = set mids"
    using arg_cong [OF new(1), of set] arg_cong [OF new(2), of set] by (simp_all only: set_map)
  have old: "message_shard ` set (sy_messages y) \<inter> Some ` set ids = {}"
  proof -
    have False if "m \<in> set (sy_messages y)" "message_shard m = Some i" "i \<in> set ids" for m i
      using message_status [OF assms(1) that(1)] that(2) eff(4) [OF that(3)] by auto
    then show ?thesis by (auto simp: image_iff)
  qed
  have ok_old: "message_ok ?y m" if "m \<in> set (sy_messages y)" for m
  proof -
    have "message_ok y m" using assms(1) that by (simp add: system_inv_def)
    then show ?thesis using eff(2) by (fastforce simp: message_ok_def)
  qed
  have ok_new: "message_ok ?y m" if m: "m \<in> set new" for m
  proof -
    obtain i where i: "message_shard m = Some i" "i \<in> set ids" using shards(1) m by blast
    have "msg_ID m \<notin> msg_ID ` set (sy_messages y)" using shards(2) m fresh by blast
    then have "msg_ID m \<notin> set (sy_acked y)" "(m, Acking) \<notin> set (sy_jobs y)"
      using assms(1) by (auto simp: system_inv_def)
    then show ?thesis using i eff(4) [OF i(2)] by (auto simp: message_ok_def)
  qed
  have "job_ok_in ?y j" if "j \<in> set (sy_jobs y)" for j
    using assms(1) that by (cases j) (auto simp: system_inv_def)
  moreover have "distinct (map msg_ID (sy_messages ?y))" "distinct (map message_shard (sy_messages ?y))"
    using assms(1,5) fresh new shards eff(3) old by (auto simp: system_inv_def distinct_map N [symmetric])
  moreover have "\<forall>m \<in> set (sy_messages ?y). message_ok ?y m" using ok_old ok_new by (auto simp: N [symmetric])
  ultimately show ?thesis using assms(1) eff(1) by (auto simp: system_inv_def group_ok_def)
qed

lemma system_step_inv: "system_step lib c hl y y' \<Longrightarrow> system_inv y \<Longrightarrow> system_inv y'"
proof (induction rule: system_step.induct)
  case (request now up1 up2 pub rq y hs r d' ids mids)
  then show ?case by (intro request_inv)
next
  case (startup created hostname pid name y)
  then show ?case by (cases created) (auto simp: startup_inv)
next
  case (deliver m y now up net st d')
  show ?case by (rule claim_inv [OF deliver(6,1,5)]) (use deliver(2-4) in simp_all)
next
  case (reclaim m y now up net st d')
  have "system_inv (y\<lparr>sy_db := d', sy_delivered := sy_delivered y, sy_jobs := next_jobs m st (sy_jobs y)\<rparr>)"
    by (rule claim_inv [OF reclaim(5,1,4)])
      (use reclaim(2,5) in \<open>auto simp: system_inv_def group_ok_def\<close>)
  then show ?case by simp
next
  case (report m a y start cancel scripts res now up net st d')
  show ?case by (rule report_inv [OF report(4,1,2,3)])
next
  case (ack m y)
  show ?case by (rule ack_inv [OF ack(2,1)])
next
  case (crash j y)
  show ?case by (rule crash_inv [OF crash(2)])
next
  case (dead m y found now up net n d' cs)
  show ?case by (rule dead_inv [OF dead(6,1,2,4,5)])
qed

lemma system_reach_inv: "system_reach lib c hl y \<Longrightarrow> system_inv y"
proof (induction rule: system_reach.induct)
  case start
  show ?case by (auto simp: system_inv_def group_ok_def start_system_def intro: store_reach.empty)
qed (rule system_step_inv)

end
