(* ===== verification/System_Properties.thy ===== *)
theory System_Properties
  imports Worker_System
begin

section \<open>What the whole pipeline promises\<close>

text \<open>
  Consequences of the invariant of \<open>Worker_System\<close>: no shard is lost, and an unfinished shard can
  be claimed, unless its message was published before there was a consumer group.
\<close>

abbreviation system_steps :: "go_lib \<Rightarrow> client \<Rightarrow> handler \<Rightarrow> system \<Rightarrow> system \<Rightarrow> bool" where
  "system_steps lib c hl \<equiv> (system_step lib c hl)\<^sup>*\<^sup>*"

lemma steps_reach: "system_steps lib c hl y y' \<Longrightarrow> system_reach lib c hl y \<Longrightarrow> system_reach lib c hl y'"
  by (induction rule: rtranclp_induct) (auto intro: system_reach.step)

subsection \<open>A shard with work left can be claimed\<close>

lemma store_reach_positive: "store_reach d \<Longrightarrow> 0 < db_next_shard d \<and> (\<forall>s \<in> set (db_shards d). 0 < sh_id s)"
proof (induction rule: store_reach.induct)
  case empty
  show ?case by (simp add: empty_db_def)
next
  case (call d k now)
  show ?case
  proof (cases "creates k")
    case False
    then have same: "same_shape d (run_call now k d)" by (rule shape_call)
    then have "set (map sh_id (db_shards (run_call now k d))) = set (map sh_id (db_shards d))"
      unfolding same_shape_def by (metis map_ident(2))
    then show ?thesis using call.IH same by (force simp: same_shape_def)
  next
    case True
    then consider req where "k = CallCreate req" | req vus where "k = CallCreateWithShards req vus"
      by (cases k) auto
    then show ?thesis
    proof cases
      case 1
      then show ?thesis using call.IH
        by (auto simp: Create_def insert_run_def Let_def split: prod.splits sum.splits if_splits)
    next
      case (2 req vus)
      obtain x d' where C: "CreateWithShards now req vus d = (x, d')" by fastforce
      then show ?thesis
      proof (cases rule: CreateWithShards_cases)
        case (failed e d1)
        then show ?thesis using call.IH C 2 by (simp add: rollback_def)
      next
        case created
        then show ?thesis using call.IH C 2 by (auto simp: shard_rows_conv new_shard_row_def)
      qed
    qed
  qed
qed

lemma startShard_succeeds:
  assumes "wf_db d" and "find_shard i d = Some s" and "shard_guard again s" and "miss \<noteq> ErrNotFound"
  obtains a d' where "startShard now i again miss d = (Inr a, d')"
proof -
  obtain x d' where S: "startShard now i again miss d = (x, d')" by fastforce
  have "x \<noteq> Inl miss" using startShard_Inl_miss [OF assms(1) _ assms(4)] S assms(2,3) by blast
  moreover have "x = Inl e \<Longrightarrow> e = miss" for e
    using S assms(2) by (auto simp: startShard_def claim_shard_def shardMiss_def Let_def
        split: prod.splits option.splits sum.splits)
  ultimately show thesis using S that by (cases x) auto
qed

text \<open>The calls of a worker reach the backend: its base URL is a host with an optional port.\<close>

definition reaches_backend :: "client \<Rightarrow> bool" where
  "reaches_backend c \<longleftrightarrow> (\<exists>h p. cl_baseURL c = ''http://'' @ h @ p \<and> plain_host h \<and> plain_port p)"

lemma claim_step:
  assumes "system_inv y" and "reaches_backend c" and m: "m \<in> set (sy_messages y)" "msg_ID m \<notin> set (sy_acked y)"
    and group: "sy_group y" "msg_ID m \<notin> set (sy_skipped y)"
    and i: "message_shard m = Some i" and s: "find_shard i (sy_db y) = Some s" "\<not> terminal (sh_status s)"
  obtains y' a where "system_step lib c hl y y'" "(m, Busy a) \<in> set (sy_jobs y')" "sa_ShardID a = i"
    "shard_status i (sy_db y') = Some Running"
proof -
  let ?d = "sy_db y"
  let ?start = "\<lambda>i d. StartShard_rpc lib c (serve_call lib hl 0 (True, True)) Net_ok i d"
  let ?take = "\<lambda>i d. TakeOverShard_rpc lib c (serve_call lib hl 0 (True, True)) Net_ok i d"
  define again where "again \<longleftrightarrow> msg_ID m \<in> set (sy_delivered y)"
  have reach: "store_reach ?d" and wf: "wf_db ?d" using assms(1) store_reach_wf by (auto simp: system_inv_def)
  have i64: "int64_ok i" using message_shard_int64 [OF i] .
  have pos: "0 < i" using store_reach_positive [OF reach] find_shard_mem [OF s(1)] by auto
  have url: "url_parse lib (cl_baseURL c @ ''/internal/shards/'' @ FormatInt i @ act) \<noteq> None"
    if "set act \<subseteq> set ''/abcdefghijklmnopqrstuvwxyz''" for act
  proof -
    obtain h p where "cl_baseURL c = ''http://'' @ h @ p" "plain_host h" "plain_port p"
      using assms(2) unfolding reaches_backend_def by blast
    from base_url_parses [OF this that] show ?thesis .
  qed
  have guard: "shard_guard again s"
  proof -
    have st: "sh_status s \<in> {Queued, Running}" using shard_status_cases [OF wf s(1)] s(2) by (auto simp: terminal_def)
    have "\<not> again \<Longrightarrow> sh_status s \<noteq> Running"
      using assms(1) m(1) i s(1) by (auto simp: system_inv_def message_ok_def again_def shard_status_def)
    with st show ?thesis by (auto simp: shard_guard_def)
  qed
  obtain a d' where S: "startShard 0 i again (if again then ErrAlreadyDone else ErrNotQueued) ?d = (Inr a, d')"
    by (rule startShard_succeeds [OF wf s(1) guard, of "if again then ErrAlreadyDone else ErrNotQueued"]) auto
  have claim: "claim_job ?start ?take again m ?d = (Work a, d')"
    using S i StartShard_arrives [OF url [of "''/start''"] i64 pos] TakeOverShard_arrives [OF url [of "''/takeover''"] i64 pos]
    by (cases again) (simp_all add: claim_job_def answer_def StartShard_def TakeOverShard_def)
  have a: "sa_ShardID a = i" "shard_status i d' = Some Running" using startShard_runs [OF wf S] by auto
  show thesis
  proof (cases again)
    case True
    then have ag: "again = True" by simp
    note step = system_step.reclaim [OF m(1) _ m(2) claim [unfolded ag]]
    show thesis by (rule that [OF step]) (use True a in \<open>simp_all add: again_def\<close>)
  next
    case False
    then have ag: "again = False" by simp
    note step = system_step.deliver [OF m(1) group _ claim [unfolded ag]]
    show thesis by (rule that [OF step]) (use False a in \<open>simp_all add: again_def\<close>)
  qed
qed

subsection \<open>A sample state\<close>

definition create_rq :: http_request where
  "create_rq = \<lparr>rq_method = ''POST'', rq_path = ''/test-runs'', rq_limit = [], rq_create = Inr good_request,
     rq_complete = Inl ''EOF'', rq_shard = Inl ''EOF'', rq_reason = Inl ''EOF''\<rparr>"

definition good_db :: db where
  "good_db = empty_db\<lparr>db_next_run := 2, db_runs := [sharded_row 3 good_request [3, 2, 2] 1],
     db_next_shard := 4, db_shards := shard_rows 3 1 1 0 [3, 2, 2]\<rparr>"

definition sample_system :: system where
  "sample_system = start_system\<lparr>sy_group := True, sy_db := good_db,
     sy_messages := map2 PublishShard [''1-0'', ''2-0'', ''3-0''] [1, 2, 3]\<rparr>"

definition sample_client :: client where
  "sample_client = \<lparr>cl_baseURL = ''http://backend:8080''\<rparr>"

lemma sample_client_reaches: "reaches_backend sample_client"
  unfolding reaches_backend_def
  by (intro exI [of _ "''backend''"] exI [of _ "'':8080''"])
    (simp add: sample_client_def plain_host_def plain_port_def is_alpha_def is_digit_def Let_def)

lemma sample_create:
  "serve ascii_lib sample_handler 3 True True (\<lambda>_. True) create_rq empty_db =
     Some (cors_headers, writeJSON 201 (B_Run (scanRow (sharded_row 3 good_request [3, 2, 2] 1))), good_db, [1, 2, 3])"
proof -
  have cap: "h_MaxConcurrentRuns sample_handler \<le> 0 \<or>
      CountActiveRuns empty_db < h_MaxConcurrentRuns sample_handler"
    by (simp add: sample_handler_def CountActiveRuns_def empty_db_def)
  have vus: "splitVUs (cr_VirtualUsers good_request) (cr_Shards good_request) = Some [3, 2, 2]"
    by (simp add: good_request_def padded_request_def splitVUs_def signed_divide_int_def
        signed_modulo_int_def upt_rec)
  have path: "path_segments ''/test-runs'' = [''test-runs'']" by code_simp
  note C = CreateTestRun_accepted [OF good_request_ok cap vus, of 3 "\<lambda>_. True"]
  have "serve ascii_lib sample_handler 3 True True (\<lambda>_. True) create_rq empty_db =
      map_option (Pair cors_headers)
        (CreateTestRun ascii_lib sample_handler 3 True True (\<lambda>_. True) (Inr good_request) empty_db)"
    by (simp add: serve_def routes_def create_rq_def path endpoints_def matched_def dispatch_def Let_def
        del: split_paired_All)
  also have "\<dots> = Some (cors_headers, writeJSON 201 (B_Run (scanRow (sharded_row 3 good_request [3, 2, 2] 1))), good_db, [1, 2, 3])"
    unfolding C by (simp add: good_db_def empty_db_def new_shard_row_def)
  finally show ?thesis .
qed

lemma create_rq_plain: "\<not> shard_request create_rq"
proof -
  have "path_segments ''/test-runs'' = [''test-runs'']" by code_simp
  then show ?thesis by (simp add: shard_request_def create_rq_def endpoints_def matched_def)
qed

lemma publish_step:
  assumes "sy_db y = empty_db" and "sy_messages y = []"
  shows "system_step ascii_lib sample_client sample_handler y
    (y\<lparr>sy_db := good_db, sy_messages := map2 PublishShard [''1-0'', ''2-0'', ''3-0''] [1, 2, 3]\<rparr>)"
proof -
  have "serve ascii_lib sample_handler 3 True True (\<lambda>_. True) create_rq (sy_db y) =
      Some (cors_headers, writeJSON 201 (B_Run (scanRow (sharded_row 3 good_request [3, 2, 2] 1))), good_db, [1, 2, 3])"
    using sample_create assms(1) by simp
  from system_step.request [OF this create_rq_plain, of "[''1-0'', ''2-0'', ''3-0'']"] assms(2)
  show ?thesis by (simp add: int64_ok_def)
qed

lemma first_startup:
  "\<not> sy_group y \<Longrightarrow> system_step lib c hl y (y\<lparr>sy_group := True, sy_skipped := map msg_ID (sy_messages y)\<rparr>)"
  using system_step.startup [of None "Some ''a''" 1 _ y] by (simp add: worker_startup_def)

lemma sample_system_reach: "system_reach ascii_lib sample_client sample_handler sample_system"
proof -
  let ?y = "start_system\<lparr>sy_group := True, sy_skipped := map msg_ID (sy_messages start_system)\<rparr>"
  have "system_step ascii_lib sample_client sample_handler start_system ?y"
    by (rule first_startup) (simp add: start_system_def)
  from system_reach.step [OF system_reach.start this]
  have r: "system_reach ascii_lib sample_client sample_handler ?y" .
  have "system_step ascii_lib sample_client sample_handler ?y sample_system"
    using publish_step [of ?y] by (simp add: start_system_def sample_system_def)
  with r show ?thesis by (rule system_reach.step)
qed

text \<open>The same run published before the first worker came up.\<close>

definition early_system :: system where
  "early_system = start_system\<lparr>sy_group := True, sy_skipped := [''1-0'', ''2-0'', ''3-0''], sy_db := good_db,
     sy_messages := map2 PublishShard [''1-0'', ''2-0'', ''3-0''] [1, 2, 3]\<rparr>"

lemma early_system_reach: "system_reach ascii_lib sample_client sample_handler early_system"
proof -
  let ?y = "start_system\<lparr>sy_db := good_db, sy_messages := map2 PublishShard [''1-0'', ''2-0'', ''3-0''] [1, 2, 3]\<rparr>"
  have "system_step ascii_lib sample_client sample_handler start_system ?y"
    by (rule publish_step) (simp_all add: start_system_def)
  from system_reach.step [OF system_reach.start this]
  have r: "system_reach ascii_lib sample_client sample_handler ?y" .
  have "system_step ascii_lib sample_client sample_handler ?y early_system"
    using first_startup [of ?y] by (simp add: start_system_def early_system_def)
  with r show ?thesis by (rule system_reach.step)
qed

text \<open>A message stays where it is, and stays skipped.\<close>

lemma skipped_step:
  assumes "system_step lib c hl y y'" and "system_inv y" and "m \<in> set (sy_messages y)" and "msg_ID m \<in> set (sy_skipped y)"
  shows "m \<in> set (sy_messages y') \<and> msg_ID m \<in> set (sy_skipped y')"
  using assms by cases (auto simp: system_inv_def group_ok_def)

lemma skipped_queued:
  assumes "system_inv y" and "m \<in> set (sy_messages y)" and "msg_ID m \<in> set (sy_skipped y)" and "message_shard m = Some i"
  shows "msg_ID m \<notin> set (sy_delivered y)" and "shard_status i (sy_db y) = Some Queued"
proof -
  show "msg_ID m \<notin> set (sy_delivered y)" using assms(1,3) by (auto simp: system_inv_def group_ok_def)
  then show "shard_status i (sy_db y) = Some Queued" using assms(1,2,4) by (auto simp: system_inv_def message_ok_def)
qed

subsection \<open>Properties\<close>

text \<open>
  C2: no shard is lost. In every state the workers, the broker and the backend can reach
  together, whatever crashes, losses and duplicate deliveries happened, the shard of every
  published message exists, and it is over, or its message is still pending (not acknowledged,
  and no worker is about to), or the message was dead-lettered.
\<close>

theorem no_shard_lost:
  assumes "system_reach lib c hl y" and "m \<in> set (sy_messages y)"
  shows "\<exists>i s. message_shard m = Some i \<and> find_shard i (sy_db y) = Some s \<and>
    (sh_status s \<in> {Completed, Failed} \<or>
     (msg_ID m \<notin> set (sy_acked y) \<and> (m, Acking) \<notin> set (sy_jobs y)) \<or> msg_ID m \<in> set (sy_dead y))"
proof -
  have inv: "system_inv y" using assms(1) by (rule system_reach_inv)
  obtain i where i: "message_shard m = Some i" "shard_status i (sy_db y) \<noteq> None"
    using message_status [OF inv assms(2)] .
  then obtain s where s: "find_shard i (sy_db y) = Some s" by (auto simp: shard_status_def)
  moreover have "sh_status s \<in> {Completed, Failed}" if "terminal (sh_status s)"
    using shard_status_cases [OF _ s] that store_reach_wf inv by (auto simp: system_inv_def)
  moreover have "message_ok y m" using inv assms(2) by (simp add: system_inv_def)
  ultimately show ?thesis using i(1) by (fastforce simp: message_ok_def over_def shard_status_def)
qed

theorem no_shard_lost_witness:
  "\<exists>i s. message_shard (PublishShard ''2-0'' 2) = Some i \<and> find_shard i (sy_db sample_system) = Some s \<and>
    (sh_status s \<in> {Completed, Failed} \<or> ''2-0'' \<notin> set (sy_acked sample_system))"
proof -
  have "PublishShard ''2-0'' 2 \<in> set (sy_messages sample_system)" by (simp add: sample_system_def)
  from no_shard_lost [OF sample_system_reach this] show ?thesis
    by (auto simp: sample_system_def start_system_def)
qed



text \<open>
  C13: a shard published before the first worker ever came up is lost. The consumer group
  starts at "$", so its message is never delivered: it is not acknowledged, and whatever workers,
  users and the backend do from then on, its shard stays queued.
\<close>

theorem skipped_stays_queued:
  assumes "system_reach lib c hl y" and "m \<in> set (sy_messages y)" and "msg_ID m \<in> set (sy_skipped y)"
  shows "\<exists>i. message_shard m = Some i \<and>
    (\<forall>y'. (system_step lib c hl)\<^sup>*\<^sup>* y y' \<longrightarrow>
      msg_ID m \<notin> set (sy_delivered y') \<and> shard_status i (sy_db y') = Some Queued)"
proof -
  have inv: "system_inv y" using assms(1) by (rule system_reach_inv)
  obtain i where i: "message_shard m = Some i" using message_status [OF inv assms(2)] by blast
  have "system_inv y' \<and> m \<in> set (sy_messages y') \<and> msg_ID m \<in> set (sy_skipped y')"
    if "system_steps lib c hl y y'" for y'
    using that
  proof (induction rule: rtranclp_induct)
    case base
    then show ?case using inv assms(2,3) by simp
  next
    case (step y1 y2)
    then show ?case using skipped_step [OF step(2)] system_step_inv [OF step(2)] by blast
  qed
  then show ?thesis using i skipped_queued by blast
qed

theorem skipped_stays_queued_witness:
  "\<nexists>y'. (system_step ascii_lib sample_client sample_handler)\<^sup>*\<^sup>* early_system y' \<and>
    shard_status 2 (sy_db y') \<noteq> Some Queued"
proof -
  have "PublishShard ''2-0'' 2 \<in> set (sy_messages early_system)"
    "msg_ID (PublishShard ''2-0'' 2) \<in> set (sy_skipped early_system)" by (simp_all add: early_system_def)
  from skipped_stays_queued [OF early_system_reach this] show ?thesis
    by (simp add: PublishShard_read int64_ok_def)
qed

end
