(* ===== verification/System_Protocol.thy ===== *)
theory System_Protocol
  imports System_Properties
begin

section \<open>The pipeline as a protocol\<close>

text \<open>
  What the pipeline is meant to do, without HTTP, SQL, workers or jobs: shards have a status, open
  messages name a shard each, and a message is closed only when its shard is over or the message
  is set aside. Every step of \<open>system_step\<close> is a step of this protocol or changes nothing it
  can see.
\<close>

subsection \<open>The protocol\<close>

record protocol =
  pt_shards :: "int \<Rightarrow> run_status option"
  pt_open :: "string \<Rightarrow> int option"
  pt_dead :: "string set"

inductive protocol_step :: "protocol \<Rightarrow> protocol \<Rightarrow> bool" where
  publish: "\<lbrakk>\<forall>i \<in> new. pt_shards p i = None; ran fresh \<subseteq> new; inj_on fresh (dom fresh);
      dom fresh \<inter> (dom (pt_open p) \<union> pt_dead p) = {}\<rbrakk>
    \<Longrightarrow> protocol_step p
          (p\<lparr>pt_shards := (\<lambda>i. if i \<in> new then Some Queued else pt_shards p i), pt_open := pt_open p ++ fresh\<rparr>)"
| claim: "\<lbrakk>pt_open p mid = Some i; pt_shards p i \<in> {Some Queued, Some Running}\<rbrakk>
    \<Longrightarrow> protocol_step p (p\<lparr>pt_shards := (pt_shards p)(i \<mapsto> Running)\<rparr>)"
| finish: "\<lbrakk>pt_shards p i = Some Running; st \<in> {Completed, Failed}\<rbrakk>
    \<Longrightarrow> protocol_step p (p\<lparr>pt_shards := (pt_shards p)(i \<mapsto> st)\<rparr>)"
| dead_letter: "pt_open p mid = Some i
    \<Longrightarrow> protocol_step p (p\<lparr>pt_dead := insert mid (pt_dead p)\<rparr>)"
| dead_shard: "\<lbrakk>pt_open p mid = Some i; pt_shards p i \<in> {Some Queued, Some Running}\<rbrakk>
    \<Longrightarrow> protocol_step p (p\<lparr>pt_shards := (pt_shards p)(i \<mapsto> Failed), pt_dead := insert mid (pt_dead p)\<rparr>)"
| close: "\<lbrakk>pt_open p mid = Some i; pt_shards p i \<in> {Some Completed, Some Failed} \<or> mid \<in> pt_dead p\<rbrakk>
    \<Longrightarrow> protocol_step p (p\<lparr>pt_open := (pt_open p)(mid := None)\<rparr>)"

definition open_messages :: "message list \<Rightarrow> string list \<Rightarrow> string \<Rightarrow> int option" where
  "open_messages ms acked mid =
     (if mid \<in> set acked then None
      else case List.find (\<lambda>m. msg_ID m = mid) ms of None \<Rightarrow> None | Some m \<Rightarrow> message_shard m)"

definition protocol_of :: "system \<Rightarrow> protocol" where
  "protocol_of y =
     \<lparr>pt_shards = (\<lambda>i. shard_status i (sy_db y)), pt_open = open_messages (sy_messages y) (sy_acked y),
      pt_dead = set (sy_dead y)\<rparr>"

subsection \<open>Messages\<close>

lemma open_of_message:
  assumes "system_inv y" and "m \<in> set (sy_messages y)" and "msg_ID m \<notin> set (sy_acked y)"
  shows "pt_open (protocol_of y) (msg_ID m) = message_shard m"
proof -
  obtain m' where f: "List.find (\<lambda>m'. msg_ID m' = msg_ID m) (sy_messages y) = Some m'"
    using assms(2) by (metis (mono_tags, lifting) find_None_iff not_Some_eq)
  then have "m' \<in> set (sy_messages y)" "msg_ID m' = msg_ID m" by (auto simp: find_Some_iff)
  then have "m' = m" using message_of_id [OF assms(1) _ assms(2)] by simp
  then show ?thesis using f assms(3) by (simp add: protocol_of_def open_messages_def)
qed

lemma find_published:
  assumes "length mids = length ids" and "\<forall>i \<in> set ids. int64_ok i"
  shows "(case List.find (\<lambda>m. msg_ID m = mid) (map2 PublishShard mids ids) of None \<Rightarrow> None | Some m \<Rightarrow> message_shard m) =
    map_of (zip mids ids) mid"
  using assms by (induction mids ids rule: list_induct2) (auto simp: PublishShard_read)

lemma open_published:
  assumes "length mids = length ids" and "\<forall>i \<in> set ids. int64_ok i" and "set mids \<inter> msg_ID ` set ms = {}"
    and "set mids \<inter> set acked = {}"
  shows "open_messages (ms @ map2 PublishShard mids ids) acked = open_messages ms acked ++ map_of (zip mids ids)"
proof
  fix mid
  have zip: "map_of (zip mids ids) mid = None" if "mid \<notin> set mids"
    using that by (auto simp: map_of_eq_None_iff dest: set_zip_leftD)
  have new: "mid \<notin> set acked" "List.find (\<lambda>m. msg_ID m = mid) ms = None" if "mid \<in> set mids"
    using that assms(3,4) by (auto simp: find_None_iff)
  show "open_messages (ms @ map2 PublishShard mids ids) acked mid = (open_messages ms acked ++ map_of (zip mids ids)) mid"
  proof (cases "mid \<in> set mids")
    case True
    then show ?thesis using new find_published [OF assms(1,2), of mid]
      by (auto simp: open_messages_def find_append map_add_def split: option.split)
  next
    case False
    then show ?thesis using zip find_published [OF assms(1,2), of mid]
      by (auto simp: open_messages_def find_append map_add_def split: option.split)
  qed
qed

subsection \<open>Statuses\<close>

text \<open>What a claim, a report and a failure do to the status of their shard.\<close>

definition claims :: "int \<Rightarrow> db \<Rightarrow> db \<Rightarrow> bool" where
  "claims i d d' \<longleftrightarrow> shard_status i d' = shard_status i d \<or>
     shard_status i d \<in> {Some Queued, Some Running} \<and> shard_status i d' = Some Running"

lemma claim_shard_claims:
  assumes "wf_db d" shows "claims i d (snd (claim_shard now i again miss d))"
proof -
  obtain x d1 where C: "claim_shard now i again miss d = (x, d1)" by fastforce
  show ?thesis
  proof (cases x)
    case (Inl e)
    then show ?thesis using claim_shard_Inl [of now i again miss d e d1] C by (simp add: claims_def)
  next
    case (Inr a)
    note R = claim_shard_runs [OF assms C [unfolded Inr]]
    then have "shard_status i d \<in> {Some Queued, Some Running}"
      by (auto simp: shard_status_def shard_guard_def split: if_splits)
    then show ?thesis using R(1) C by (simp add: claims_def)
  qed
qed

lemma startShard_claims:
  assumes "wf_db d" shows "claims i d (snd (startShard now i again miss d))"
  using claim_shard_claims [OF assms, of i now again miss]
  by (auto simp: startShard_def claims_def shard_status_def find_shard_def split: prod.splits sum.splits)

lemma claim_job_claims:
  assumes "store_reach d" and "message_shard m = Some i"
    and "claim_job (\<lambda>i d. StartShard_rpc lib c (serve_call lib hl now up) net i d)
        (\<lambda>i d. TakeOverShard_rpc lib c (serve_call lib hl now up) net i d) again m d = (st, d')"
  shows "claims i d d'" and "\<And>j. j \<noteq> i \<Longrightarrow> shard_status j d' = shard_status j d"
proof -
  note wf = store_reach_wf [OF assms(1)]
  have same: "claims i d d" by (simp add: claims_def)
  from assms(3) show "claims i d d'"
  proof (cases rule: worker_api.claim_cases)
    case (called j x)
    then have j: "j = i" using assms(2) by simp
    show ?thesis
    proof (cases again)
      case True
      from called(3) True have "TakeOverShard_rpc lib c (serve_call lib hl now up) net j d = (x, d')" by simp
      from TakeOverShard_rpc_facts(1) [OF this called(2)] show ?thesis
        using startShard_claims [OF wf] claim_shard_claims [OF wf] same j by (auto simp: TakeOverShard_def)
    next
      case False
      from called(3) False have "StartShard_rpc lib c (serve_call lib hl now up) net j d = (x, d')" by simp
      from StartShard_rpc_facts(1) [OF this called(2)] show ?thesis
        using startShard_claims [OF wf] claim_shard_claims [OF wf] same j by (auto simp: StartShard_def)
    qed
  qed (use same in simp)
  show "shard_status j d' = shard_status j d" if "j \<noteq> i" for j
    using worker_api.claim_frame [OF assms(1,3), of j] assms(2) that by simp
qed

text \<open>The guard of a shard's end, and what it ends as.\<close>

lemma finishShard_status:
  assumes "wf_db d" and "finishShard now i g f miss d = (x, d')"
    and "\<And>s. sh_run_id (f s) = sh_run_id s" and "\<And>s. sh_id (f s) = sh_id s"
  obtains (same) "shard_status i d' = shard_status i d"
  | (ended) s where "shard_status i d = Some (sh_status s)" "g s" "shard_status i d' = Some (sh_status (f s))"
  using assms(2,3)
proof (cases rule: finishShard_cases)
  case same
  then show thesis using that(1) by simp
next
  case (finished s)
  have f: "List.find (\<lambda>s. sh_id s = i) (db_shards d) = Some s"
    using wf_find_shard [OF assms(1) finished(1)] finished(2) by (simp add: find_shard_def)
  moreover have "List.find (\<lambda>s. sh_id s = i) (upd_where (\<lambda>s. sh_id s = i \<and> g s) f (db_shards d)) = Some (f s)"
    by (rule find_upd_where_hit [OF _ f]) (simp_all add: assms(4) finished(2,3))
  ultimately show thesis
    using that(2) [of s] finished(3) barrier_shards [OF finished(5)] by (simp add: shard_status_def find_shard_def)
qed

lemma CompleteShard_status:
  assumes "wf_db d" and "outcome_text (cs_Status req)"
  shows "shard_status i (snd (CompleteShard now i req d)) = shard_status i d \<or>
    shard_status i d = Some Running \<and> shard_status i (snd (CompleteShard now i req d)) \<in> {Some Completed, Some Failed}"
proof -
  obtain st where st: "shard_status_of (cs_Status req) = Some st" "st \<in> {Completed, Failed}"
    using assms(2) by (auto simp: outcome_text_def shard_status_of_def parse_status_def)
  obtain x d' where C: "CompleteShard now i req d = (x, d')" by fastforce
  show ?thesis
  proof (cases "\<exists>e. x = Inl e \<and> d' = d")
    case False
    then have "finishShard now i (\<lambda>s. sh_status s = Running) (set_shard_outcome now st req) (Some ErrNotRunning) d = (x, d')"
      using C st(1) by (auto simp: CompleteShard_def split: if_splits)
    from assms(1) this show ?thesis
      by (cases rule: finishShard_status) (use C st(2) in \<open>auto simp: set_shard_outcome_def\<close>)
  qed (use C in auto)
qed

lemma FailShard_status:
  assumes "wf_db d"
  shows "shard_status i (snd (FailShard now i reason d)) = shard_status i d \<or>
    shard_status i d \<in> {Some Queued, Some Running} \<and> shard_status i (snd (FailShard now i reason d)) = Some Failed"
proof -
  obtain x d' where C: "FailShard now i reason d = (x, d')" by fastforce
  show ?thesis
  proof (cases "\<exists>e. x = Inl e \<and> d' = d")
    case False
    then have "finishShard now i (\<lambda>s. sh_status s \<in> {Queued, Running}) (set_shard_failed now reason) None d = (x, d')"
      using C by (auto simp: FailShard_def split: if_splits)
    from assms this show ?thesis
      by (cases rule: finishShard_status) (use C in \<open>auto simp: set_shard_failed_def\<close>)
  qed (use C in auto)
qed

subsection \<open>The simulation\<close>

lemma found_member: "List.find P xs = Some x \<Longrightarrow> x \<in> set xs \<and> P x"
  by (auto simp: find_Some_iff)

text \<open>A request: new shards are queued, the others unchanged.\<close>

lemma request_new_queued:
  assumes "serve lib hl now up1 up2 pub rq d = Some (hs, r, d', ids)" and "\<not> shard_request rq"
    and "shard_status i d = None"
  shows "shard_status i d' \<in> {None, Some Queued}"
  using assms(1,2)
proof (cases rule: request_cases)
  case (run k)
  then show ?thesis using shard_status_same [OF run_level_shards] assms(3) by simp
next
  case (create req vus)
  then show ?thesis using shard_status_same [OF create(2)] assms(3) by simp
next
  case (created req vus)
  have "shard_status i d' = map_option sh_status
      (List.find (\<lambda>s. sh_id s = i) (shard_rows now (db_next_run d) (db_next_shard d) 0 vus))"
    using assms(3) created(2) by (auto simp: shard_status_def find_shard_def find_append split: option.splits)
  moreover have "sh_status s = Queued" if "s \<in> set (shard_rows now (db_next_run d) (db_next_shard d) 0 vus)" for s
    using that by (auto simp: shard_rows_conv new_shard_row_def)
  ultimately show ?thesis
    by (cases "List.find (\<lambda>s. sh_id s = i) (shard_rows now (db_next_run d) (db_next_shard d) 0 vus)")
      (auto dest: found_member)
qed (use assms(3) in simp)

definition simulated :: "system \<Rightarrow> system \<Rightarrow> bool" where
  "simulated y y' \<longleftrightarrow> protocol_of y' = protocol_of y \<or> protocol_step (protocol_of y) (protocol_of y')"

lemma request_simulated:
  assumes "system_inv y" and serve: "serve lib hl now up1 up2 pub rq (sy_db y) = Some (hs, r, d', ids)"
    and "\<not> shard_request rq" and "length mids = length ids" and "distinct mids"
    and fresh: "set mids \<inter> msg_ID ` set (sy_messages y) = {}" and "\<forall>i \<in> set ids. int64_ok i"
  shows "simulated y (y\<lparr>sy_db := d', sy_messages := sy_messages y @ map2 PublishShard mids ids\<rparr>)"
    (is "simulated y ?y")
proof -
  let ?p = "protocol_of y"
  define new where "new = {i. shard_status i (sy_db y) = None \<and> shard_status i d' = Some Queued}"
  let ?fresh = "map_of (zip mids ids)"
  have inv: "store_reach (sy_db y)" "set (sy_acked y) \<subseteq> msg_ID ` set (sy_messages y)"
    "set (sy_dead y) \<subseteq> msg_ID ` set (sy_messages y)"
    using assms(1) by (auto simp: system_inv_def group_ok_def)
  note eff = request_effect [OF serve assms(3) inv(1)]
  have shards: "shard_status i d' = (if i \<in> new then Some Queued else shard_status i (sy_db y))" for i
    using eff(2) [of i] request_new_queued [OF serve assms(3), of i]
    by (cases "shard_status i (sy_db y)") (auto simp: new_def)
  have acked: "set mids \<inter> set (sy_acked y) = {}" using fresh inv(2) by blast
  have ran: "ran ?fresh \<subseteq> set ids" by (auto simp: ran_def dest!: map_of_SomeD in_set_zipE)
  have "protocol_of ?y = ?p\<lparr>pt_shards := (\<lambda>i. if i \<in> new then Some Queued else pt_shards ?p i), pt_open := pt_open ?p ++ ?fresh\<rparr>"
    using open_published [OF assms(4,7) fresh acked] shards by (simp add: protocol_of_def cong: if_cong)
  moreover have "protocol_step ?p (?p\<lparr>pt_shards := (\<lambda>i. if i \<in> new then Some Queued else pt_shards ?p i), pt_open := pt_open ?p ++ ?fresh\<rparr>)"
  proof (rule protocol_step.publish)
    show "\<forall>i \<in> new. pt_shards ?p i = None" by (simp add: new_def protocol_of_def)
    show "ran ?fresh \<subseteq> new" using ran eff(4) by (auto simp: new_def)
    show "inj_on ?fresh (dom ?fresh)"
      using assms(4,5) eff(3) by (intro inj_onI) (auto simp: map_of_zip_nth in_set_conv_nth nth_eq_iff_index_eq)
    have "dom (pt_open ?p) \<subseteq> msg_ID ` set (sy_messages y)"
      by (auto simp: protocol_of_def open_messages_def find_Some_iff split: if_splits option.splits)
    then show "dom ?fresh \<inter> (dom (pt_open ?p) \<union> pt_dead ?p) = {}"
      using fresh inv(3) assms(4) by (auto simp: protocol_of_def dom_map_of_zip)
  qed
  ultimately show ?thesis by (simp add: simulated_def)
qed

text \<open>A step that changes the status of one shard, of an open message.\<close>

lemma shards_updated:
  assumes "shard_status i d' = v" and "\<And>j. j \<noteq> i \<Longrightarrow> shard_status j d' = shard_status j d"
  shows "(\<lambda>j. shard_status j d') = (\<lambda>j. shard_status j d)(i := v)"
  using assms by auto

lemma claim_simulated:
  assumes "system_inv y" and m: "m \<in> set (sy_messages y)" "msg_ID m \<notin> set (sy_acked y)"
    and claim: "claim_job (\<lambda>i d. StartShard_rpc lib c (serve_call lib hl now up) net i d)
        (\<lambda>i d. TakeOverShard_rpc lib c (serve_call lib hl now up) net i d) again m (sy_db y) = (st, d')"
  shows "simulated y (y\<lparr>sy_db := d', sy_delivered := del, sy_jobs := jobs\<rparr>)" (is "simulated y ?y")
proof -
  obtain i where i: "message_shard m = Some i" using message_status [OF assms(1) m(1)] by blast
  have "store_reach (sy_db y)" using assms(1) by (simp add: system_inv_def)
  note C = claim_job_claims [OF this i claim]
  note open_m = open_of_message [OF assms(1) m, unfolded i]
  show ?thesis
  proof (cases "shard_status i d' = shard_status i (sy_db y)")
    case True
    then have "shard_status j d' = shard_status j (sy_db y)" for j using C(2) by (cases "j = i") auto
    then show ?thesis by (simp add: simulated_def protocol_of_def)
  next
    case False
    then have c: "shard_status i (sy_db y) \<in> {Some Queued, Some Running}" "shard_status i d' = Some Running"
      using C(1) by (auto simp: claims_def)
    have "protocol_of ?y = protocol_of y\<lparr>pt_shards := (pt_shards (protocol_of y))(i \<mapsto> Running)\<rparr>"
      using shards_updated [OF c(2) C(2)] by (simp add: protocol_of_def)
    moreover have "protocol_step (protocol_of y) (protocol_of y\<lparr>pt_shards := (pt_shards (protocol_of y))(i \<mapsto> Running)\<rparr>)"
      by (rule protocol_step.claim [OF open_m]) (use c(1) in \<open>simp add: protocol_of_def\<close>)
    ultimately show ?thesis by (simp add: simulated_def)
  qed
qed

lemma report_simulated:
  assumes "system_inv y" and "(m, Busy a) \<in> set (sy_jobs y)"
    and run: "executeShard lib start cancel scripts a = Some res"
    and report: "report_job (\<lambda>i r d. CompleteShard_rpc lib c (serve_call lib hl now up) net i r d) a res (sy_db y) = (st, d')"
  shows "simulated y (y\<lparr>sy_db := d', sy_jobs := jobs\<rparr>)" (is "simulated y ?y")
proof -
  have reach: "store_reach (sy_db y)" using assms(1) by (simp add: system_inv_def)
  have "message_shard m = Some (sa_ShardID a)" using assms(1,2) by (auto simp: system_inv_def)
  note i = message_shard_int64 [OF this] and r = worker_api.executeShard_report_ok [OF run]
  then have o: "outcome_text (cs_Status res)" by (simp add: report_ok_def)
  obtain x where "CompleteShard_rpc lib c (serve_call lib hl now up) net (sa_ShardID a) res (sy_db y) = (x, d')"
    using report by (auto simp: report_job_def split: prod.splits sum.splits)
  from CompleteShard_rpc_facts(1) [OF this i o] CompleteShard_status [OF store_reach_wf [OF reach] o]
  have "shard_status (sa_ShardID a) d' = shard_status (sa_ShardID a) (sy_db y) \<or>
      shard_status (sa_ShardID a) (sy_db y) = Some Running \<and> shard_status (sa_ShardID a) d' \<in> {Some Completed, Some Failed}"
    by blast
  moreover have frame: "shard_status j d' = shard_status j (sy_db y)" if "j \<noteq> sa_ShardID a" for j
    using worker_api.report_job_frame [OF reach report i r that] .
  ultimately consider "\<forall>j. shard_status j d' = shard_status j (sy_db y)"
    | u where "shard_status (sa_ShardID a) (sy_db y) = Some Running" "u \<in> {Completed, Failed}"
      "shard_status (sa_ShardID a) d' = Some u" by (metis insertCI insertE empty_iff)
  then show ?thesis
  proof cases
    case 1
    then show ?thesis by (simp add: simulated_def protocol_of_def)
  next
    case (2 u)
    have "protocol_of ?y = protocol_of y\<lparr>pt_shards := (pt_shards (protocol_of y))(sa_ShardID a \<mapsto> u)\<rparr>"
      using shards_updated [OF 2(3) frame] by (simp add: protocol_of_def)
    moreover have "protocol_step (protocol_of y) (protocol_of y\<lparr>pt_shards := (pt_shards (protocol_of y))(sa_ShardID a \<mapsto> u)\<rparr>)"
      by (rule protocol_step.finish) (use 2 in \<open>simp_all add: protocol_of_def\<close>)
    ultimately show ?thesis by (simp add: simulated_def)
  qed
qed

lemma dead_simulated:
  assumes "system_inv y" and m: "m \<in> set (sy_messages y)" "msg_ID m \<notin> set (sy_acked y)"
    and "found \<in> {Some [m], Some [], None}"
    and "deadLetter (\<lambda>i r d. FailShard_rpc lib c (serve_call lib hl now up) net i r d) found (msg_ID m) n (sy_db y)
        = (d', cs)"
  shows "simulated y (y\<lparr>sy_db := d', sy_dead := msg_ID m # sy_dead y, sy_jobs := jobs\<rparr>)" (is "simulated y ?y")
proof -
  obtain i where i: "message_shard m = Some i" using message_status [OF assms(1) m(1)] by blast
  have wf: "wf_db (sy_db y)" using assms(1) store_reach_wf by (simp add: system_inv_def)
  note open_m = open_of_message [OF assms(1) m, unfolded i]
  have d': "d' = sy_db y \<or> d' = snd (FailShard now i dead_reason (sy_db y))"
    using deadLetter_cases [OF assms(5,4) i] by simp
  then have frame: "shard_status j d' = shard_status j (sy_db y)" if "j \<noteq> i" for j
    using report_frames(2) [OF that] by auto
  have "shard_status i d' = shard_status i (sy_db y) \<or>
      shard_status i (sy_db y) \<in> {Some Queued, Some Running} \<and> shard_status i d' = Some Failed"
    using d' FailShard_status [OF wf] by blast
  then consider "\<forall>j. shard_status j d' = shard_status j (sy_db y)"
    | "shard_status i (sy_db y) \<in> {Some Queued, Some Running}" "shard_status i d' = Some Failed" using frame by metis
  then show ?thesis
  proof cases
    case 1
    then have "protocol_of ?y = protocol_of y\<lparr>pt_dead := insert (msg_ID m) (pt_dead (protocol_of y))\<rparr>"
      by (simp add: protocol_of_def)
    then show ?thesis using protocol_step.dead_letter [OF open_m] by (simp add: simulated_def)
  next
    case 2
    have "protocol_of ?y = protocol_of y\<lparr>pt_shards := (pt_shards (protocol_of y))(i \<mapsto> Failed),
        pt_dead := insert (msg_ID m) (pt_dead (protocol_of y))\<rparr>"
      using shards_updated [OF 2(2) frame] by (simp add: protocol_of_def)
    moreover have "protocol_step (protocol_of y) (protocol_of y\<lparr>pt_shards := (pt_shards (protocol_of y))(i \<mapsto> Failed),
        pt_dead := insert (msg_ID m) (pt_dead (protocol_of y))\<rparr>)"
      by (rule protocol_step.dead_shard [OF open_m]) (use 2(1) in \<open>simp add: protocol_of_def\<close>)
    ultimately show ?thesis by (simp add: simulated_def)
  qed
qed

text \<open>An acknowledgement closes a message that may be closed, or was closed before.\<close>

lemma ack_simulated:
  assumes "system_inv y" and "(m, Acking) \<in> set (sy_jobs y)"
  shows "simulated y (y\<lparr>sy_acked := msg_ID m # sy_acked y, sy_jobs := jobs\<rparr>)" (is "simulated y ?y")
proof -
  have m: "m \<in> set (sy_messages y)" using assms by (auto simp: system_inv_def)
  have opens: "pt_open (protocol_of ?y) = (pt_open (protocol_of y))(msg_ID m := None)"
    by (auto simp: protocol_of_def open_messages_def fun_eq_iff)
  have rest: "protocol_of ?y = protocol_of y\<lparr>pt_open := pt_open (protocol_of ?y)\<rparr>" by (simp add: protocol_of_def)
  show ?thesis
  proof (cases "msg_ID m \<in> set (sy_acked y)")
    case True
    then have "(pt_open (protocol_of y))(msg_ID m := None) = pt_open (protocol_of y)"
      by (auto simp: protocol_of_def open_messages_def)
    then show ?thesis using rest opens by (simp add: simulated_def)
  next
    case False
    obtain i where i: "message_shard m = Some i" "shard_status i (sy_db y) \<noteq> None" using message_status [OF assms(1) m] .
    have wf: "wf_db (sy_db y)" using assms(1) store_reach_wf by (simp add: system_inv_def)
    have "message_ok y m" using assms(1) m by (simp add: system_inv_def)
    then have "over (shard_status i (sy_db y)) \<or> msg_ID m \<in> set (sy_dead y)"
      using assms(2) i(1) by (auto simp: message_ok_def)
    moreover have "shard_status i (sy_db y) \<in> {Some Completed, Some Failed}" if "over (shard_status i (sy_db y))"
      using that i(2) shard_status_cases [OF wf] by (fastforce simp: over_def shard_status_def terminal_def)
    ultimately have "pt_shards (protocol_of y) i \<in> {Some Completed, Some Failed} \<or> msg_ID m \<in> pt_dead (protocol_of y)"
      by (auto simp: protocol_of_def)
    from protocol_step.close [OF open_of_message [OF assms(1) m False, unfolded i(1)] this]
    show ?thesis using rest opens by (simp add: simulated_def)
  qed
qed

lemma step_simulated: "system_step lib c hl y y' \<Longrightarrow> system_inv y \<Longrightarrow> simulated y y'"
proof (induction rule: system_step.induct)
  case (request now up1 up2 pub rq y hs r d' ids mids)
  then show ?case by (intro request_simulated)
next
  case (startup created hostname pid name y)
  then show ?case by (simp add: simulated_def protocol_of_def)
next
  case (deliver m y now up net st d')
  then have "msg_ID m \<notin> set (sy_acked y)" by (auto simp: system_inv_def)
  then show ?case by (intro claim_simulated [OF deliver(6,1) _ deliver(5)])
next
  case (reclaim m y now up net st d')
  have "simulated y (y\<lparr>sy_db := d', sy_delivered := sy_delivered y, sy_jobs := next_jobs m st (sy_jobs y)\<rparr>)"
    by (rule claim_simulated [OF reclaim(5,1,3,4)])
  then show ?case by simp
next
  case (report m a y start cancel scripts res now up net st d')
  show ?case by (rule report_simulated [OF report(4,1,2,3)])
next
  case (ack m y)
  show ?case by (rule ack_simulated [OF ack(2,1)])
next
  case (crash j y)
  then show ?case by (simp add: simulated_def protocol_of_def)
next
  case (dead m y found now up net n d' cs)
  show ?case by (rule dead_simulated [OF dead(6,1,3,4,5)])
qed

lemma steps_simulated:
  assumes "system_steps lib c hl y y'" and "system_inv y"
  shows "system_inv y' \<and> protocol_step\<^sup>*\<^sup>* (protocol_of y) (protocol_of y')"
  using assms(1)
proof (induction rule: rtranclp_induct)
  case base
  then show ?case using assms(2) by simp
next
  case (step y1 y2)
  then have "simulated y1 y2" using step_simulated by blast
  then have "protocol_step\<^sup>*\<^sup>* (protocol_of y1) (protocol_of y2)" by (auto simp: simulated_def)
  then show ?case using step system_step_inv by (meson rtranclp_trans)
qed

subsection \<open>Property\<close>

text \<open>
  C5: the pipeline implements the protocol. Every step of workers, broker, users and backend,
  with its HTTP calls, lost requests and responses, crashes and duplicate deliveries, is a step
  of the abstract protocol or changes nothing it can see: a shard is published queued, claimed
  while it is queued or running, ended while it is running (or failed with its message set
  aside), and a message is closed only when its shard is over or it was set aside.
\<close>

theorem pipeline_refines_protocol:
  assumes "system_reach lib c hl y" and "system_step lib c hl y y'"
  shows "protocol_of y' = protocol_of y \<or> protocol_step (protocol_of y) (protocol_of y')"
  using step_simulated [OF assms(2) system_reach_inv [OF assms(1)]] by (simp add: simulated_def)

text \<open>The claim of a shard, by the step of a sample worker.\<close>

theorem pipeline_refines_protocol_witness:
  "\<exists>y'. system_step ascii_lib sample_client sample_handler sample_system y' \<and>
    protocol_step (protocol_of sample_system) (protocol_of y')"
proof -
  let ?m = "PublishShard ''2-0'' 2"
  have m: "?m \<in> set (sy_messages sample_system)" "msg_ID ?m \<notin> set (sy_acked sample_system)" "sy_group sample_system"
    "msg_ID ?m \<notin> set (sy_skipped sample_system)" "message_shard ?m = Some 2"
    by (simp_all add: sample_system_def start_system_def PublishShard_read int64_ok_def)
  obtain s where s: "find_shard 2 (sy_db sample_system) = Some s" "\<not> terminal (sh_status s)" "sh_status s = Queued"
    by (simp add: sample_system_def good_db_def find_shard_def new_shard_row_def terminal_def)
  obtain y' a where y': "system_step ascii_lib sample_client sample_handler sample_system y'"
    "shard_status 2 (sy_db y') = Some Running"
    by (rule claim_step [OF system_reach_inv [OF sample_system_reach] sample_client_reaches m s(1,2)])
  have "pt_shards (protocol_of y') 2 \<noteq> pt_shards (protocol_of sample_system) 2"
    using y'(2) s(1,3) by (auto simp: protocol_of_def shard_status_def)
  then have "protocol_of y' \<noteq> protocol_of sample_system" by auto
  then show ?thesis using pipeline_refines_protocol [OF sample_system_reach y'(1)] y'(1) by blast
qed

end
