(* ===== verification/System_Refinement.thy ===== *)
theory System_Refinement
  imports System_Protocol
begin

section \<open>The worker's code implements the pipeline's steps\<close>

text \<open>
  \<open>handleMessage\<close> and \<open>deadLetter\<close>, each a whole function of the worker, are sequences of the
  small steps of \<open>system_step\<close>, with whatever others do in between. What is proved of the
  reachable states of the pipeline holds of workers that run this code.
\<close>

text \<open>A claim uses only one of the two calls.\<close>

lemma claim_job_first: "claim_job start takeover False m s = claim_job start takeover' False m s"
  by (simp only: claim_job_def if_False)

lemma claim_job_again: "claim_job start takeover True m s = claim_job start' takeover True m s"
  by (simp only: claim_job_def if_True)

lemma claim_job_start:
  "message_shard m = Some i \<Longrightarrow> snd (claim_job start takeover False m s) = snd (start i s)"
  by (cases "start i s") (auto simp: claim_job_def split: sum.split option.split)

text \<open>The state after a claim.\<close>

definition claimed :: "bool \<Rightarrow> message \<Rightarrow> job_step \<Rightarrow> db \<Rightarrow> system \<Rightarrow> system" where
  "claimed again m st d y =
     y\<lparr>sy_db := d, sy_delivered := (if again then sy_delivered y else msg_ID m # sy_delivered y),
       sy_jobs := next_jobs m st (sy_jobs y)\<rparr>"

lemma claim_refines:
  assumes "claim_job (\<lambda>i d. StartShard_rpc lib c (serve_call lib hl now1 up1) net1 i d)
      (\<lambda>i d. TakeOverShard_rpc lib c (serve_call lib hl now2 up2) net2 i d) again m (sy_db y) = (st, d')"
    and "m \<in> set (sy_messages y)" and "again \<longleftrightarrow> msg_ID m \<in> set (sy_delivered y)" and "msg_ID m \<notin> set (sy_acked y)"
    and "sy_group y" and "msg_ID m \<notin> set (sy_skipped y)"
  shows "system_step lib c hl y (claimed again m st d' y)"
proof (cases again)
  case True
  then have C: "claim_job (\<lambda>i d. StartShard_rpc lib c (serve_call lib hl now2 up2) net2 i d)
      (\<lambda>i d. TakeOverShard_rpc lib c (serve_call lib hl now2 up2) net2 i d) True m (sy_db y) = (st, d')"
    using assms(1) claim_job_again by metis
  from system_step.reclaim [OF assms(2) _ assms(4) C] True assms(3) show ?thesis by (simp add: claimed_def)
next
  case False
  then have C: "claim_job (\<lambda>i d. StartShard_rpc lib c (serve_call lib hl now1 up1) net1 i d)
      (\<lambda>i d. TakeOverShard_rpc lib c (serve_call lib hl now1 up1) net1 i d) False m (sy_db y) = (st, d')"
    using assms(1) claim_job_first by metis
  from system_step.deliver [OF assms(2,5,6) _ C] False assms(3) show ?thesis by (simp add: claimed_def)
qed

lemma ack_refines:
  assumes "(m, Acking) \<in> set (sy_jobs y)"
  obtains y' where "system_step lib c hl y y'" "sy_db y' = sy_db y" "msg_ID m \<in> set (sy_acked y')"
  by (rule that [OF system_step.ack [OF assms]]) simp_all

text \<open>A dead letter is recorded and acknowledged.\<close>

lemma deadLetter_refines:
  assumes "deadLetter (\<lambda>i r d. FailShard_rpc lib c (serve_call lib hl now up) net i r d) found (msg_ID m) n (sy_db y)
      = (d', cs)"
    and "m \<in> set (sy_messages y)" and "msg_ID m \<in> set (sy_delivered y)" and "msg_ID m \<notin> set (sy_acked y)"
    and "found \<in> {Some [m], Some [], None}"
  obtains y' where "system_steps lib c hl y y'" "sy_db y' = d'" "msg_ID m \<in> set (sy_acked y')"
    "msg_ID m \<in> set (sy_dead y')"
proof -
  let ?y1 = "y\<lparr>sy_db := d', sy_dead := msg_ID m # sy_dead y, sy_jobs := (m, Acking) # sy_jobs y\<rparr>"
  have 1: "system_step lib c hl y ?y1" by (rule system_step.dead [OF assms(2-5,1)])
  have "(m, Acking) \<in> set (sy_jobs ?y1)" by simp
  then have 2: "system_step lib c hl ?y1
      (?y1\<lparr>sy_acked := msg_ID m # sy_acked ?y1, sy_jobs := remove1 (m, Acking) (sy_jobs ?y1)\<rparr>)" (is "system_step lib c hl ?y1 ?y2")
    by (rule system_step.ack)
  have "system_steps lib c hl y ?y2" using 1 2 by (meson rtranclp.rtrancl_into_rtrancl rtranclp.rtrancl_refl)
  then show thesis by (rule that) simp_all
qed

text \<open>The end of a job: its report, and the acknowledgement if the report arrived.\<close>

lemma report_refines:
  assumes "(m, Busy a) \<in> set (sy_jobs y)"
    and "executeShard lib (je_start env) (je_cancel env) (je_scripts env) a = Some res"
    and "report_job (\<lambda>i r d. CompleteShard_rpc lib c (serve_call lib hl now up) net i r d) a res (sy_db y) = (st, d')"
  obtains y' where "system_steps lib c hl y y'" "sy_db y' = d'" "st = Discard \<longrightarrow> msg_ID m \<in> set (sy_acked y')"
proof -
  let ?y1 = "y\<lparr>sy_db := d', sy_jobs := next_jobs m st (remove1 (m, Busy a) (sy_jobs y))\<rparr>"
  have 1: "system_step lib c hl y ?y1" by (rule system_step.report [OF assms])
  show thesis
  proof (cases "st = Discard")
    case True
    then have "(m, Acking) \<in> set (sy_jobs ?y1)" by simp
    from ack_refines [OF this] obtain y2 where y2: "system_step lib c hl ?y1 y2" "sy_db y2 = sy_db ?y1"
      "msg_ID m \<in> set (sy_acked y2)" .
    have "system_steps lib c hl y y2" using 1 y2(1) by (meson rtranclp.rtrancl_into_rtrancl rtranclp.rtrancl_refl)
    then show thesis by (rule that) (use y2 in simp_all)
  next
    case False
    have "system_steps lib c hl y ?y1" using 1 by (rule r_into_rtranclp)
    then show thesis by (rule that) (use False in simp_all)
  qed
qed

lemma those_const: "those (map (\<lambda>i. Some x) xs) = Some (map (\<lambda>i. x) xs)"
  by (induction xs) auto

lemma executeShard_cancelled:
  assumes "t \<le> start" shows "executeShard lib start (Some t) scripts a \<noteq> None"
proof -
  have "min e t \<le> start" for e using assms by simp
  then have "runVirtualUser lib cfg (min e t) start script s = Some (start, [], s, [])" for cfg e script s
    by (simp only: runVirtualUser.simps [of _ _ _ start] if_True)
  then show ?thesis by (simp add: executeShard_def Run_def Let_def those_const)
qed

text \<open>\<open>handleMessage\<close> by the outcome of its claim.\<close>

lemma handleMessage_Retry:
  "claim_job start takeover again m s = (Retry, s1) \<Longrightarrow>
   handleMessage lib start takeover report env again m s = Some (s1, [])"
  by (simp add: handleMessage_def)

lemma handleMessage_Discard:
  "claim_job start takeover again m s = (Discard, s1) \<Longrightarrow>
   handleMessage lib start takeover report env again m s = Some (s1, ack (msg_ID m))"
  by (simp add: handleMessage_def)

lemma handleMessage_Work:
  assumes "claim_job start takeover again m s = (Work a, s1)"
    and "handleMessage lib start takeover report env again m s = Some (s', cs)"
  obtains res st where "executeShard lib (je_start env) (je_cancel env) (je_scripts env) a = Some res"
    "report_job report a res (je_meanwhile env s1) = (st, s')" "cs \<noteq> [] \<longrightarrow> st = Discard"
  using assms by (auto simp: handleMessage_def split: option.splits job_step.splits prod.splits)

lemma handleMessage_returns:
  assumes "\<And>a. executeShard lib (je_start env) (je_cancel env) (je_scripts env) a \<noteq> None"
  shows "handleMessage lib start takeover report env again m s \<noteq> None"
proof -
  obtain st s1 where C: "claim_job start takeover again m s = (st, s1)" by fastforce
  show ?thesis
  proof (cases st)
    case (Work a)
    obtain res where E: "executeShard lib (je_start env) (je_cancel env) (je_scripts env) a = Some res" using assms by blast
    obtain st' s2 where R: "report_job report a res (je_meanwhile env s1) = (st', s2)" by fastforce
    show ?thesis using C Work E R by (cases st') (simp_all add: handleMessage_def)
  qed (use C in \<open>simp_all add: handleMessage_Retry handleMessage_Discard\<close>)
qed

subsection \<open>Properties\<close>

text \<open>
  C12: the worker's code implements the pipeline and, with it, the protocol. A call of
  \<open>handleMessage\<close> on a message it was delivered or has reclaimed, whatever the network loses, is
  a sequence of steps of the pipeline that ends in the same backend state and has acknowledged
  the message if the function did, and so a sequence of steps of the abstract protocol.
  \<open>je_meanwhile\<close> is what the steps of all others make of the backend while the load runs.
\<close>

theorem handleMessage_refines:
  fixes lib c hl now1 up1 net1 now2 up2 net2 now3 up3 net3
  defines "start \<equiv> \<lambda>i d. StartShard_rpc lib c (serve_call lib hl now1 up1) net1 i d"
    and "takeover \<equiv> \<lambda>i d. TakeOverShard_rpc lib c (serve_call lib hl now2 up2) net2 i d"
    and "report \<equiv> \<lambda>i r d. CompleteShard_rpc lib c (serve_call lib hl now3 up3) net3 i r d"
  assumes "handleMessage lib start takeover report env again m (sy_db y) = Some (d', cs)"
    and "system_reach lib c hl y"
    and "m \<in> set (sy_messages y)" and "again \<longleftrightarrow> msg_ID m \<in> set (sy_delivered y)" and "msg_ID m \<notin> set (sy_acked y)"
    and "sy_group y" and "msg_ID m \<notin> set (sy_skipped y)"
    and others: "\<And>a d1. claim_job start takeover again m (sy_db y) = (Work a, d1) \<Longrightarrow>
      \<exists>y2. (system_step lib c hl)\<^sup>*\<^sup>* (claimed again m (Work a) d1 y) y2 \<and>
        sy_db y2 = je_meanwhile env d1 \<and> (m, Busy a) \<in> set (sy_jobs y2)"
  shows "\<exists>y'. (system_step lib c hl)\<^sup>*\<^sup>* y y' \<and> protocol_step\<^sup>*\<^sup>* (protocol_of y) (protocol_of y') \<and>
    sy_db y' = d' \<and> (cs \<noteq> [] \<longrightarrow> msg_ID m \<in> set (sy_acked y'))"
proof -
  obtain st d1 where C: "claim_job start takeover again m (sy_db y) = (st, d1)" by fastforce
  let ?y1 = "claimed again m st d1 y"
  have first: "system_steps lib c hl y ?y1"
    using claim_refines [OF C [unfolded start_def takeover_def] assms(6-10)] by blast
  have "\<exists>y'. system_steps lib c hl y y' \<and> sy_db y' = d' \<and> (cs \<noteq> [] \<longrightarrow> msg_ID m \<in> set (sy_acked y'))"
  proof (cases st)
    case Retry
    then have "d' = d1" "cs = []" using assms(4) handleMessage_Retry [OF C [unfolded Retry]] by simp_all
    then show ?thesis using first by (intro exI [of _ ?y1]) (simp add: claimed_def)
  next
    case Discard
    then have d': "d' = d1" using assms(4) handleMessage_Discard [OF C [unfolded Discard]] by simp
    from Discard have "(m, Acking) \<in> set (sy_jobs ?y1)" by (simp add: claimed_def)
    from ack_refines [OF this] obtain y2 where y2: "system_step lib c hl ?y1 y2" "sy_db y2 = sy_db ?y1"
      "msg_ID m \<in> set (sy_acked y2)" .
    from rtranclp.rtrancl_into_rtrancl [OF first y2(1)] show ?thesis
      using d' y2(2,3) by (intro exI [of _ y2]) (simp add: claimed_def)
  next
    case (Work a)
    from others [OF C [unfolded Work]] obtain y2 where y2: "system_steps lib c hl ?y1 y2"
      "sy_db y2 = je_meanwhile env d1" "(m, Busy a) \<in> set (sy_jobs y2)" using Work by blast
    obtain res st' where res: "executeShard lib (je_start env) (je_cancel env) (je_scripts env) a = Some res"
      and R: "report_job report a res (je_meanwhile env d1) = (st', d')" and acks: "cs \<noteq> [] \<longrightarrow> st' = Discard"
      using C [unfolded Work] assms(4) by (rule handleMessage_Work)
    have R2: "report_job (\<lambda>i r d. CompleteShard_rpc lib c (serve_call lib hl now3 up3) net3 i r d) a res (sy_db y2) = (st', d')"
      using R y2(2) by (simp add: report_def)
    obtain y' where y': "system_steps lib c hl y2 y'" "sy_db y' = d'" "st' = Discard \<longrightarrow> msg_ID m \<in> set (sy_acked y')"
      using y2(3) res R2 by (rule report_refines)
    have "system_steps lib c hl y y'" using first y2(1) y'(1) by (meson rtranclp_trans)
    then show ?thesis using y'(2,3) acks by blast
  qed
  then show ?thesis using steps_simulated system_reach_inv [OF assms(5)] by blast
qed

text \<open>While the load runs, another worker claims another shard.\<close>

theorem handleMessage_refines_witness:
  "\<exists>env d' cs y'. handleMessage ascii_lib
      (\<lambda>i d. StartShard_rpc ascii_lib sample_client (serve_call ascii_lib sample_handler 5 (True, True)) Net_ok i d)
      (\<lambda>i d. TakeOverShard_rpc ascii_lib sample_client (serve_call ascii_lib sample_handler 5 (True, True)) Net_ok i d)
      (\<lambda>i r d. CompleteShard_rpc ascii_lib sample_client (serve_call ascii_lib sample_handler 9 (True, True)) Net_ok i r d)
      env False (PublishShard ''1-0'' 1) good_db = Some (d', cs) \<and>
    je_meanwhile env good_db \<noteq> good_db \<and>
    (system_step ascii_lib sample_client sample_handler)\<^sup>*\<^sup>* sample_system y' \<and> sy_db y' = d'"
proof -
  let ?start = "\<lambda>i d. StartShard_rpc ascii_lib sample_client (serve_call ascii_lib sample_handler 5 (True, True)) Net_ok i d"
  let ?take = "\<lambda>i d. TakeOverShard_rpc ascii_lib sample_client (serve_call ascii_lib sample_handler 5 (True, True)) Net_ok i d"
  let ?report = "\<lambda>i r d. CompleteShard_rpc ascii_lib sample_client (serve_call ascii_lib sample_handler 9 (True, True)) Net_ok i r d"
  let ?m = "PublishShard ''1-0'' 1" and ?m2 = "PublishShard ''2-0'' 2"
  let ?env = "\<lparr>je_start = 0, je_cancel = Some 0, je_scripts = sample_script, je_meanwhile = (\<lambda>d. snd (?start 2 d))\<rparr>"
  have "handleMessage ascii_lib ?start ?take ?report ?env False ?m good_db \<noteq> None"
    by (rule handleMessage_returns) (simp add: executeShard_cancelled del: not_None_eq)
  then obtain d' cs where H: "handleMessage ascii_lib ?start ?take ?report ?env False ?m (sy_db sample_system) = Some (d', cs)"
    by (auto simp: sample_system_def)
  have m: "?m \<in> set (sy_messages sample_system)" "False \<longleftrightarrow> msg_ID ?m \<in> set (sy_delivered sample_system)"
    "msg_ID ?m \<notin> set (sy_acked sample_system)" "sy_group sample_system" "msg_ID ?m \<notin> set (sy_skipped sample_system)"
    by (simp_all add: sample_system_def start_system_def)
  have others: "\<exists>y2. system_steps ascii_lib sample_client sample_handler (claimed False ?m (Work a) d1 sample_system) y2 \<and>
      sy_db y2 = je_meanwhile ?env d1 \<and> (?m, Busy a) \<in> set (sy_jobs y2)" for a d1
  proof -
    let ?y1 = "claimed False ?m (Work a) d1 sample_system"
    have "snd (claim_job ?start ?take False ?m2 (sy_db ?y1)) = snd (?start 2 d1)"
      using claim_job_start [of ?m2 2 ?start ?take d1] by (simp add: claimed_def PublishShard_read int64_ok_def)
    then obtain st where C: "claim_job ?start ?take False ?m2 (sy_db ?y1) = (st, snd (?start 2 d1))"
      by (metis prod.collapse)
    have m2: "?m2 \<in> set (sy_messages ?y1)" "sy_group ?y1" "msg_ID ?m2 \<notin> set (sy_skipped ?y1)"
      "msg_ID ?m2 \<notin> set (sy_delivered ?y1)" by (simp_all add: claimed_def sample_system_def start_system_def)
    from system_step.deliver [OF m2 C] show ?thesis
      by (intro exI [of _ "claimed False ?m2 st (snd (?start 2 d1)) ?y1"])
        (auto simp: claimed_def next_jobs_mem)
  qed
  from handleMessage_refines [OF H sample_system_reach m others] obtain y' where
    y': "system_steps ascii_lib sample_client sample_handler sample_system y'" "sy_db y' = d'" by blast
  have "je_meanwhile ?env good_db \<noteq> good_db"
  proof -
    have reach: "store_reach good_db" using system_reach_inv [OF sample_system_reach] by (simp add: system_inv_def sample_system_def)
    obtain s where s: "find_shard 2 good_db = Some s" "shard_guard False s"
      by (simp add: good_db_def find_shard_def new_shard_row_def shard_guard_def)
    obtain a d2 where S: "startShard 5 2 False ErrNotQueued good_db = (Inr a, d2)"
      by (rule startShard_succeeds [OF store_reach_wf [OF reach] s, of ErrNotQueued 5]) simp_all
    have url: "url_parse ascii_lib (cl_baseURL sample_client @ ''/internal/shards/'' @ FormatInt 2 @ ''/start'') \<noteq> None"
      using base_url_parses [of sample_client "''backend''" "'':8080''" "''/start''" ascii_lib 2]
      by (simp add: sample_client_def plain_host_def plain_port_def is_alpha_def is_digit_def Let_def)
    have "snd (?start 2 good_db) = d2"
      using StartShard_arrives [OF url, of ascii_lib sample_handler 5 good_db] S
      by (simp add: int64_ok_def answer_def StartShard_def)
    moreover have "shard_status 2 d2 = Some Running" using startShard_runs [OF store_reach_wf [OF reach] S] by simp
    moreover have "shard_status 2 good_db = Some Queued"
      by (simp add: shard_status_def good_db_def find_shard_def new_shard_row_def)
    ultimately show ?thesis by auto
  qed
  moreover have "sy_db sample_system = good_db" by (simp add: sample_system_def)
  ultimately show ?thesis using H y' by metis
qed

end
