(* ===== verification/Target_Service.thy ===== *)
theory Target_Service
  imports Load_Runner
begin

section \<open>The bundled target\<close>

text \<open>
  \<^verbatim>\<open>target/cmd/target/main.go\<close>: the small service that load tests are pointed at by default. A
  reply is its status, its JSON object and how long the handler sleeps, in nanoseconds; \<open>rnd\<close> is
  what \<^verbatim>\<open>rand.Intn(3)\<close> yields. \<open>target_serve\<close> is the mux on a path without \<^verbatim>\<open>//\<close> and dot
  segments (others are redirected by the standard library before they get to a handler).

  The properties follow a whole load run against it.
\<close>

record target_reply =
  tg_status :: int
  tg_payload :: "(string \<times> string) list"
  tg_sleep :: nat

definition target_writeJSON :: "int \<Rightarrow> (string \<times> string) list \<Rightarrow> target_reply" where
  "target_writeJSON status payload = \<lparr>tg_status = status, tg_payload = payload, tg_sleep = 0\<rparr>"

definition healthHandler :: target_reply where
  "healthHandler = target_writeJSON 200 [(''service'', ''target''), (''status'', ''ok'')]"

definition fastHandler :: target_reply where
  "fastHandler = target_writeJSON 200 [(''message'', ''fast response'')]"

definition slowHandler :: target_reply where
  "slowHandler = (target_writeJSON 200 [(''message'', ''slow response'')])\<lparr>tg_sleep := 500 * 10 ^ 6\<rparr>"

definition errorHandler :: target_reply where
  "errorHandler = target_writeJSON 500 [(''error'', ''intentional error response'')]"

definition randomHandler :: "nat \<Rightarrow> target_reply" where
  "randomHandler rnd =
     (if rnd = 0 then fastHandler else if rnd = 1 then slowHandler else errorHandler)"

definition target_serve :: "nat \<Rightarrow> string \<Rightarrow> target_reply" where
  "target_serve rnd path =
     (if path = ''/health'' then healthHandler
      else if path = ''/fast'' then fastHandler
      else if path = ''/slow'' then slowHandler
      else if path = ''/error'' then errorHandler
      else if path = ''/random'' then randomHandler rnd
      else \<lparr>tg_status = 404, tg_payload = [], tg_sleep = 0\<rparr>)"

lemmas target_defs = target_serve_def healthHandler_def fastHandler_def slowHandler_def errorHandler_def
  randomHandler_def target_writeJSON_def

subsection \<open>What a run observes of its target\<close>

text \<open>
  An attempt that reaches the target at a path is answered by it, or gets no answer; \<open>R\<close> is
  what the random draws can be.
\<close>

definition at_target :: "nat set \<Rightarrow> string \<Rightarrow> attempt \<Rightarrow> bool" where
  "at_target R path x \<longleftrightarrow>
     (case at_exchange x of
        Transport_error d \<Rightarrow> True
      | Reply c h b \<Rightarrow>
          (\<exists>rnd \<in> R. c = tg_status (target_serve rnd path) \<and> tg_sleep (target_serve rnd path) \<le> h))"

lemma all_or_none:
  "\<forall>ob \<in> set obs. \<forall>l ok. ob = Answered l ok \<longrightarrow> ok \<Longrightarrow> successes obs = length (latencies obs)"
  "\<forall>ob \<in> set obs. \<forall>l ok. ob = Answered l ok \<longrightarrow> \<not> ok \<Longrightarrow> successes obs = 0"
  by (induction obs rule: successes.induct) auto

lemma slow_ms: "elapsed_ms (500 * 10 ^ 6) = 500"
proof -
  have "fl64 (of_int (500 * 10 ^ 6)) = of_int (500 * 10 ^ 6)" by (rule fl64_int) simp
  then show ?thesis using fl64_int [of 500] by (simp add: elapsed_ms_def)
qed

text \<open>What every answer of a run shares, its result has: success, failure, or half a second.\<close>

lemma run_outcome:
  assumes "Run lib cfg start cancel scripts = Some (Inr (res, e, reqs, mss))"
    and "(\<Sum>i<nat (cfg_VirtualUsers cfg). length (scripts i)) \<le> 2 ^ 45"
    and "\<forall>i. \<forall>x \<in> set (scripts i). at_target R path x"
  shows "\<forall>rnd \<in> R. \<not> tg_status (target_serve rnd path) < 400 \<Longrightarrow> res_SuccessfulRequests res = 0"
    and "\<forall>rnd \<in> R. tg_status (target_serve rnd path) < 400 \<Longrightarrow>
      res_SuccessfulRequests res = res_LatencyCount res"
    and "\<forall>rnd \<in> R. 500 * 10 ^ 6 \<le> tg_sleep (target_serve rnd path) \<Longrightarrow> 0 < res_LatencyCount res \<Longrightarrow>
      500 \<le> res_MinLatencyMs res"
proof -
  obtain obss where o: "res = mergeStats (map (foldl record_obs vu_zero) obss)"
    "length (concat obss) \<le> (\<Sum>i<nat (cfg_VirtualUsers cfg). length (scripts i))"
    "\<forall>ob \<in> set (concat obss). \<exists>i. \<exists>x \<in> set (scripts i). explains cfg x ob"
    using assms(1) by (rule Run_explained)
  have small: "int (length (concat obss)) < 2 ^ 63" using o(2) assms(2) by simp
  note res = mergeStats_stats_of [OF small, folded record_all_map [OF small], folded o(1)]
  have answered: "\<exists>rnd \<in> R. \<exists>el. ok = (tg_status (target_serve rnd path) < 400) \<and> l = elapsed_ms el \<and>
      int (tg_sleep (target_serve rnd path)) \<le> el" if "Answered l ok \<in> set (concat obss)" for l ok
  proof -
    obtain i x where "x \<in> set (scripts i)" "explains cfg x (Answered l ok)" using o(3) \<open>Answered l ok \<in> _\<close> by blast
    moreover have "at_target R path x" using assms(3) calculation(1) by blast
    ultimately show ?thesis by (fastforce simp: explains_def at_target_def)
  qed
  show "res_SuccessfulRequests res = 0" if "\<forall>rnd \<in> R. \<not> tg_status (target_serve rnd path) < 400"
    using all_or_none(2) [of "concat obss"] answered that unfolding res by fastforce
  show "res_SuccessfulRequests res = res_LatencyCount res" if "\<forall>rnd \<in> R. tg_status (target_serve rnd path) < 400"
    using all_or_none(1) [of "concat obss"] answered that unfolding res by fastforce
  show "500 \<le> res_MinLatencyMs res"
    if slow: "\<forall>rnd \<in> R. 500 * 10 ^ 6 \<le> tg_sleep (target_serve rnd path)" and some: "0 < res_LatencyCount res"
  proof -
    have ne: "latencies (concat obss) \<noteq> []" using some unfolding res by auto
    have "500 \<le> l" if l: "l \<in> set (latencies (concat obss))" for l
    proof -
      obtain rnd el where el: "rnd \<in> R" "l = elapsed_ms el" "int (tg_sleep (target_serve rnd path)) \<le> el"
        using latencies_mem [OF l] answered by blast
      then have "500 * 10 ^ 6 \<le> el" using slow by fastforce
      then have "elapsed_ms (500 * 10 ^ 6) \<le> elapsed_ms el" by (intro elapsed_ms_mono) simp_all
      then show ?thesis using el(2) slow_ms by simp
    qed
    then show ?thesis using ne unfolding res by (simp add: least_def)
  qed
qed

subsection \<open>Properties\<close>


definition error_cfg :: config where
  "error_cfg = sample_cfg\<lparr>cfg_TargetURL := ''http://target:8081/error''\<rparr>"

definition error_script :: "nat \<Rightarrow> attempt list" where
  "error_script i = replicate 1000 \<lparr>at_build = 1, at_exchange = Reply 500 300 100, at_late = 1, at_wake = 0\<rparr>"


end
